(* ===== verification/Prelude.thy ===== *)
theory Prelude
  imports Main "HOL-Library.Word" "HOL-Library.Monad_Syntax"
begin

text \<open>
  What every component of the kernel model shares: the C integer types as words, checked access
  to C arrays, the two loop combinators the C \<open>for\<close> loops are translated to, and the generic
  facts about words, bits and lists the component proofs rest on.

  Conventions used everywhere.  A result of type \<open>'a option\<close> is \<open>None\<close> exactly where the C code
  has undefined behaviour (an access outside an array, a null or unmapped pointer) or does not
  return; every error code of the C source is an ordinary value.  A C function that changes
  state takes the state and returns the new one.
\<close>

section \<open>C integer types\<close>

unbundle bit_operations_syntax

type_synonym u8 = "8 word"
type_synonym u16 = "16 word"
type_synonym u32 = "32 word"

named_theorems word_nat \<open>moving between words and natural numbers\<close>
named_theorems loop_rules \<open>evaluation of the loop combinators\<close>

section \<open>Arrays with checked access\<close>

definition arr_get :: "'a list \<Rightarrow> nat \<Rightarrow> 'a option" where
  "arr_get xs i = (if i < length xs then Some (xs ! i) else None)"

definition arr_set :: "'a list \<Rightarrow> nat \<Rightarrow> 'a \<Rightarrow> 'a list option" where
  "arr_set xs i v = (if i < length xs then Some (xs[i := v]) else None)"

lemma arr_get_in [simp]: "i < length xs \<Longrightarrow> arr_get xs i = Some (xs ! i)"
  by (simp add: arr_get_def)

lemma arr_set_in [simp]: "i < length xs \<Longrightarrow> arr_set xs i v = Some (xs[i := v])"
  by (simp add: arr_set_def)

lemma arr_get_out: "length xs \<le> i \<Longrightarrow> arr_get xs i = None"
  by (simp add: arr_get_def)

lemma arr_set_out: "length xs \<le> i \<Longrightarrow> arr_set xs i v = None"
  by (simp add: arr_set_def)

lemma arr_set_length: "arr_set xs i v = Some ys \<Longrightarrow> length ys = length xs"
  by (auto simp: arr_set_def split: if_splits)

section \<open>Loops\<close>

text \<open>
  \<open>for_each\<close> is a C \<open>for\<close> loop over a fixed list of index values whose body always falls through;
  \<open>for_until\<close> is one whose body may \<open>return\<close> (or \<open>break\<close> with a value): \<open>Inl r\<close> leaves the loop
  with \<open>r\<close>, \<open>Inr s\<close> goes on in state \<open>s\<close>.
\<close>

fun for_each :: "('i \<Rightarrow> 's \<Rightarrow> 's option) \<Rightarrow> 'i list \<Rightarrow> 's \<Rightarrow> 's option" where
  "for_each f [] s = Some s"
| "for_each f (i # is) s = do { s' \<leftarrow> f i s; for_each f is s' }"

fun for_until :: "('i \<Rightarrow> 's \<Rightarrow> ('r + 's) option) \<Rightarrow> 'i list \<Rightarrow> 's \<Rightarrow> ('r + 's) option" where
  "for_until f [] s = Some (Inr s)"
| "for_until f (i # is) s =
     do { r \<leftarrow> f i s; case r of Inl x \<Rightarrow> Some (Inl x) | Inr s' \<Rightarrow> for_until f is s' }"

lemma for_each_append: "for_each f (is @ js) s = do { s' \<leftarrow> for_each f is s; for_each f js s' }"
  by (induction "is" arbitrary: s) (auto split: Option.bind_splits)

lemma for_each_fold:
  assumes "\<And>i s. i \<in> set is \<Longrightarrow> P s \<Longrightarrow> f i s = Some (g i s)"
    and "\<And>i s. i \<in> set is \<Longrightarrow> P s \<Longrightarrow> P (g i s)"
    and "P s"
  shows "for_each f is s = Some (fold g is s)"
  using assms by (induction "is" arbitrary: s) auto

lemma for_each_invariant:
  assumes "for_each f is s = Some t" and "P s"
    and "\<And>i s s'. i \<in> set is \<Longrightarrow> P s \<Longrightarrow> f i s = Some s' \<Longrightarrow> P s'"
  shows "P t"
  using assms
proof (induction "is" arbitrary: s)
  case Nil
  then show ?case by simp
next
  case (Cons i "is")
  from Cons.prems(1) obtain s' where s': "f i s = Some s'" "for_each f is s' = Some t"
    by (auto split: Option.bind_splits)
  have "P s'" using Cons.prems(3) [of i s s'] Cons.prems(2) s'(1) by simp
  with s'(2) show ?case using Cons.prems(3) by (intro Cons.IH) auto
qed

text \<open>
  Counting loops \<open>for (i = 0; i < n; i++)\<close>: either the state after \<open>i\<close> rounds is known in closed
  form, or an invariant indexed by \<open>i\<close> is.
\<close>

lemma for_each_upt [loop_rules]:
  "(\<And>i. i < n \<Longrightarrow> f i (g i) = Some (g (Suc i))) \<Longrightarrow> for_each f [0..<n] (g 0) = Some (g n)"
  by (induction n) (auto simp: for_each_append)

lemma for_each_upt_inv [loop_rules]:
  assumes "I 0 s" and "\<And>i s. i < n \<Longrightarrow> I i s \<Longrightarrow> \<exists>t. f i s = Some t \<and> I (Suc i) t"
  shows "\<exists>t. for_each f [0..<n] s = Some t \<and> I n t"
  using assms(2)
proof (induction n)
  case 0
  with assms(1) show ?case by simp
next
  case (Suc n)
  then obtain t where "for_each f [0..<n] s = Some t" "I n t" by auto
  with Suc.prems [of n t] show ?case by (auto simp: for_each_append)
qed

lemma for_each_None:
  "i \<in> set is \<Longrightarrow> (\<And>s. f i s = None) \<Longrightarrow> for_each f is s = None"
  by (induction "is" arbitrary: s) (auto split: Option.bind_splits)

lemma for_each_cong:
  "(\<And>i s. i \<in> set is \<Longrightarrow> f i s = g i s) \<Longrightarrow> for_each f is s = for_each g is s"
  by (induction "is" arbitrary: s) (auto split: Option.bind_splits)

text \<open>A loop that only inspects its state until some index fits is \<open>find\<close> over the indices.\<close>

lemma for_until_find:
  assumes "\<And>i. i \<in> set is \<Longrightarrow> f i s = Some (if P i then Inl (g i) else Inr s)"
  shows "for_until f is s = Some (case find P is of Some i \<Rightarrow> Inl (g i) | None \<Rightarrow> Inr s)"
  using assms by (induction "is") auto

lemma for_until_invariant:
  assumes "for_until f is s = Some r" and "Q s"
    and "\<And>i s r. Q s \<Longrightarrow> f i s = Some r \<Longrightarrow> (case r of Inl x \<Rightarrow> R x | Inr t \<Rightarrow> Q t)"
  shows "case r of Inl x \<Rightarrow> R x | Inr t \<Rightarrow> Q t"
  using assms(1,2)
proof (induction "is" arbitrary: s)
  case (Cons i "is")
  then obtain q where q: "f i s = Some q" "(case q of Inl x \<Rightarrow> Some (Inl x) | Inr t \<Rightarrow> for_until f is t) = Some r"
    by (auto split: Option.bind_splits)
  show ?case
  proof (cases q)
    case (Inl x)
    then show ?thesis using q assms(3) [OF Cons.prems(2) q(1)] by auto
  next
    case (Inr t)
    then show ?thesis using q assms(3) [OF Cons.prems(2) q(1)] Cons.IH by auto
  qed
qed auto

lemma find_upt_Some:
  "find P [0..<n] = Some i \<longleftrightarrow> i < n \<and> P i \<and> (\<forall>j<i. \<not> P j)"
  by (auto simp: find_Some_iff)

lemma find_upt_None: "find P [0..<n] = None \<longleftrightarrow> (\<forall>i<n. \<not> P i)"
  by (auto simp: find_None_iff)

section \<open>Words and bits\<close>

lemma unat_of_nat_small [word_nat]:
  "n < 2 ^ LENGTH('a) \<Longrightarrow> unat (of_nat n :: 'a::len word) = n"
  by (simp add: unat_of_nat take_bit_nat_eq_self)

lemma u32_of_nat_inj:
  assumes "a < 2 ^ 32" and "b < 2 ^ 32"
  shows "(of_nat a :: u32) = of_nat b \<longleftrightarrow> a = b"
proof
  assume "(of_nat a :: u32) = of_nat b"
  then have "unat (of_nat a :: u32) = unat (of_nat b :: u32)" by simp
  with assms show "a = b" by (simp add: word_nat)
qed simp

lemma ucast_u8_of_nat: "ucast (x :: u32) = (of_nat (unat x) :: u8)"
  by simp

lemma below_byte:
  assumes "q < i * 8 + k" and "k < (8::nat)"
  shows "q div 8 < i \<or> q div 8 = i \<and> q mod 8 < k"
proof -
  have "q div 8 < Suc i" using assms by (intro less_mult_imp_div_less) simp
  then consider "q div 8 < i" | "q div 8 = i" by linarith
  then show ?thesis
  proof cases
    case 2
    have "q div 8 * 8 + q mod 8 = q" by simp
    then have "q mod 8 < k" using assms(1) 2 by linarith
    with 2 show ?thesis by simp
  qed simp
qed

lemma word_div_mod_8: "(x :: u32) = (x div 8) * 8 + x mod 8"
  by (metis mult_div_mod_eq mult.commute)

lemma unat_mod_8_less: "unat ((x :: u32) mod 8) < 8"
  by (simp add: unat_mod)

lemma u8_all_bits: "(b :: u8) = 0xFF \<longleftrightarrow> (\<forall>k<8. bit b k)"
proof
  show "b = 0xFF \<Longrightarrow> \<forall>k<8. bit b k"
    by (auto simp: less_Suc_eq numeral_eq_Suc bit_simps)
next
  assume "\<forall>k<8. bit b k"
  then have "b = - 1"
    by (intro bit_word_eqI) auto
  then show "b = 0xFF" by simp
qed

text \<open>
  Single-bit masks \<open>1 << k\<close>; the simplifier writes the mask \<open>2 ^ k\<close>.
\<close>

lemma bit_mask_u8: "bit (2 ^ k :: u8) j \<longleftrightarrow> j = k \<and> k < 8"
  by (auto simp: bit_simps)

lemma bit_set_u8: "k < 8 \<Longrightarrow> bit ((b :: u8) OR 2 ^ k) j \<longleftrightarrow> bit b j \<or> j = k"
  by (auto simp: bit_or_iff bit_mask_u8)

lemma bit_clear_u8: "k < 8 \<Longrightarrow> bit ((b :: u8) AND NOT (2 ^ k)) j \<longleftrightarrow> bit b j \<and> j \<noteq> k"
  by (auto simp: bit_and_iff bit_not_iff bit_mask_u8 dest: bit_imp_le_length)

lemma and_mask_u8: "(b :: u8) AND 2 ^ k = 0 \<longleftrightarrow> \<not> bit b k"
proof
  assume "b AND 2 ^ k = 0"
  then have "\<not> bit (b AND 2 ^ k) k" by simp
  then show "\<not> bit b k" by (auto simp: bit_and_iff bit_mask_u8 dest: bit_imp_le_length)
next
  assume "\<not> bit b k"
  then show "b AND 2 ^ k = 0" by (intro bit_word_eqI) (auto simp: bit_and_iff bit_mask_u8)
qed

section \<open>Signed 32-bit values\<close>

lemma sint_u32: "sint (n :: u32) = (if uint n < 2 ^ 31 then uint n else uint n - 2 ^ 32)"
proof -
  have s: "sint n = (uint n + 2 ^ 31) mod 2 ^ 32 - 2 ^ 31"
    by (simp add: sint_uint signed_take_bit_eq_take_bit_shift take_bit_eq_mod)
  have "(uint n + 2 ^ 31) mod 2 ^ 32 = (uint n + 2 ^ 31 - 2 ^ 32) mod 2 ^ 32"
    by (rule minus_mod_self2 [symmetric])
  then show ?thesis using uint_lt2p [of n] s by auto
qed

lemma uint_minus_u32: "uint (- n :: u32) = (if n = 0 then 0 else 2 ^ 32 - uint n)"
proof (cases "n = 0")
  case False
  then have "uint n \<noteq> 0" by (simp add: unsigned_eq_0_iff)
  then show ?thesis using uint_word_ariths(4) [of n] uint_lt2p [of n] False
    by (simp add: zmod_zminus1_eq_if)
qed simp

text \<open>\<open>n <s 0\<close> is the signed comparison of C's \<open>int32_t\<close>.\<close>

lemma unat_abs_u32:
  "unat (if n <s 0 then - n else n :: u32) = nat \<bar>sint n\<bar>"
proof (cases "n <s 0")
  case True
  then have "sint n < 0" by (simp add: word_sless_alt)
  then have "n \<noteq> 0" and "sint n = uint n - 2 ^ 32" by (auto simp: sint_u32 split: if_splits)
  then have "uint (- n) = \<bar>sint n\<bar>" using uint_lt2p [of n] by (simp add: uint_minus_u32)
  then show ?thesis using True by (simp only: if_True unat_eq_nat_uint)
next
  case False
  then have "0 \<le> sint n" by (simp add: word_sless_alt)
  then have "uint n = \<bar>sint n\<bar>" using uint_lt2p [of n] by (simp add: sint_u32 split: if_splits)
  then show ?thesis using False by (simp only: if_False unat_eq_nat_uint)
qed

end
