(* ===== verification/Pmm.thy ===== *)
theory Pmm
  imports Prelude
begin

text \<open>
  The physical memory manager, \<^verbatim>\<open>kernel/pmm.c\<close> and \<^verbatim>\<open>kernel/include/pmm.h\<close>.  The state is the
  static array \<open>bitmap\<close>, one bit per 4KB page.
\<close>

section \<open>State and operations\<close>

type_synonym bitmap = "u8 list"

definition PAGE_SIZE :: u32 where "PAGE_SIZE = 4096"

definition MEM_SIZE :: nat where "MEM_SIZE = 512 * 1024 * 1024"

definition TOTAL_PAGES :: nat where "TOTAL_PAGES = MEM_SIZE div unat PAGE_SIZE"

definition pmm_set_used :: "u32 \<Rightarrow> bitmap \<Rightarrow> bitmap option" where
  "pmm_set_used page bm = do {
     b \<leftarrow> arr_get bm (unat (page div 8));
     arr_set bm (unat (page div 8)) (b OR push_bit (unat (page mod 8)) 1) }"

definition pmm_set_free :: "u32 \<Rightarrow> bitmap \<Rightarrow> bitmap option" where
  "pmm_set_free page bm = do {
     b \<leftarrow> arr_get bm (unat (page div 8));
     arr_set bm (unat (page div 8)) (b AND NOT (push_bit (unat (page mod 8)) 1)) }"

definition pmm_is_free :: "u32 \<Rightarrow> bitmap \<Rightarrow> bool option" where
  "pmm_is_free page bm = do {
     b \<leftarrow> arr_get bm (unat (page div 8));
     Some (b AND push_bit (unat (page mod 8)) 1 = 0) }"

definition pmm_init :: "u32 \<Rightarrow> bitmap \<Rightarrow> bitmap option" where
  "pmm_init kernel_end_addr bm = do {
     bm \<leftarrow> for_each (\<lambda>i bm. arr_set bm i 0) [0..<TOTAL_PAGES div 8] bm;
     bm \<leftarrow> for_each (\<lambda>i bm. pmm_set_used (of_nat i) bm) [0..<256] bm;
     let kernel_pages = kernel_end_addr div PAGE_SIZE + 1;
     for_each (\<lambda>i bm. pmm_set_used (of_nat i) bm) [0..<unat kernel_pages] bm }"

definition pmm_alloc :: "bitmap \<Rightarrow> (u32 \<times> bitmap) option" where
  "pmm_alloc bm = do {
     r \<leftarrow> for_until (\<lambda>i bm. do {
            b \<leftarrow> arr_get bm i;
            if b = 0xFF then Some (Inr bm)
            else for_until (\<lambda>k bm. do {
                   fr \<leftarrow> pmm_is_free (of_nat i * 8 + of_nat k) bm;
                   if fr then do {
                     bm' \<leftarrow> pmm_set_used (of_nat i * 8 + of_nat k) bm;
                     Some (Inl ((of_nat i * 8 + of_nat k) * PAGE_SIZE, bm')) }
                   else Some (Inr bm) }) [0..<8] bm })
          [0..<TOTAL_PAGES div 8] bm;
     case r of Inl res \<Rightarrow> Some res | Inr bm' \<Rightarrow> Some (0, bm') }"

definition pmm_free :: "u32 \<Rightarrow> bitmap \<Rightarrow> bitmap option" where
  "pmm_free addr bm = pmm_set_free (addr div PAGE_SIZE) bm"

definition pmm_free_pages :: "bitmap \<Rightarrow> u32 option" where
  "pmm_free_pages bm =
     for_each (\<lambda>i count. for_each (\<lambda>k count. do {
        fr \<leftarrow> pmm_is_free (of_nat i * 8 + of_nat k) bm;
        Some (if fr then count + 1 else count) }) [0..<8] count)
     [0..<TOTAL_PAGES div 8] 0"

section \<open>Abstraction: the set of free pages\<close>

definition bitmap_ok :: "bitmap \<Rightarrow> bool" where
  "bitmap_ok bm \<longleftrightarrow> length bm = TOTAL_PAGES div 8"

definition page_free :: "bitmap \<Rightarrow> nat \<Rightarrow> bool" where
  "page_free bm p \<longleftrightarrow> p < TOTAL_PAGES \<and> \<not> bit (bm ! (p div 8)) (p mod 8)"

definition free_set :: "bitmap \<Rightarrow> nat set" where
  "free_set bm = {p. page_free bm p}"

lemma TOTAL_PAGES_eq: "TOTAL_PAGES = 131072"
  by (simp add: TOTAL_PAGES_def MEM_SIZE_def PAGE_SIZE_def)


text \<open>The three bit operations, on the page number as a natural number.\<close>

definition mark_used :: "bitmap \<Rightarrow> nat \<Rightarrow> bitmap" where
  "mark_used bm p = bm[p div 8 := (bm ! (p div 8)) OR push_bit (p mod 8) 1]"

definition mark_free :: "bitmap \<Rightarrow> nat \<Rightarrow> bitmap" where
  "mark_free bm p = bm[p div 8 := (bm ! (p div 8)) AND NOT (push_bit (p mod 8) 1)]"

lemma page_index [simp]:
  "unat (page div 8 :: u32) = unat page div 8" "unat (page mod 8 :: u32) = unat page mod 8"
  by (simp_all add: unat_div unat_mod)

lemma byte_in_range: "bitmap_ok bm \<Longrightarrow> p div 8 < length bm \<longleftrightarrow> p < TOTAL_PAGES"
  by (auto simp: bitmap_ok_def TOTAL_PAGES_eq)

lemma pmm_set_used_eq:
  "bitmap_ok bm \<Longrightarrow> pmm_set_used page bm =
     (if unat page < TOTAL_PAGES then Some (mark_used bm (unat page)) else None)"
  using byte_in_range [of bm "unat page"]
  by (auto simp: pmm_set_used_def mark_used_def arr_get_out)

lemma pmm_set_free_eq:
  "bitmap_ok bm \<Longrightarrow> pmm_set_free page bm =
     (if unat page < TOTAL_PAGES then Some (mark_free bm (unat page)) else None)"
  using byte_in_range [of bm "unat page"]
  by (auto simp: pmm_set_free_def mark_free_def arr_get_out)

lemma pmm_is_free_eq:
  "bitmap_ok bm \<Longrightarrow> pmm_is_free page bm =
     (if unat page < TOTAL_PAGES then Some (page_free bm (unat page)) else None)"
  using byte_in_range [of bm "unat page"]
  by (auto simp: pmm_is_free_def page_free_def arr_get_out and_mask_u8)

lemma bitmap_ok_mark [simp]:
  "bitmap_ok bm \<Longrightarrow> bitmap_ok (mark_used bm p)" "bitmap_ok bm \<Longrightarrow> bitmap_ok (mark_free bm p)"
  by (simp_all add: bitmap_ok_def mark_used_def mark_free_def)

lemma same_page: "p div 8 = q div 8 \<and> p mod 8 = q mod 8 \<longleftrightarrow> p = (q :: nat)"
  by (metis div_mult_mod_eq)

lemma page_free_mark_used:
  "bitmap_ok bm \<Longrightarrow> p < TOTAL_PAGES \<Longrightarrow> page_free (mark_used bm p) q \<longleftrightarrow> page_free bm q \<and> q \<noteq> p"
  using byte_in_range [of bm p] same_page [of p q]
  by (auto simp: page_free_def mark_used_def nth_list_update bit_set_u8)

lemma page_free_mark_free:
  "bitmap_ok bm \<Longrightarrow> p < TOTAL_PAGES \<Longrightarrow> page_free (mark_free bm p) q \<longleftrightarrow> page_free bm q \<or> q = p"
  using byte_in_range [of bm p] same_page [of p q]
  by (auto simp: page_free_def mark_free_def nth_list_update bit_clear_u8)

lemma free_set_mark_used [simp]:
  "bitmap_ok bm \<Longrightarrow> p < TOTAL_PAGES \<Longrightarrow> free_set (mark_used bm p) = free_set bm - {p}"
  by (auto simp: free_set_def page_free_mark_used)

lemma free_set_mark_free [simp]:
  "bitmap_ok bm \<Longrightarrow> p < TOTAL_PAGES \<Longrightarrow> free_set (mark_free bm p) = insert p (free_set bm)"
  by (auto simp: free_set_def page_free_mark_free)

lemma free_set_bound: "free_set bm \<subseteq> {..<TOTAL_PAGES}"
  by (auto simp: free_set_def page_free_def)

lemma finite_free_set [simp]: "finite (free_set bm)"
  using free_set_bound finite_subset by blast

lemma card_free_set: "card (free_set bm) \<le> TOTAL_PAGES"
  using card_mono [OF _ free_set_bound] by simp

section \<open>The scan of \<open>pmm_alloc\<close>\<close>

lemma page_number:
  assumes "i < TOTAL_PAGES div 8" and "k < 8"
  shows "unat (of_nat i * 8 + of_nat k :: u32) = i * 8 + k" and "i * 8 + k < TOTAL_PAGES"
proof -
  show less: "i * 8 + k < TOTAL_PAGES" using assms by (simp add: TOTAL_PAGES_eq)
  have "(of_nat i * 8 + of_nat k :: u32) = of_nat (i * 8 + k)" by simp
  then show "unat (of_nat i * 8 + of_nat k :: u32) = i * 8 + k"
    using less by (simp only:) (simp add: word_nat TOTAL_PAGES_eq del: of_nat_add of_nat_mult)
qed

lemma byte_full: "bitmap_ok bm \<Longrightarrow> i < TOTAL_PAGES div 8 \<Longrightarrow>
    bm ! i = 0xFF \<longleftrightarrow> (\<forall>k<8. \<not> page_free bm (i * 8 + k))"
  by (auto simp: u8_all_bits page_free_def TOTAL_PAGES_eq)

definition alloc_result :: "bitmap \<Rightarrow> nat \<Rightarrow> u32 \<times> bitmap" where
  "alloc_result bm p = (of_nat p * PAGE_SIZE, mark_used bm p)"

lemma scan_bits:
  assumes "bitmap_ok bm" and "i < TOTAL_PAGES div 8"
  shows "for_until (\<lambda>k bm. do {
                   fr \<leftarrow> pmm_is_free (of_nat i * 8 + of_nat k) bm;
                   if fr then do {
                     bm' \<leftarrow> pmm_set_used (of_nat i * 8 + of_nat k) bm;
                     Some (Inl ((of_nat i * 8 + of_nat k) * PAGE_SIZE, bm')) }
                   else Some (Inr bm) }) [0..<8] bm =
         Some (case find (\<lambda>k. page_free bm (i * 8 + k)) [0..<8] of
                 Some k \<Rightarrow> Inl (alloc_result bm (i * 8 + k)) | None \<Rightarrow> Inr bm)"
  using assms
  by (intro for_until_find)
     (auto simp: pmm_is_free_eq pmm_set_used_eq alloc_result_def page_number)

definition first_in_byte :: "bitmap \<Rightarrow> nat \<Rightarrow> nat" where
  "first_in_byte bm i = i * 8 + the (find (\<lambda>k. page_free bm (i * 8 + k)) [0..<8])"

text \<open>Skipping full bytes is sound: the two nested scans find the least free page.\<close>

definition first_free :: "bitmap \<Rightarrow> nat option" where
  "first_free bm = find (page_free bm) [0..<TOTAL_PAGES]"

lemma first_free_Some:
  "first_free bm = Some p \<longleftrightarrow> p \<in> free_set bm \<and> (\<forall>q \<in> free_set bm. p \<le> q)"
  by (auto simp: first_free_def find_upt_Some free_set_def page_free_def) (metis not_le)+

lemma first_free_None: "first_free bm = None \<longleftrightarrow> free_set bm = {}"
  by (auto simp: first_free_def find_upt_None free_set_def page_free_def)

lemma find_bytes:
  "map_option (first_in_byte bm)
     (find (\<lambda>i. \<exists>k<8. page_free bm (i * 8 + k)) [0..<TOTAL_PAGES div 8]) = first_free bm"
  (is "map_option _ ?find = _")
proof (cases ?find)
  case None
  have "\<not> page_free bm p" for p
  proof
    assume p: "page_free bm p"
    then have "p div 8 < TOTAL_PAGES div 8" by (auto simp: page_free_def TOTAL_PAGES_eq)
    moreover have "page_free bm (p div 8 * 8 + p mod 8)" using p by simp
    moreover have "p mod 8 < 8" by simp
    ultimately show False using None unfolding find_upt_None by blast
  qed
  then have "first_free bm = None" by (auto simp: first_free_None free_set_def)
  with None show ?thesis by (simp only: option.map)
next
  case (Some i)
  then have i: "i < TOTAL_PAGES div 8" "\<exists>k<8. page_free bm (i * 8 + k)"
    "\<And>j k. j < i \<Longrightarrow> k < 8 \<Longrightarrow> \<not> page_free bm (j * 8 + k)"
    by (auto simp: find_upt_Some)
  obtain k where k: "find (\<lambda>k. page_free bm (i * 8 + k)) [0..<8] = Some k"
    using i(2) by (cases "find (\<lambda>k. page_free bm (i * 8 + k)) [0..<8]") (auto simp: find_upt_None)
  then have k': "k < 8" "page_free bm (i * 8 + k)" "\<And>j. j < k \<Longrightarrow> \<not> page_free bm (i * 8 + j)"
    by (auto simp: find_upt_Some)
  have "i * 8 + k \<le> q" if q: "page_free bm q" for q
  proof (rule ccontr)
    assume "\<not> i * 8 + k \<le> q"
    then have "q div 8 < i \<or> q div 8 = i \<and> q mod 8 < k"
      using k'(1) by (intro below_byte) simp_all
    then show False using i(3) [of "q div 8" "q mod 8"] k'(3) [of "q mod 8"] q by auto
  qed
  then have "first_free bm = Some (i * 8 + k)"
    using k'(2) by (auto simp: first_free_Some free_set_def)
  with Some k show ?thesis by (simp add: first_in_byte_def)
qed

lemma pmm_alloc_eq:
  assumes "bitmap_ok bm"
  shows "pmm_alloc bm = Some (case first_free bm of
           Some p \<Rightarrow> (of_nat p * PAGE_SIZE, mark_used bm p) | None \<Rightarrow> (0, bm))"
proof -
  let ?body = "\<lambda>i bm. do {
            b \<leftarrow> arr_get bm i;
            if b = 0xFF then Some (Inr bm)
            else for_until (\<lambda>k bm. do {
                   fr \<leftarrow> pmm_is_free (of_nat i * 8 + of_nat k) bm;
                   if fr then do {
                     bm' \<leftarrow> pmm_set_used (of_nat i * 8 + of_nat k) bm;
                     Some (Inl ((of_nat i * 8 + of_nat k) * PAGE_SIZE, bm')) }
                   else Some (Inr bm) }) [0..<8] bm }"
  have body: "?body i bm = Some (if \<exists>k<8. page_free bm (i * 8 + k)
          then Inl (alloc_result bm (first_in_byte bm i)) else Inr bm)"
    if "i \<in> set [0..<TOTAL_PAGES div 8]" for i
  proof (cases "\<exists>k<8. page_free bm (i * 8 + k)")
    case True
    have i: "i < TOTAL_PAGES div 8" using that by simp
    obtain k where "find (\<lambda>k. page_free bm (i * 8 + k)) [0..<8] = Some k"
      using True by (cases "find (\<lambda>k. page_free bm (i * 8 + k)) [0..<8]") (auto simp: find_upt_None)
    moreover have "bm ! i \<noteq> 0xFF" using byte_full [OF assms i] True by auto
    moreover have "arr_get bm i = Some (bm ! i)" using i assms by (simp add: bitmap_ok_def)
    ultimately show ?thesis using True scan_bits [OF assms i] by (simp add: first_in_byte_def)
  next
    case False
    have i: "i < TOTAL_PAGES div 8" using that by simp
    then have "bm ! i = 0xFF" using byte_full [OF assms i] False by auto
    moreover have "arr_get bm i = Some (bm ! i)" using i assms by (simp add: bitmap_ok_def)
    ultimately show ?thesis using False by simp
  qed
  have "for_until ?body [0..<TOTAL_PAGES div 8] bm =
     Some (case find (\<lambda>i. \<exists>k<8. page_free bm (i * 8 + k)) [0..<TOTAL_PAGES div 8] of
             Some i \<Rightarrow> Inl (alloc_result bm (first_in_byte bm i)) | None \<Rightarrow> Inr bm)"
    using body by (intro for_until_find)
  then show ?thesis
    using find_bytes [of bm, symmetric]
    by (auto simp: pmm_alloc_def alloc_result_def split: option.splits)
qed


section \<open>The counting loop and the initialisation\<close>

lemma count_upto_Suc:
  "{p \<in> free_set bm. p < Suc n} =
     (if page_free bm n then insert n {p \<in> free_set bm. p < n} else {p \<in> free_set bm. p < n})"
  by (auto simp: free_set_def less_Suc_eq)

lemma count_byte:
  assumes "bitmap_ok bm" and "i < TOTAL_PAGES div 8"
  shows "for_each (\<lambda>k count. do {
        fr \<leftarrow> pmm_is_free (of_nat i * 8 + of_nat k) bm;
        Some (if fr then count + 1 else count) }) [0..<8]
      (of_nat (card {p \<in> free_set bm. p < i * 8})) =
    Some (of_nat (card {p \<in> free_set bm. p < Suc i * 8}) :: u32)"
proof -
  let ?g = "\<lambda>k. of_nat (card {p \<in> free_set bm. p < i * 8 + k}) :: u32"
  have "for_each (\<lambda>k count. do {
        fr \<leftarrow> pmm_is_free (of_nat i * 8 + of_nat k) bm;
        Some (if fr then count + 1 else count) }) [0..<8] (?g 0) = Some (?g 8)"
    using assms
    by (intro for_each_upt)
       (auto simp: pmm_is_free_eq page_number count_upto_Suc add.commute [of 1])
  then show ?thesis by (simp add: add.commute [of 8])
qed

lemma pmm_free_pages_eq:
  assumes "bitmap_ok bm"
  shows "pmm_free_pages bm = Some (of_nat (card (free_set bm)))"
proof -
  let ?g = "\<lambda>i. of_nat (card {p \<in> free_set bm. p < i * 8}) :: u32"
  have "{p \<in> free_set bm. p < TOTAL_PAGES div 8 * 8} = free_set bm"
    using free_set_bound [of bm] by (auto simp: TOTAL_PAGES_eq)
  moreover have "for_each (\<lambda>i count. for_each (\<lambda>k count. do {
        fr \<leftarrow> pmm_is_free (of_nat i * 8 + of_nat k) bm;
        Some (if fr then count + 1 else count) }) [0..<8] count)
     [0..<TOTAL_PAGES div 8] (?g 0) = Some (?g (TOTAL_PAGES div 8))"
    by (rule for_each_upt) (rule count_byte [OF assms])
  ultimately show ?thesis by (simp add: pmm_free_pages_def)
qed

text \<open>A loop that marks the pages below \<open>n\<close>; past the end of the bitmap it is out of bounds.\<close>

lemma mark_loop:
  assumes "bitmap_ok bm" and "n \<le> TOTAL_PAGES"
  shows "\<exists>bm'. for_each (\<lambda>i bm. pmm_set_used (of_nat i) bm) [0..<n] bm = Some bm' \<and>
      bitmap_ok bm' \<and> free_set bm' = free_set bm - {..<n}"
proof (rule for_each_upt_inv [where I = "\<lambda>i b. bitmap_ok b \<and> free_set b = free_set bm - {..<i}"])
  show "bitmap_ok bm \<and> free_set bm = free_set bm - {..<0}" using assms by simp
  fix i s
  assume i: "i < n" and s: "bitmap_ok s \<and> free_set s = free_set bm - {..<i}"
  have "unat (of_nat i :: u32) = i" using i assms(2) by (simp add: word_nat TOTAL_PAGES_eq)
  then have "pmm_set_used (of_nat i) s = Some (mark_used s i)"
    using i s assms(2) by (simp add: pmm_set_used_eq)
  moreover have "free_set (mark_used s i) = free_set bm - {..<Suc i}"
    using i s assms(2) by (auto simp: lessThan_Suc)
  ultimately show "\<exists>t. pmm_set_used (of_nat i) s = Some t \<and> bitmap_ok t \<and>
      free_set t = free_set bm - {..<Suc i}"
    using s by simp
qed

lemma clear_loop:
  assumes "bitmap_ok bm"
  shows "\<exists>bm'. for_each (\<lambda>i bm. arr_set bm i 0) [0..<TOTAL_PAGES div 8] bm = Some bm' \<and>
      bitmap_ok bm' \<and> free_set bm' = {..<TOTAL_PAGES}"
proof -
  have "\<exists>bm'. for_each (\<lambda>i bm. arr_set bm i 0) [0..<TOTAL_PAGES div 8] bm = Some bm' \<and>
      (bitmap_ok bm' \<and> (\<forall>j < TOTAL_PAGES div 8. bm' ! j = 0))"
    by (rule for_each_upt_inv [where I = "\<lambda>i b. bitmap_ok b \<and> (\<forall>j<i. b ! j = 0)"])
       (use assms in \<open>auto simp: bitmap_ok_def less_Suc_eq nth_list_update\<close>)
  then show ?thesis by (fastforce simp: free_set_def page_free_def TOTAL_PAGES_eq)
qed

definition kernel_pages :: "u32 \<Rightarrow> nat" where
  "kernel_pages kernel_end_addr = unat (kernel_end_addr div PAGE_SIZE + 1)"

lemma kernel_pages_eq: "kernel_pages a = unat a div 4096 + 1"
proof -
  have "unat a div 4096 + 1 < 2 ^ 32"
    using unsigned_less [of a, where 'a = nat] by (simp add: less_mult_imp_div_less)
  then show ?thesis
    by (simp add: kernel_pages_def PAGE_SIZE_def unat_word_ariths unat_div)
qed

lemma pmm_init_eq:
  assumes "bitmap_ok bm" and "kernel_pages kend \<le> TOTAL_PAGES"
  shows "\<exists>bm'. pmm_init kend bm = Some bm' \<and> bitmap_ok bm' \<and>
     free_set bm' = {max 256 (kernel_pages kend) ..< TOTAL_PAGES}"
proof -
  obtain b0 where b0: "for_each (\<lambda>i bm. arr_set bm i 0) [0..<TOTAL_PAGES div 8] bm = Some b0"
    "bitmap_ok b0" "free_set b0 = {..<TOTAL_PAGES}"
    using clear_loop [OF assms(1)] by auto
  obtain b1 where b1: "for_each (\<lambda>i bm. pmm_set_used (of_nat i) bm) [0..<256] b0 = Some b1"
    "bitmap_ok b1" "free_set b1 = {..<TOTAL_PAGES} - {..<256}"
    using mark_loop [OF b0(2), of 256] b0(3) by (auto simp: TOTAL_PAGES_eq)
  obtain b2 where b2:
    "for_each (\<lambda>i bm. pmm_set_used (of_nat i) bm) [0..<kernel_pages kend] b1 = Some b2"
    "bitmap_ok b2" "free_set b2 = {..<TOTAL_PAGES} - {..<256} - {..<kernel_pages kend}"
    using mark_loop [OF b1(2) assms(2)] b1(3) by auto
  have "pmm_init kend bm = Some b2"
    using b0(1) b1(1) b2(1) by (simp add: pmm_init_def kernel_pages_def Let_def)
  moreover have "free_set b2 = {max 256 (kernel_pages kend) ..< TOTAL_PAGES}"
    unfolding b2(3) by (rule set_eqI) (simp add: not_less conj_ac)
  ultimately show ?thesis using b2(2) by blast
qed

section \<open>The allocator as an interface\<close>

text \<open>
  What the heap and the scheduler rely on when they call \<open>pmm_alloc\<close>: \<open>avail\<close> is the set of page
  numbers that can still be handed out.
\<close>

fun take_pages :: "('m \<Rightarrow> (u32 \<times> 'm) option) \<Rightarrow> nat \<Rightarrow> 'm \<Rightarrow> (u32 list \<times> 'm) option" where
  "take_pages alloc 0 m = Some ([], m)"
| "take_pages alloc (Suc n) m = do {
     (a, m') \<leftarrow> alloc m;
     (as, m'') \<leftarrow> take_pages alloc n m';
     Some (a # as, m'') }"

locale page_allocator =
  fixes alloc :: "'m \<Rightarrow> (u32 \<times> 'm) option"
    and release :: "u32 \<Rightarrow> 'm \<Rightarrow> 'm option"
    and avail :: "'m \<Rightarrow> nat set"
    and ok :: "'m \<Rightarrow> bool"
  assumes avail_range: "ok m \<Longrightarrow> avail m \<subseteq> {1..<TOTAL_PAGES}"
    and alloc_page: "ok m \<Longrightarrow> avail m \<noteq> {} \<Longrightarrow>
      \<exists>p m'. alloc m = Some (of_nat p * PAGE_SIZE, m') \<and> p \<in> avail m \<and> avail m' = avail m - {p} \<and> ok m'"
    and alloc_exhausted: "ok m \<Longrightarrow> avail m = {} \<Longrightarrow> alloc m = Some (0, m)"
    and release_page: "ok m \<Longrightarrow> p \<in> {1..<TOTAL_PAGES} \<Longrightarrow>
      \<exists>m'. release (of_nat p * PAGE_SIZE) m = Some m' \<and> avail m' = insert p (avail m) \<and> ok m'"
begin

lemma avail_finite: "ok m \<Longrightarrow> finite (avail m)"
  using avail_range finite_subset by blast

lemma page_addr: "ok m \<Longrightarrow> p \<in> avail m \<Longrightarrow> unat (of_nat p * PAGE_SIZE) = p * 4096"
proof -
  assume "ok m" "p \<in> avail m"
  then have "p < 131072" using avail_range by (fastforce simp: TOTAL_PAGES_eq)
  then have "unat (of_nat (p * 4096) :: u32) = p * 4096" by (intro unat_of_nat_small) simp
  then show ?thesis by (simp add: PAGE_SIZE_def)
qed

text \<open>One call, in the form the callers use: a fresh page-aligned address, or 0 and no change.\<close>

lemma alloc_cases:
  assumes "ok m"
  obtains (page) p m' where "alloc m = Some (of_nat p * PAGE_SIZE, m')" "p \<in> avail m"
      "avail m' = avail m - {p}" "ok m'" "unat (of_nat p * PAGE_SIZE) = p * 4096" "0 < p"
      "p < TOTAL_PAGES" "card (avail m) = Suc (card (avail m'))"
    | (full) "alloc m = Some (0, m)" "avail m = {}"
proof (cases "avail m = {}")
  case True
  then show ?thesis using full alloc_exhausted [OF assms] by blast
next
  case False
  then obtain p m' where p: "alloc m = Some (of_nat p * PAGE_SIZE, m')" "p \<in> avail m"
    "avail m' = avail m - {p}" "ok m'" using alloc_page [OF assms] by blast
  have "card (avail m) = Suc (card (avail m'))"
    using card_Suc_Diff1 [OF avail_finite [OF assms] p(2)] p(3) by simp
  moreover have "0 < p" "p < TOTAL_PAGES" using avail_range [OF assms] p(2) by auto
  ultimately show ?thesis using page p page_addr [OF assms p(2)] by blast
qed

lemma alloc_total: "ok m \<Longrightarrow> \<exists>a m'. alloc m = Some (a, m') \<and> ok m' \<and> avail m' \<subseteq> avail m"
  using alloc_cases by (metis Diff_subset order_refl)

text \<open>
  A run of calls hands out pairwise distinct pages, none of them page 0, as long as there are
  enough of them.
\<close>

lemma take_pages_distinct:
  assumes "ok m" and "n \<le> card (avail m)"
  shows "\<exists>ps m'. take_pages alloc n m = Some (map (\<lambda>p. of_nat p * PAGE_SIZE) ps, m') \<and>
     length ps = n \<and> distinct ps \<and> set ps \<subseteq> avail m \<and> avail m' = avail m - set ps \<and> ok m'"
  using assms
proof (induction n arbitrary: m)
  case 0
  then show ?case by simp
next
  case (Suc n)
  from Suc.prems(1) show ?case
  proof (cases rule: alloc_cases)
    case (page p m')
    have "n \<le> card (avail m')" using page(8) Suc.prems(2) by linarith
    from Suc.IH [OF page(4) this] obtain ps m'' where
      "take_pages alloc n m' = Some (map (\<lambda>p. of_nat p * PAGE_SIZE) ps, m'')" "length ps = n"
      "distinct ps" "set ps \<subseteq> avail m'" "avail m'' = avail m' - set ps" "ok m''" by blast
    with page show ?thesis by (intro exI [of _ "p # ps"] exI [of _ m'']) auto
  next
    case full
    with Suc.prems show ?thesis by simp
  qed
qed

end

definition pmm_ok :: "bitmap \<Rightarrow> bool" where
  "pmm_ok bm \<longleftrightarrow> bitmap_ok bm \<and> 0 \<notin> free_set bm"

text \<open>The bitmap allocator satisfies the interface once page 0 is marked used, as \<open>pmm_init\<close> does.\<close>

lemma page_of_addr: "p < TOTAL_PAGES \<Longrightarrow> unat ((of_nat p * PAGE_SIZE) div PAGE_SIZE) = p"
proof -
  assume p: "p < TOTAL_PAGES"
  then have "unat (of_nat (p * 4096) :: u32) = p * 4096"
    by (intro unat_of_nat_small) (simp add: TOTAL_PAGES_eq)
  then have "unat (of_nat p * PAGE_SIZE) = p * 4096" by (simp add: PAGE_SIZE_def)
  then show ?thesis by (simp add: PAGE_SIZE_def unat_div)
qed

lemma pmm_free_eq:
  "bitmap_ok bm \<Longrightarrow> p < TOTAL_PAGES \<Longrightarrow> pmm_free (of_nat p * PAGE_SIZE) bm = Some (mark_free bm p)"
  by (simp add: pmm_free_def pmm_set_free_eq page_of_addr)

interpretation pm: page_allocator pmm_alloc pmm_free free_set pmm_ok
proof (unfold_locales, goal_cases)
  case (1 m)
  then show ?case using free_set_bound [of m] by (auto simp: pmm_ok_def Suc_le_eq intro: gr0I)
next
  case (2 m)
  then obtain p where p: "first_free m = Some p" by (cases "first_free m") (auto simp: first_free_None)
  then have "p \<in> free_set m" by (simp add: first_free_Some)
  moreover have "p < TOTAL_PAGES" using calculation free_set_bound by blast
  ultimately show ?case using 2 p by (auto simp: pmm_ok_def pmm_alloc_eq)
next
  case (3 m)
  then show ?case by (simp add: pmm_ok_def pmm_alloc_eq first_free_None [THEN iffD2])
next
  case (4 m p)
  then show ?case by (auto simp: pmm_ok_def pmm_free_eq)
qed

section \<open>Properties\<close>

lemma first_free_Min: "first_free bm = (if free_set bm = {} then None else Some (Min (free_set bm)))"
  by (auto simp: first_free_None first_free_Some)

text \<open>
  C11: \<open>pmm_alloc\<close>, which skips full bytes and scans the bits of the first byte that is not full,
  returns the address of the lowest free page and marks exactly that page used; when every page
  is used it returns 0 and changes nothing.
\<close>

theorem pmm_alloc_lowest:
  assumes "bitmap_ok bm"
  shows "\<exists>bm'. pmm_alloc bm = Some (if free_set bm = {} then 0
              else of_nat (Min (free_set bm)) * PAGE_SIZE, bm') \<and> bitmap_ok bm' \<and>
           free_set bm' = free_set bm - (if free_set bm = {} then {} else {Min (free_set bm)})"
proof (cases "free_set bm = {}")
  case True
  then show ?thesis using assms by (simp add: pmm_alloc_eq first_free_Min)
next
  case False
  then have "Min (free_set bm) < TOTAL_PAGES"
    using free_set_bound Min_in [of "free_set bm"] by (auto simp del: Min_in)
  then show ?thesis using assms False by (simp add: pmm_alloc_eq first_free_Min)
qed

lemma free_set_all: "free_set (replicate 16384 0) = {..<TOTAL_PAGES}"
  by (auto simp: free_set_def page_free_def TOTAL_PAGES_eq less_mult_imp_div_less)

lemma pmm_alloc_lowest_witness:
  "\<exists>bm'. pmm_alloc (replicate 16384 0) = Some (0, bm') \<and> free_set bm' = {..<TOTAL_PAGES} - {0}"
proof -
  have ok: "bitmap_ok (replicate 16384 0)" by (simp add: bitmap_ok_def TOTAL_PAGES_eq)
  have "Min {..<TOTAL_PAGES} = 0" by (intro Min_eqI) (auto simp: TOTAL_PAGES_eq)
  moreover have "{..<TOTAL_PAGES} \<noteq> {}" by (auto simp: TOTAL_PAGES_eq lessThan_empty_iff)
  ultimately show ?thesis
    using pmm_alloc_lowest [OF ok] by (auto simp: free_set_all)
qed

text \<open>
  C29: \<open>pmm_init\<close> leaves free exactly the pages from the end of the first megabyte (256 pages) and
  of the kernel image (\<open>kernel_end_addr / 4096 + 1\<close> pages) up to the 512MB limit, whatever the
  bitmap held before.  A kernel end that lies past the last page makes it write outside the
  bitmap.
\<close>

theorem pmm_init_free_pages:
  assumes "bitmap_ok bm"
  shows "if unat kernel_end_addr div 4096 + 1 \<le> TOTAL_PAGES
         then \<exists>bm'. pmm_init kernel_end_addr bm = Some bm' \<and> pmm_ok bm' \<and>
                free_set bm' = {max 256 (unat kernel_end_addr div 4096 + 1) ..< TOTAL_PAGES}
         else pmm_init kernel_end_addr bm = None"
proof (cases "kernel_pages kernel_end_addr \<le> TOTAL_PAGES")
  case True
  then show ?thesis
    using pmm_init_eq [OF assms True] by (auto simp: kernel_pages_eq pmm_ok_def)
next
  case False
  obtain b0 where b0: "for_each (\<lambda>i bm. arr_set bm i 0) [0..<TOTAL_PAGES div 8] bm = Some b0"
    "bitmap_ok b0" using clear_loop [OF assms] by auto
  obtain b1 where b1: "for_each (\<lambda>i bm. pmm_set_used (of_nat i) bm) [0..<256] b0 = Some b1"
    "bitmap_ok b1" using mark_loop [OF b0(2), of 256] by (auto simp: TOTAL_PAGES_eq)
  obtain b2 where b2: "for_each (\<lambda>i bm. pmm_set_used (of_nat i) bm) [0..<TOTAL_PAGES] b1 = Some b2"
    "bitmap_ok b2" using mark_loop [OF b1(2), of TOTAL_PAGES] by auto
  have "[0..<kernel_pages kernel_end_addr] =
      [0..<TOTAL_PAGES] @ TOTAL_PAGES # [Suc TOTAL_PAGES..<kernel_pages kernel_end_addr]"
    using False upt_add_eq_append [of 0 TOTAL_PAGES "kernel_pages kernel_end_addr - TOTAL_PAGES"]
    by (simp add: upt_conv_Cons not_le)
  moreover have "pmm_set_used (of_nat TOTAL_PAGES) b2 = None"
    using b2(2) by (simp add: pmm_set_used_eq TOTAL_PAGES_eq)
  ultimately have
    "for_each (\<lambda>i bm. pmm_set_used (of_nat i) bm) [0..<kernel_pages kernel_end_addr] b1 = None"
    using b2(1) by (simp add: for_each_append)
  then have "pmm_init kernel_end_addr bm = None"
    using b0(1) b1(1) by (simp add: pmm_init_def kernel_pages_def Let_def)
  then show ?thesis using False by (simp add: kernel_pages_eq)
qed

lemma pmm_init_free_pages_witness:
  "\<exists>bm'. pmm_init 0x120000 (replicate 16384 0xFF) = Some bm' \<and> pmm_ok bm' \<and>
     free_set bm' = {289 ..< TOTAL_PAGES}"
  using pmm_init_free_pages [of "replicate 16384 0xFF" "0x120000"]
  by (simp add: bitmap_ok_def TOTAL_PAGES_eq)

text \<open>
  After \<open>pmm_init\<close> any run of \<open>pmm_alloc\<close> calls no longer than the number of free pages returns
  page-aligned addresses of pairwise distinct pages that were free, never page 0 (so the
  result 0 unambiguously means "out of memory"), and takes exactly those pages.
\<close>

theorem pmm_alloc_run_distinct:
  assumes "pmm_ok bm" and "n \<le> card (free_set bm)"
  shows "\<exists>ps bm'. take_pages pmm_alloc n bm = Some (map (\<lambda>p. of_nat p * PAGE_SIZE) ps, bm') \<and>
     length ps = n \<and> distinct ps \<and> set ps \<subseteq> free_set bm \<and> 0 \<notin> set ps \<and>
     free_set bm' = free_set bm - set ps \<and> pmm_ok bm'"
  using pm.take_pages_distinct [OF assms] assms(1) by (fastforce simp: pmm_ok_def)

lemma pmm_alloc_run_distinct_witness:
  "\<exists>bm ps bm'. free_set bm = {256 ..< TOTAL_PAGES} \<and>
     take_pages pmm_alloc 1000 bm = Some (map (\<lambda>p. of_nat p * PAGE_SIZE) ps, bm') \<and>
     length ps = 1000 \<and> distinct ps"
proof -
  obtain bm where bm: "pmm_ok bm" "free_set bm = {256 ..< TOTAL_PAGES}"
    using pmm_init_eq [of "replicate 16384 0" 0]
    by (auto simp: bitmap_ok_def TOTAL_PAGES_eq kernel_pages_eq pmm_ok_def)
  then have "1000 \<le> card (free_set bm)" by (simp add: TOTAL_PAGES_eq)
  from pmm_alloc_run_distinct [OF bm(1) this] bm(2) show ?thesis by blast
qed

text \<open>
  \<open>pmm_free_pages\<close> returns exactly the number of free pages (no wrap-around); freeing the page
  of an address below 512MB makes that page free and touches no other (freeing a free page
  changes nothing: a double free is not detected), and freeing an address beyond 512MB writes
  outside the bitmap.
\<close>

theorem pmm_free_and_count:
  assumes "bitmap_ok bm"
  shows "map_option unat (pmm_free_pages bm) = Some (card (free_set bm)) \<and>
     (if unat addr div 4096 < TOTAL_PAGES
      then \<exists>bm'. pmm_free addr bm = Some bm' \<and> bitmap_ok bm' \<and>
             free_set bm' = insert (unat addr div 4096) (free_set bm)
      else pmm_free addr bm = None)"
proof
  have "unat (of_nat (card (free_set bm)) :: u32) = card (free_set bm)"
    using card_free_set [of bm] by (intro unat_of_nat_small) (simp add: TOTAL_PAGES_eq)
  then show "map_option unat (pmm_free_pages bm) = Some (card (free_set bm))"
    by (simp add: pmm_free_pages_eq [OF assms])
  have "unat (addr div PAGE_SIZE) = unat addr div 4096"
    by (simp add: PAGE_SIZE_def unat_div)
  then show "if unat addr div 4096 < TOTAL_PAGES
         then \<exists>bm'. pmm_free addr bm = Some bm' \<and> bitmap_ok bm' \<and>
                free_set bm' = insert (unat addr div 4096) (free_set bm)
         else pmm_free addr bm = None"
    using assms by (simp add: pmm_free_def pmm_set_free_eq)
qed

lemma pmm_free_and_count_witness:
  "map_option unat (pmm_free_pages (replicate 16384 0)) = Some 131072 \<and>
   (\<exists>bm'. pmm_free 0x200000 (replicate 16384 0xFF) = Some bm' \<and> bitmap_ok bm' \<and>
      free_set bm' = {512}) \<and>
   pmm_free 0x20000000 (replicate 16384 0) = None"
proof -
  have ok: "bitmap_ok (replicate 16384 v)" for v by (simp add: bitmap_ok_def TOTAL_PAGES_eq)
  have "bit (0xFF :: u8) (p mod 8)" for p using u8_all_bits [of "0xFF"] by simp
  then have none: "free_set (replicate 16384 0xFF) = {}"
    by (auto simp: free_set_def page_free_def TOTAL_PAGES_eq less_mult_imp_div_less)
  show ?thesis
    using pmm_free_and_count [of "replicate 16384 0xFF" "0x200000", OF ok]
      pmm_free_and_count [of "replicate 16384 0" "0x20000000", OF ok]
    by (simp add: free_set_all none TOTAL_PAGES_eq)
qed

end
