(* ===== verification/Klib.thy ===== *)
theory Klib
  imports Prelude
begin

text \<open>
  The kernel's string and memory routines, \<^verbatim>\<open>kernel/klib.c\<close>.  A \<open>char *\<close> argument is the byte
  array it points into (from the pointed-to element on), so that reading or writing past its end
  is \<open>None\<close>.  Source and destination arrays are distinct objects, as in every call of the kernel.
\<close>

section \<open>Number formatting\<close>

text \<open>\<open>while (tmp > 0) { buf[i++] = '0' + (tmp % 10); tmp /= 10; }\<close>\<close>

function uts_digits :: "u32 \<Rightarrow> nat \<Rightarrow> u8 list \<Rightarrow> (nat \<times> u8 list) option" where
  "uts_digits tmp i buf =
     (if tmp > 0 then do {
        buf' \<leftarrow> arr_set buf i (ucast (48 + tmp mod 10));
        uts_digits (tmp div 10) (Suc i) buf' }
      else Some (i, buf))"
  by pat_completeness auto
termination
proof (relation "measure (\<lambda>(tmp, i, buf). unat tmp)", goal_cases)
  case (2 tmp i buf x)
  then have "0 < unat tmp" by (simp add: unat_gt_0 word_gt_0)
  then have "unat tmp div 10 < unat tmp" by simp
  then show ?case by (simp add: unat_div)
qed simp

text \<open>The swap loop \<open>while (start < end)\<close>; \<open>end\<close> never goes below 0 because \<open>start\<close> is at least 0.\<close>

function uts_reverse :: "nat \<Rightarrow> nat \<Rightarrow> u8 list \<Rightarrow> u8 list option" where
  "uts_reverse start end buf =
     (if start < end then do {
        sw \<leftarrow> arr_get buf start;
        x \<leftarrow> arr_get buf end;
        buf \<leftarrow> arr_set buf start x;
        buf \<leftarrow> arr_set buf end sw;
        uts_reverse (start + 1) (end - 1) buf }
      else Some buf)"
  by pat_completeness auto
termination
  by (relation "measure (\<lambda>(start, end, buf). end - start)") auto

definition uint_to_str :: "u32 \<Rightarrow> u8 list \<Rightarrow> u8 list option" where
  "uint_to_str n buf =
     (if n = 0 then do { buf \<leftarrow> arr_set buf 0 48; arr_set buf 1 0 }
      else do {
        (i, buf) \<leftarrow> uts_digits n 0 buf;
        buf \<leftarrow> uts_reverse 0 (i - 1) buf;
        arr_set buf i 0 })"

text \<open>
  \<open>-n\<close> is taken on the 32-bit value: for \<open>INT_MIN\<close> it wraps to itself, as the compiled code does.
\<close>

definition int_to_str :: "u32 \<Rightarrow> u8 list \<Rightarrow> u8 list option" where
  "int_to_str n buf =
     (if n <s 0 then do {
        buf \<leftarrow> arr_set buf 0 45;
        rest \<leftarrow> uint_to_str (- n) (tl buf);
        Some (hd buf # rest) }
      else uint_to_str n buf)"

section \<open>Strings\<close>

function kstrcmp_at :: "u8 list \<Rightarrow> u8 list \<Rightarrow> nat \<Rightarrow> u32 option" where
  "kstrcmp_at a b i =
     (if i < length b then
        (if b ! i \<noteq> 0 then do {
           x \<leftarrow> arr_get a i;
           if x \<noteq> b ! i then Some 1 else kstrcmp_at a b (Suc i) }
         else do { x \<leftarrow> arr_get a i; Some (if x = 32 \<or> x = 0 then 0 else 1) })
      else None)"
  by pat_completeness auto
termination
  by (relation "measure (\<lambda>(a, b, i). length b - i)") auto

definition kstrcmp :: "u8 list \<Rightarrow> u8 list \<Rightarrow> u32 option" where
  "kstrcmp a b = kstrcmp_at a b 0"

function kstrlen_at :: "u8 list \<Rightarrow> nat \<Rightarrow> nat option" where
  "kstrlen_at s i =
     (if i < length s then (if s ! i \<noteq> 0 then kstrlen_at s (Suc i) else Some i) else None)"
  by pat_completeness auto
termination
  by (relation "measure (\<lambda>(s, i). length s - i)") auto

definition kstrlen :: "u8 list \<Rightarrow> nat option" where
  "kstrlen s = kstrlen_at s 0"

text \<open>
  The copy loop of \<open>kstrcpy\<close> (with \<open>i = j\<close>) and of \<open>kstrcat\<close> (with \<open>i\<close> starting at the end of
  \<open>dst\<close>): \<open>while (src[j]) dst[i++] = src[j++]; dst[i] = 0\<close>.
\<close>

function kcopy_at :: "u8 list \<Rightarrow> nat \<Rightarrow> u8 list \<Rightarrow> nat \<Rightarrow> u8 list option" where
  "kcopy_at dst i src j =
     (if j < length src then
        (if src ! j \<noteq> 0 then do {
           dst \<leftarrow> arr_set dst i (src ! j);
           kcopy_at dst (Suc i) src (Suc j) }
         else arr_set dst i 0)
      else None)"
  by pat_completeness auto
termination
  by (relation "measure (\<lambda>(dst, i, src, j). length src - j)") auto

definition kstrcpy :: "u8 list \<Rightarrow> u8 list \<Rightarrow> u8 list option" where
  "kstrcpy dst src = kcopy_at dst 0 src 0"

definition kstrcat :: "u8 list \<Rightarrow> u8 list \<Rightarrow> u8 list option" where
  "kstrcat dst src = do { i \<leftarrow> kstrlen dst; kcopy_at dst i src 0 }"

section \<open>Memory\<close>

definition kmemset :: "u8 list \<Rightarrow> u8 \<Rightarrow> u32 \<Rightarrow> u8 list option" where
  "kmemset dst val n = for_each (\<lambda>i d. arr_set d i val) [0..<unat n] dst"

definition kmemcpy :: "u8 list \<Rightarrow> u8 list \<Rightarrow> u32 \<Rightarrow> u8 list option" where
  "kmemcpy dst src n = for_each (\<lambda>i d. do { x \<leftarrow> arr_get src i; arr_set d i x }) [0..<unat n] dst"

section \<open>The busy wait\<close>

text \<open>
  \<open>reads k\<close> is the value the \<open>k\<close>-th call of \<open>pit_get_ticks\<close> returns: the counter is advanced by the
  timer interrupt, not by this code.  The result is the number of the read that ends the loop.
\<close>

partial_function (option) wait_loop :: "(nat \<Rightarrow> u32) \<Rightarrow> u32 \<Rightarrow> u32 \<Rightarrow> nat \<Rightarrow> nat option" where
  "wait_loop reads start tick_n k =
     (if reads k - start < tick_n then wait_loop reads start tick_n (Suc k) else Some k)"

definition wait :: "(nat \<Rightarrow> u32) \<Rightarrow> u32 \<Rightarrow> nat option" where
  "wait reads ticks = (let tick_n = ticks * 100 in wait_loop reads (reads 0) tick_n 1)"

declare uts_digits.simps [simp del] uts_reverse.simps [simp del] kstrcmp_at.simps [simp del]
  kstrlen_at.simps [simp del] kcopy_at.simps [simp del]

section \<open>Decimal notation: the reference for the number formatting\<close>

fun decimal :: "nat \<Rightarrow> u8 list" where
  "decimal n = (if n < 10 then [of_nat (48 + n)] else decimal (n div 10) @ [of_nat (48 + n mod 10)])"

declare decimal.simps [simp del]

definition dec_value :: "u8 list \<Rightarrow> nat" where
  "dec_value ds = foldl (\<lambda>v d. v * 10 + (unat d - 48)) 0 ds"

lemma digit_byte: "d < 10 \<Longrightarrow> unat (of_nat (48 + d) :: u8) = 48 + d"
  by (intro unat_of_nat_small) simp

lemma dec_value_decimal: "dec_value (decimal n) = n"
proof (induction n rule: decimal.induct)
  case (1 n)
  show ?case
  proof (cases "n < 10")
    case True
    then show ?thesis by (subst decimal.simps) (simp add: dec_value_def digit_byte del: of_nat_add)
  next
    case False
    have "n mod 10 < 10" by simp
    then show ?thesis using 1 False
      by (subst decimal.simps) (simp add: dec_value_def digit_byte del: of_nat_add)
  qed
qed

lemma decimal_digits: "d \<in> set (decimal n) \<Longrightarrow> 48 \<le> unat d \<and> unat d \<le> 57"
proof (induction n rule: decimal.induct)
  case (1 n)
  have small: "n mod 10 < 10" by simp
  show ?case
  proof (cases "n < 10")
    case True
    with 1(2) show ?thesis by (subst (asm) decimal.simps) (simp add: digit_byte del: of_nat_add)
  next
    case False
    with 1(2) have "d \<in> set (decimal (n div 10)) \<or> d = of_nat (48 + n mod 10)"
      by (subst (asm) decimal.simps) (auto simp del: of_nat_add)
    then show ?thesis using 1(1) False digit_byte [OF small] small by auto
  qed
qed

lemma length_decimal: "n < 10 ^ Suc k \<Longrightarrow> length (decimal n) \<le> Suc k"
proof (induction k arbitrary: n)
  case 0
  then show ?case by (subst decimal.simps) simp
next
  case (Suc k)
  show ?case
  proof (cases "n < 10")
    case True
    then show ?thesis by (subst decimal.simps) simp
  next
    case False
    have "n div 10 < 10 ^ Suc k" using Suc.prems by (simp add: less_mult_imp_div_less)
    then show ?thesis using Suc.IH [of "n div 10"] False by (subst decimal.simps) simp
  qed
qed

lemma length_decimal_u32: "length (decimal (unat (n :: u32))) \<le> 10"
  using length_decimal [of "unat n" 9] unsigned_less [of n, where 'a = nat] by simp

lemma decimal_nonempty [simp]: "decimal n \<noteq> []"
  by (subst decimal.simps) simp

lemma decimal_no_leading_zero: "0 < n \<Longrightarrow> hd (decimal n) \<noteq> 48"
proof (induction n rule: decimal.induct)
  case (1 n)
  show ?case
  proof (cases "n < 10")
    case True
    then have "unat (of_nat (48 + n) :: u8) = 48 + n" by (rule digit_byte)
    then have "(of_nat (48 + n) :: u8) \<noteq> 48" using 1(2) by auto
    then show ?thesis using True by (subst decimal.simps) (simp del: of_nat_add)
  next
    case False
    then show ?thesis using 1 by (subst decimal.simps) simp
  qed
qed

section \<open>The formatting loops\<close>

lemma list_update_append_Cons: "(pre @ x # post)[length pre := y] = pre @ y # post"
  by (induction pre) auto

lemma uts_digits_eq:
  "length gap = length (decimal (unat tmp)) \<Longrightarrow> 0 < tmp \<Longrightarrow>
   uts_digits tmp (length pre) (pre @ gap @ post) =
     Some (length pre + length gap, pre @ rev (decimal (unat tmp)) @ post)"
proof (induction "unat tmp" arbitrary: tmp pre gap rule: less_induct)
  case less
  obtain g gap' where gap: "gap = g # gap'"
    using less.prems(1) by (cases gap) auto
  let ?d = "ucast (48 + tmp mod 10) :: u8"
  have d: "?d = of_nat (48 + unat tmp mod 10)"
  proof -
    have "unat (48 + tmp mod 10) = 48 + unat tmp mod 10"
      by (subst unat_plus_simple [THEN iffD1]) (simp_all add: unat_mod word_le_nat_alt unat_word_ariths)
    then show ?thesis by (simp only: ucast_u8_of_nat)
  qed
  show ?case
  proof (cases "unat tmp < 10")
    case True
    have "tmp div 10 = 0" using True by (simp add: word_unat_eq_iff unat_div)
    moreover have "gap' = []" using less.prems(1) gap True by (subst (asm) decimal.simps) simp
    ultimately show ?thesis using True less.prems(2) gap d
      by (subst decimal.simps) (simp add: uts_digits.simps list_update_append_Cons del: of_nat_add)
  next
    case False
    have div: "unat (tmp div 10) = unat tmp div 10" by (simp add: unat_div)
    have pos: "0 < tmp div 10" using False by (simp add: word_less_nat_alt div)
    have "length gap' = length (decimal (unat (tmp div 10)))"
      using less.prems(1) gap False by (subst (asm) decimal.simps) (simp add: div)
    from less.hyps [OF _ this pos, of "pre @ [?d]"] False gap d
    show ?thesis
      by (subst decimal.simps)
         (simp add: uts_digits.simps [of tmp] less.prems(2) list_update_append_Cons div
            del: of_nat_add)
  qed
qed

lemma uts_reverse_eq:
  "uts_reverse (length pre) (length pre + length xs - 1) (pre @ xs @ post) = Some (pre @ rev xs @ post)"
proof (induction "length xs" arbitrary: pre xs post rule: less_induct)
  case less
  show ?case
  proof (cases "length xs \<le> 1")
    case True
    then have "rev xs = xs" by (cases xs) auto
    with True show ?thesis by (auto simp: uts_reverse.simps)
  next
    case False
    then obtain x ys y where xs: "xs = x # ys @ [y]"
      by (metis One_nat_def append_butlast_last_id le_SucI length_Cons list.size(3)
          nat_le_linear neq_Nil_conv not_less_eq_eq)
    have last: "(pre @ x # ys @ y # post) ! (length pre + length ys + 1) = y"
      using nth_append_length [of "pre @ x # ys" y post] by simp
    have swap: "(pre @ y # ys @ y # post)[length pre + length ys + 1 := x] = pre @ y # ys @ x # post"
      using list_update_append_Cons [of "pre @ y # ys" y post x] by simp
    from less.hyps [of ys "pre @ [y]" "x # post"]
    show ?thesis using last swap
      by (simp add: xs uts_reverse.simps [of "length pre"] list_update_append_Cons)
  qed
qed

lemma uint_to_str_eq:
  assumes "length (decimal (unat n)) < length buf"
  shows "uint_to_str n buf = Some (decimal (unat n) @ 0 # drop (Suc (length (decimal (unat n)))) buf)"
proof (cases "n = 0")
  case True
  then have "decimal (unat n) = [48]" by (subst decimal.simps) simp
  then obtain x y zs where "buf = x # y # zs" using assms by (cases buf; cases "tl buf") auto
  then show ?thesis using True \<open>decimal (unat n) = [48]\<close> by (simp add: uint_to_str_def)
next
  case False
  let ?l = "length (decimal (unat n))"
  define gap where "gap = take ?l buf"
  obtain z post where split: "buf = gap @ z # post" "length gap = ?l"
    using assms id_take_nth_drop [of ?l buf] by (auto simp: gap_def)
  have digits: "uts_digits n 0 buf = Some (?l, rev (decimal (unat n)) @ z # post)"
    using uts_digits_eq [of gap n "[]" "z # post"] False split by (simp add: word_gt_0)
  have "uts_reverse 0 (?l - 1) (rev (decimal (unat n)) @ z # post) = Some (decimal (unat n) @ z # post)"
    using uts_reverse_eq [of "[]" "rev (decimal (unat n))" "z # post"] by simp
  then show ?thesis using False digits split
    by (simp add: uint_to_str_def list_update_append_Cons)
qed

section \<open>Strings in arrays\<close>

text \<open>\<open>holds arr s\<close>: the array starts with the bytes of the C string \<open>s\<close> and its terminating NUL.\<close>

definition holds :: "u8 list \<Rightarrow> u8 list \<Rightarrow> bool" where
  "holds arr s \<longleftrightarrow> 0 \<notin> set s \<and> (\<exists>rest. arr = s @ 0 # rest)"

lemma holds_at: "holds arr s \<Longrightarrow> i \<le> length s \<Longrightarrow>
    i < length arr \<and> arr ! i = (if i < length s then s ! i else 0)"
  by (auto simp: holds_def nth_append)

lemma holds_nonzero: "holds arr s \<Longrightarrow> i < length s \<Longrightarrow> s ! i \<noteq> 0"
  by (metis holds_def nth_mem)

lemma kstrlen_holds: "holds arr s \<Longrightarrow> kstrlen arr = Some (length s)"
proof -
  assume h: "holds arr s"
  have "i \<le> length s \<Longrightarrow> kstrlen_at arr i = Some (length s)" for i
  proof (induction "length s - i" arbitrary: i)
    case 0
    then show ?case using holds_at [OF h, of i] by (subst kstrlen_at.simps) auto
  next
    case (Suc n)
    then show ?case using holds_at [OF h, of i] holds_nonzero [OF h, of i]
      by (subst kstrlen_at.simps) auto
  qed
  from this [of 0] show ?thesis by (simp add: kstrlen_def)
qed

lemma kstrcmp_at_eq:
  assumes a: "holds a s" and b: "holds b t" and "i \<le> length t" and "i \<le> length s"
    and "take i s = take i t"
  shows "kstrcmp_at a b i =
     Some (if \<exists>r. s = t @ r \<and> (r = [] \<or> hd r = 32) then 0 else 1)"
  using assms(3-5)
proof (induction "length t - i" arbitrary: i)
  case 0
  then have i: "i = length t" and t: "take i s = t" by auto
  have get: "arr_get a i = Some (if i < length s then s ! i else 0)"
    using holds_at [OF a 0(3)] by simp
  show ?case
  proof (cases "i < length s")
    case True
    then have "s = t @ s ! i # drop (Suc i) s" using t id_take_nth_drop by metis
    moreover have "s ! i \<noteq> 0" using holds_nonzero [OF a True] .
    ultimately have "(\<exists>r. s = t @ r \<and> (r = [] \<or> hd r = 32)) \<longleftrightarrow> s ! i = 32"
      using True i by (metis append_Nil2 append_eq_conv_conj hd_drop_conv_nth drop_all less_irrefl not_le)
    then show ?thesis using True get holds_at [OF b, of i] i \<open>s ! i \<noteq> 0\<close>
      by (subst kstrcmp_at.simps) auto
  next
    case False
    then have "s = t" using t 0(3) by auto
    then show ?thesis using False get holds_at [OF b, of i] i by (subst kstrcmp_at.simps) auto
  qed
next
  case (Suc n)
  then have it: "i < length t" by auto
  have get: "arr_get a i = Some (if i < length s then s ! i else 0)"
    using holds_at [OF a Suc(4)] by simp
  have b': "b ! i = t ! i" "i < length b" "t ! i \<noteq> 0"
    using holds_at [OF b, of i] holds_nonzero [OF b it] it by auto
  show ?case
  proof (cases "i < length s \<and> s ! i = t ! i")
    case True
    then have "kstrcmp_at a b i = kstrcmp_at a b (Suc i)"
      using get b' by (subst kstrcmp_at.simps) simp
    moreover have "take (Suc i) s = take (Suc i) t"
      using True it Suc.prems(3) by (simp add: take_Suc_conv_app_nth)
    ultimately show ?thesis using True it Suc.hyps by (auto intro: Suc.hyps(1))
  next
    case False
    then have "kstrcmp_at a b i = Some 1"
      using get b' by (subst kstrcmp_at.simps) auto
    moreover have "\<not> (\<exists>r. s = t @ r)" using False it by (auto simp: nth_append)
    ultimately show ?thesis by auto
  qed
qed

lemma kcopy_at_eq:
  assumes "holds src s" and "i + (length s - j) < length dst" and "j \<le> length s"
  shows "kcopy_at dst i src j =
     Some (take i dst @ drop j s @ 0 # drop (Suc (i + (length s - j))) dst)"
  using assms(2,3)
proof (induction "length s - j" arbitrary: i j dst)
  case 0
  then show ?case using holds_at [OF assms(1), of j]
    by (subst kcopy_at.simps) (auto simp: upd_conv_take_nth_drop)
next
  case (Suc n)
  then have j: "j < length s" by auto
  from Suc have "n = length s - Suc j" by auto
  from Suc.hyps(1) [OF this, of "Suc i" "dst[i := s ! j]"] j Suc.prems
  have "kcopy_at (dst[i := s ! j]) (Suc i) src (Suc j) =
     Some (take (Suc i) (dst[i := s ! j]) @ drop (Suc j) s @
        0 # drop (Suc (Suc i + (length s - Suc j))) (dst[i := s ! j]))" by auto
  moreover have "take (Suc i) (dst[i := s ! j]) = take i dst @ [s ! j]"
    using Suc.prems by (simp add: take_Suc_conv_app_nth)
  moreover have "Suc i + (length s - Suc j) = i + (length s - j)" using j by simp
  ultimately show ?case using holds_at [OF assms(1), of j] holds_nonzero [OF assms(1) j] j Suc.prems
    by (subst kcopy_at.simps) (simp add: Cons_nth_drop_Suc)
qed

section \<open>Properties\<close>

text \<open>
  C30: \<open>uint_to_str\<close> writes the decimal notation of its argument and a NUL into any buffer with room
  for it (11 bytes always suffice), leaves the rest of the buffer alone, and the notation is
  right: it denotes the number, consists of digits and has no leading zero.
\<close>

theorem uint_to_str_decimal:
  assumes "11 \<le> length buf"
  shows "\<exists>ds. uint_to_str n buf = Some (ds @ 0 # drop (Suc (length ds)) buf) \<and>
     dec_value ds = unat n \<and> length ds \<le> 10 \<and> (\<forall>d \<in> set ds. 48 \<le> unat d \<and> unat d \<le> 57) \<and>
     (0 < n \<longrightarrow> hd ds \<noteq> 48)"
proof (intro exI conjI)
  show "uint_to_str n buf = Some (decimal (unat n) @ 0 # drop (Suc (length (decimal (unat n)))) buf)"
    using assms length_decimal_u32 [of n] by (intro uint_to_str_eq) simp
  show "\<forall>d \<in> set (decimal (unat n)). 48 \<le> unat d \<and> unat d \<le> 57" using decimal_digits by blast
  show "0 < n \<longrightarrow> hd (decimal (unat n)) \<noteq> 48"
    using decimal_no_leading_zero by (simp add: word_less_nat_alt)
qed (simp_all add: dec_value_decimal length_decimal_u32)

lemma uint_to_str_decimal_witness:
  "\<exists>ds. uint_to_str 4294967295 (replicate 16 7) = Some (ds @ 0 # drop (Suc (length ds)) (replicate 16 7)) \<and>
     dec_value ds = 4294967295"
  using uint_to_str_decimal [of "replicate 16 7" 4294967295] by auto

text \<open>
  \<open>int_to_str\<close> writes a minus sign exactly for the negative 32-bit values, followed by the
  decimal notation of the magnitude, \<open>INT_MIN\<close> included; 12 bytes always suffice.
\<close>

theorem int_to_str_signed:
  assumes "12 \<le> length buf"
  shows "int_to_str n buf =
     (let ds = (if n <s 0 then [45] else []) @ decimal (nat \<bar>sint n\<bar>)
      in Some (ds @ 0 # drop (Suc (length ds)) buf))"
proof (cases "n <s 0")
  case False
  then show ?thesis using assms length_decimal_u32 [of n] unat_abs_u32 [of n]
    by (simp add: int_to_str_def uint_to_str_eq Let_def)
next
  case True
  obtain x rest where buf: "buf = x # rest" using assms by (cases buf) auto
  show ?thesis using True assms buf length_decimal_u32 [of "- n"] unat_abs_u32 [of n]
    by (simp add: int_to_str_def uint_to_str_eq Let_def)
qed

lemma int_to_str_signed_witness:
  "\<exists>ds. int_to_str 0x80000000 (replicate 16 7) =
     Some (45 # ds @ 0 # drop (Suc (Suc (length ds))) (replicate 16 7)) \<and> dec_value ds = 2147483648"
proof -
  have "(0x80000000 :: u32) <s 0" by (simp add: word_sless_alt)
  then show ?thesis using int_to_str_signed [of "replicate 16 7" "0x80000000"]
    by (auto simp: dec_value_decimal)
qed

text \<open>
  \<open>kstrcmp a b\<close> is 0 exactly when \<open>a\<close> is \<open>b\<close>, or continues after \<open>b\<close> with a space: it compares a
  command line with a command word, not two strings for equality, and it never reads past the
  terminators.
\<close>

theorem kstrcmp_is_word_prefix:
  assumes "holds a s" and "holds b t"
  shows "kstrcmp a b = Some (if \<exists>r. s = t @ r \<and> (r = [] \<or> hd r = 32) then 0 else 1)"
  using kstrcmp_at_eq [OF assms] by (simp add: kstrcmp_def)

lemma kstrcmp_is_word_prefix_witness:
  "kstrcmp [104, 105, 32, 120, 0] [104, 105, 0] = Some 0 \<and> kstrcmp [104, 0] [104, 105, 0] = Some 1"
proof -
  have "holds [104, 105, 32, 120, 0] [104, 105, 32, 120]" "holds [104, 105, 0] [104, 105]"
    "holds [104, 0] [104]" by (simp_all add: holds_def)
  then show ?thesis
    using kstrcmp_is_word_prefix [of "[104, 105, 32, 120, 0]" "[104, 105, 32, 120]" "[104, 105, 0]" "[104, 105]"]
      kstrcmp_is_word_prefix [of "[104, 0]" "[104]" "[104, 105, 0]" "[104, 105]"]
    by simp
qed

text \<open>
  \<open>kstrcpy\<close> and \<open>kstrcat\<close> put the copied string, respectively the concatenation, into any
  destination with room for it and the NUL, and change no byte after the NUL.
\<close>

theorem kstrcpy_kstrcat_holds:
  assumes "holds src s" and "holds dst d" and "length d + length s < length dst"
  shows "kstrcpy dst src = Some (s @ 0 # drop (Suc (length s)) dst) \<and>
     kstrcat dst src = Some (d @ s @ 0 # drop (Suc (length d + length s)) dst)"
proof -
  have "take (length d) dst = d" using assms(2) by (auto simp: holds_def)
  then show ?thesis
    using assms kcopy_at_eq [OF assms(1), of 0 0 dst] kcopy_at_eq [OF assms(1), of "length d" 0 dst]
    by (simp add: kstrcpy_def kstrcat_def kstrlen_holds)
qed

lemma kstrcpy_kstrcat_holds_witness:
  "kstrcpy [97, 0, 1, 2, 3] [98, 99, 0] = Some [98, 99, 0, 2, 3] \<and>
   kstrcat [97, 0, 1, 2, 3] [98, 99, 0] = Some [97, 98, 99, 0, 3]"
  using kstrcpy_kstrcat_holds [of "[98, 99, 0]" "[98, 99]" "[97, 0, 1, 2, 3]" "[97]"]
  by (simp add: holds_def)

lemma kmemset_eq:
  assumes "unat n \<le> length dst"
  shows "kmemset dst v n = Some (replicate (unat n) v @ drop (unat n) dst)"
proof -
  let ?g = "\<lambda>i. replicate i v @ drop i dst"
  have "for_each (\<lambda>i d. arr_set d i v) [0..<unat n] (?g 0) = Some (?g (unat n))"
  proof (rule for_each_upt)
    fix i assume i: "i < unat n"
    then have "drop i dst = dst ! i # drop (Suc i) dst" using assms by (simp add: Cons_nth_drop_Suc)
    moreover have "replicate i v @ v # drop (Suc i) dst = replicate (Suc i) v @ drop (Suc i) dst"
      by (simp add: replicate_app_Cons_same)
    ultimately show "arr_set (?g i) i v = Some (?g (Suc i))"
      using i assms list_update_append_Cons [of "replicate i v" "dst ! i" "drop (Suc i) dst" v] by simp
  qed
  then show ?thesis by (simp add: kmemset_def)
qed

lemma kmemcpy_eq:
  assumes "unat n \<le> length dst" and "unat n \<le> length src"
  shows "kmemcpy dst src n = Some (take (unat n) src @ drop (unat n) dst)"
proof -
  let ?g = "\<lambda>i. take i src @ drop i dst"
  have "for_each (\<lambda>i d. do { x \<leftarrow> arr_get src i; arr_set d i x }) [0..<unat n] (?g 0) = Some (?g (unat n))"
  proof (rule for_each_upt)
    fix i assume i: "i < unat n"
    then have "drop i dst = dst ! i # drop (Suc i) dst" using assms by (simp add: Cons_nth_drop_Suc)
    then show "do { x \<leftarrow> arr_get src i; arr_set (?g i) i x } = Some (?g (Suc i))"
      using i assms list_update_append_Cons [of "take i src" "dst ! i" "drop (Suc i) dst" "src ! i"]
      by (simp add: take_Suc_conv_app_nth)
  qed
  then show ?thesis by (simp add: kmemcpy_def)
qed

text \<open>
  The busy wait ends at the first read that shows at least \<open>100 * ticks\<close> counter steps (modulo the
  width of the counter) since the read before the loop.
\<close>

lemma wait_loop_ends:
  assumes "k \<le> m" and "\<And>j. k \<le> j \<Longrightarrow> j < m \<Longrightarrow> reads j - start < t" and "\<not> reads m - start < t"
  shows "wait_loop reads start t k = Some m"
  using assms
proof (induction "m - k" arbitrary: k)
  case 0
  then show ?case by (simp add: wait_loop.simps)
next
  case (Suc n)
  then have "reads k - start < t" by (intro Suc.prems(2)) auto
  moreover have "wait_loop reads start t (Suc k) = Some m" using Suc by (intro Suc.hyps(1)) auto
  ultimately show ?case by (simp add: wait_loop.simps)
qed

text \<open>
  On a counter that advances one tick per read, \<open>wait n\<close> returns after exactly \<open>100 * n\<close> further
  ticks (with no wrap-around for \<open>n \<le> 42949672\<close>), whatever the counter shows at the start: its
  argument counts seconds of the 100Hz timer, not ticks.
\<close>

theorem wait_returns:
  assumes "unat n \<le> 42949672"
  shows "wait (\<lambda>k. t0 + of_nat k) n = Some (max 1 (100 * unat n))"
proof -
  have small: "unat (of_nat j :: u32) = j" if "j \<le> 100 * unat n" for j
    using that assms by (intro unat_of_nat_small) simp
  have prod: "unat (100 * n) = 100 * unat n"
    using assms by (simp add: unat_word_ariths)
  have "wait_loop (\<lambda>k. t0 + of_nat k) t0 (100 * n) 1 = Some (max 1 (100 * unat n))"
    by (rule wait_loop_ends) (auto simp: word_less_nat_alt prod small max_def split: if_splits)
  then show ?thesis by (simp add: wait_def Let_def mult.commute)
qed

lemma wait_returns_witness: "wait (\<lambda>k. 4294967295 + of_nat k) 5 = Some 500"
  using wait_returns [of 5 4294967295] by simp

end
