(* ===== verification/Heap.thy ===== *)
theory Heap
  imports Pmm
begin

text \<open>
  The kernel heap, \<^verbatim>\<open>kernel/heap.c\<close>: a singly linked list of blocks, each a 16-byte header
  followed by its data area, threaded through pages obtained from \<open>pmm_alloc\<close>.  The model keeps
  the headers in a partial map from header addresses; data areas hold no state the heap reads.
  The header's \<open>prev\<close> field is never read or written by the code and is left out (its 4 bytes
  count in the header size).
\<close>

section \<open>State and operations\<close>

record block =
  b_size :: u32
  b_used :: u8
  b_next :: u32

type_synonym hmem = "u32 \<rightharpoonup> block"

record heap =
  heap_start :: u32
  hmem :: hmem

definition SIZEOF_BLOCK :: u32 where "SIZEOF_BLOCK = 16"

definition heap_init :: "heap \<Rightarrow> bitmap \<Rightarrow> (u8 \<times> heap \<times> bitmap) option" where
  "heap_init h bm = do {
     (a, bm) \<leftarrow> pmm_alloc bm;
     let h = h\<lparr>heap_start := a\<rparr>;
     if a = 0 then Some (1, h, bm)
     else Some (0, h\<lparr>hmem := (hmem h)(a \<mapsto>
            \<lparr>b_size = PAGE_SIZE - SIZEOF_BLOCK, b_used = 0, b_next = 0\<rparr>)\<rparr>, bm) }"

text \<open>The scan \<open>while (current)\<close>: the first free block that fits (0 if none) and the last block seen.\<close>

partial_function (option) heap_scan :: "hmem \<Rightarrow> u32 \<Rightarrow> u32 \<Rightarrow> u32 \<Rightarrow> (u32 \<times> u32) option" where
  "heap_scan m sz current lst =
     (if current = 0 then Some (0, lst)
      else do {
        b \<leftarrow> m current;
        if b_used b = 0 \<and> sz \<le> b_size b then Some (current, lst)
        else heap_scan m sz (b_next b) current })"

definition kmalloc_take :: "u32 \<Rightarrow> u32 \<Rightarrow> hmem \<Rightarrow> hmem option" where
  "kmalloc_take sz current m = do {
     b \<leftarrow> m current;
     let m = (if sz + SIZEOF_BLOCK + 4 < b_size b
              then let new_block = current + SIZEOF_BLOCK + sz
                   in m(new_block \<mapsto> \<lparr>b_size = b_size b - sz - SIZEOF_BLOCK, b_used = 0,
                                     b_next = b_next b\<rparr>,
                        current \<mapsto> b\<lparr>b_size := sz, b_next := new_block\<rparr>)
              else m);
     b \<leftarrow> m current;
     Some (m(current \<mapsto> b\<lparr>b_used := 1\<rparr>)) }"

definition kmalloc_extend :: "u32 \<Rightarrow> u32 \<Rightarrow> hmem \<Rightarrow> hmem option" where
  "kmalloc_extend new_block lst m = do {
     let m = m(new_block \<mapsto> \<lparr>b_size = PAGE_SIZE - SIZEOF_BLOCK, b_used = 0, b_next = 0\<rparr>);
     l \<leftarrow> m lst;
     Some (m(lst \<mapsto> l\<lparr>b_next := new_block\<rparr>)) }"

partial_function (option) kmalloc :: "u32 \<Rightarrow> heap \<Rightarrow> bitmap \<Rightarrow> (u32 \<times> heap \<times> bitmap) option" where
  "kmalloc sz h bm = do {
     (current, lst) \<leftarrow> heap_scan (hmem h) sz (heap_start h) (heap_start h);
     if current \<noteq> 0 then do {
       m \<leftarrow> kmalloc_take sz current (hmem h);
       Some (current + SIZEOF_BLOCK, h\<lparr>hmem := m\<rparr>, bm) }
     else do {
       (new_block, bm) \<leftarrow> pmm_alloc bm;
       if new_block = 0 then Some (0, h, bm)
       else do {
         m \<leftarrow> kmalloc_extend new_block lst (hmem h);
         kmalloc sz (h\<lparr>hmem := m\<rparr>) bm } } }"

definition kfree :: "u32 \<Rightarrow> heap \<Rightarrow> heap option" where
  "kfree ptr h =
     (if ptr = 0 then Some h
      else do {
        let blk = ptr - SIZEOF_BLOCK;
        b \<leftarrow> hmem h blk;
        let b = b\<lparr>b_used := 0\<rparr>;
        let m = (hmem h)(blk \<mapsto> b);
        if b_next b \<noteq> 0 then do {
          n \<leftarrow> m (b_next b);
          if b_used n = 0
          then Some (h\<lparr>hmem := m(blk \<mapsto> b\<lparr>b_size := b_size b + (SIZEOF_BLOCK + b_size n),
                                          b_next := b_next n\<rparr>)\<rparr>)
          else Some (h\<lparr>hmem := m\<rparr>) }
        else Some (h\<lparr>hmem := m\<rparr>) })"

section \<open>Abstraction: the list of blocks\<close>

text \<open>A block as \<open>(header address, size of the data area, used flag)\<close>.\<close>

type_synonym ablock = "u32 \<times> u32 \<times> u8"

primrec repr :: "hmem \<Rightarrow> u32 \<Rightarrow> ablock list \<Rightarrow> bool" where
  "repr m x [] \<longleftrightarrow> x = 0"
| "repr m x (ab # bs) \<longleftrightarrow> x = fst ab \<and> x \<noteq> 0 \<and>
     (\<exists>b. m x = Some b \<and> b_size b = fst (snd ab) \<and> b_used b = snd (snd ab) \<and> repr m (b_next b) bs)"

text \<open>The addresses a block occupies, header and data area.\<close>

definition extent :: "ablock \<Rightarrow> nat set" where
  "extent ab = {unat (fst ab) ..< unat (fst ab) + 16 + unat (fst (snd ab))}"

text \<open>The blocks lie in pages of \<open>own\<close> and do not overlap.\<close>

definition layout :: "ablock list \<Rightarrow> nat set \<Rightarrow> bool" where
  "layout bs own \<longleftrightarrow> (\<forall>ab \<in> set bs. \<forall>x \<in> extent ab. x div 4096 \<in> own) \<and>
     sorted_wrt (\<lambda>x y. extent x \<inter> extent y = {}) bs"

definition heap_inv :: "heap \<Rightarrow> bitmap \<Rightarrow> nat set \<Rightarrow> ablock list \<Rightarrow> bool" where
  "heap_inv h bm own bs \<longleftrightarrow> repr (hmem h) (heap_start h) bs \<and> bs \<noteq> [] \<and> layout bs own \<and>
     pmm_ok bm \<and> own \<subseteq> {1..<TOTAL_PAGES} \<and> own \<inter> free_set bm = {}"

text \<open>First fit on the abstract list: what \<open>kmalloc\<close> does when some block fits.\<close>

definition carve :: "u32 \<Rightarrow> ablock \<Rightarrow> ablock list" where
  "carve sz ab =
     (if sz + 20 < fst (snd ab)
      then [(fst ab, sz, 1), (fst ab + 16 + sz, fst (snd ab) - sz - 16, 0)]
      else [(fst ab, fst (snd ab), 1)])"

definition fits :: "u32 \<Rightarrow> ablock \<Rightarrow> bool" where
  "fits sz ab \<longleftrightarrow> snd (snd ab) = 0 \<and> sz \<le> fst (snd ab)"

section \<open>Lists in the store\<close>

lemma repr_mapped: "repr m x bs \<Longrightarrow> ab \<in> set bs \<Longrightarrow>
    fst ab \<noteq> 0 \<and> (\<exists>b. m (fst ab) = Some b \<and> b_size b = fst (snd ab) \<and> b_used b = snd (snd ab))"
  by (induction bs arbitrary: x) auto

lemma repr_update: "repr m x bs \<Longrightarrow> u \<notin> fst ` set bs \<Longrightarrow> repr (m(u \<mapsto> b)) x bs"
  by (induction bs arbitrary: x) auto

text \<open>A list split at one of its blocks: the part before it ends in that block's address.\<close>

primrec repr_seg :: "hmem \<Rightarrow> u32 \<Rightarrow> ablock list \<Rightarrow> u32 \<Rightarrow> bool" where
  "repr_seg m x [] y \<longleftrightarrow> x = y"
| "repr_seg m x (ab # bs) y \<longleftrightarrow> x = fst ab \<and> x \<noteq> 0 \<and>
     (\<exists>b. m x = Some b \<and> b_size b = fst (snd ab) \<and> b_used b = snd (snd ab) \<and> repr_seg m (b_next b) bs y)"

lemma repr_append: "repr m x (bs @ cs) \<longleftrightarrow> (\<exists>y. repr_seg m x bs y \<and> repr m y cs)"
  by (induction bs arbitrary: x) auto

lemma repr_seg_append: "repr_seg m x (bs @ cs) z \<longleftrightarrow> (\<exists>y. repr_seg m x bs y \<and> repr_seg m y cs z)"
  by (induction bs arbitrary: x) auto

lemma repr_seg_update: "repr_seg m x bs y \<Longrightarrow> u \<notin> fst ` set bs \<Longrightarrow> repr_seg (m(u \<mapsto> b)) x bs y"
  by (induction bs arbitrary: x) auto

lemma heap_scan_eq:
  "repr m x bs \<Longrightarrow> \<exists>l'. heap_scan m sz x l = Some (case find (fits sz) bs of Some ab \<Rightarrow> fst ab | None \<Rightarrow> 0, l')
     \<and> (find (fits sz) bs = None \<longrightarrow> l' = (if bs = [] then l else fst (last bs)))"
proof (induction bs arbitrary: x l)
  case Nil
  then show ?case by (simp add: heap_scan.simps)
next
  case (Cons ab bs)
  then obtain b where b: "x = fst ab" "x \<noteq> 0" "m x = Some b" "b_size b = fst (snd ab)"
    "b_used b = snd (snd ab)" "repr m (b_next b) bs" by auto
  show ?case
  proof (cases "fits sz ab")
    case True
    then show ?thesis using b by (subst heap_scan.simps) (auto simp: fits_def)
  next
    case False
    then have "heap_scan m sz x l = heap_scan m sz (b_next b) x"
      using b by (subst heap_scan.simps) (auto simp: fits_def)
    then show ?thesis using Cons.IH [OF b(6), of x] False b(1) by (auto split: if_splits)
  qed
qed

section \<open>Layout\<close>

lemma extent_nonempty: "unat (fst ab) \<in> extent ab"
  by (auto simp: extent_def)

lemma layout_bound:
  assumes "layout bs own" and "own \<subseteq> {1..<TOTAL_PAGES}" and "ab \<in> set bs"
  shows "4096 \<le> unat (fst ab)" and "unat (fst ab) + 16 + unat (fst (snd ab)) \<le> 2 ^ 29"
proof -
  have in_own: "x \<in> extent ab \<Longrightarrow> 1 \<le> x div 4096 \<and> x div 4096 < 131072" for x
    using assms by (fastforce simp: layout_def TOTAL_PAGES_eq)
  from in_own [OF extent_nonempty] show "4096 \<le> unat (fst ab)"
    by (metis div_less less_one not_le not_less_zero)
  let ?e = "unat (fst ab) + 16 + unat (fst (snd ab)) - 1"
  have "?e \<in> extent ab" by (auto simp: extent_def)
  from in_own [OF this] have "?e div 4096 < 131072" by simp
  then have "?e < 131072 * 4096" by (simp add: div_less_iff_less_mult)
  then show "unat (fst ab) + 16 + unat (fst (snd ab)) \<le> 2 ^ 29" by simp
qed

lemma layout_distinct:
  assumes "layout (xs @ ab # ys) own" and "x \<in> extent ab" and "cd \<in> set xs \<union> set ys"
  shows "x \<notin> extent cd"
  using assms by (auto simp: layout_def sorted_wrt_append)

lemma layout_addr:
  assumes "layout (xs @ ab # ys) own" and "unat u \<in> extent ab"
  shows "u \<notin> fst ` set xs" and "u \<notin> fst ` set ys"
  using layout_distinct [OF assms] extent_nonempty by blast+

lemma layout_replace:
  assumes "layout (xs @ ab # ys) own" and "\<forall>c \<in> set cs. extent c \<subseteq> extent ab"
    and "sorted_wrt (\<lambda>x y. extent x \<inter> extent y = {}) cs"
  shows "layout (xs @ cs @ ys) own"
proof -
  have "\<forall>d \<in> set (xs @ cs @ ys). \<forall>x \<in> extent d. x div 4096 \<in> own"
    using assms(1,2) by (auto simp: layout_def)
  moreover have apart: "extent c \<inter> extent d = {}" "extent d \<inter> extent c = {}"
    if "c \<in> set cs" "d \<in> set xs \<union> set ys" for c d
    using layout_distinct [OF assms(1) _ that(2)] assms(2) that(1) by blast+
  have "sorted_wrt (\<lambda>x y. extent x \<inter> extent y = {}) (xs @ cs @ ys)"
    using assms(1,3) apart by (simp add: layout_def sorted_wrt_append ball_Un)
  ultimately show ?thesis by (simp add: layout_def)
qed

text \<open>A block that fits is at most half a gigabyte, so the header arithmetic does not wrap.\<close>

lemma fit_arith:
  assumes "unat a + 16 + unat s \<le> 2 ^ 29" and "sz \<le> s"
  shows "sz + 20 < s \<longleftrightarrow> unat sz + 20 < unat (s :: u32)"
    and "unat (a + 16 + sz :: u32) = unat a + 16 + unat sz"
    and "unat sz + 20 < unat s \<Longrightarrow> unat (s - sz - 16) = unat s - unat sz - 16"
proof -
  have sz: "unat sz \<le> unat s" using assms(2) by (simp add: word_le_nat_alt)
  have "unat (sz + 20) = unat sz + 20"
    using assms(1) sz by (simp add: unat_word_ariths)
  then show "sz + 20 < s \<longleftrightarrow> unat sz + 20 < unat s" by (simp add: word_less_nat_alt)
  show "unat (a + 16 + sz) = unat a + 16 + unat sz"
    using assms(1) sz by (simp add: unat_word_ariths)
  assume gap: "unat sz + 20 < unat s"
  have 1: "unat (s - sz) = unat s - unat sz" using assms(2) by (rule unat_sub)
  have "(16 :: u32) \<le> s - sz" using gap by (simp add: word_le_nat_alt 1)
  then show "unat (s - sz - 16) = unat s - unat sz - 16" using 1 by (simp add: unat_sub)
qed

lemma carve_extent:
  assumes "unat (fst ab) + 16 + unat (fst (snd ab)) \<le> 2 ^ 29" and "fits sz ab"
  shows "\<forall>c \<in> set (carve sz ab). extent c \<subseteq> extent ab"
    and "sorted_wrt (\<lambda>x y. extent x \<inter> extent y = {}) (carve sz ab)"
  using assms fit_arith [OF assms(1), of sz]
  by (auto simp: carve_def extent_def fits_def)

lemma kmalloc_take_eq:
  assumes r: "repr m x (xs @ ab # ys)" and l: "layout (xs @ ab # ys) own"
    and own: "own \<subseteq> {1..<TOTAL_PAGES}" and f: "fits sz ab"
  shows "\<exists>m'. kmalloc_take sz (fst ab) m = Some m' \<and> repr m' x (xs @ carve sz ab @ ys)"
proof -
  obtain a s u where ab: "ab = (a, s, u)" by (cases ab)
  have bound: "unat a + 16 + unat s \<le> 2 ^ 29" "4096 \<le> unat a"
    using layout_bound [OF l own, of ab] ab by auto
  have sz: "sz \<le> s" "u = 0" using f ab by (auto simp: fits_def)
  obtain b where b: "m a = Some b" "b_size b = s" "repr_seg m x xs a" "repr m (b_next b) ys" "a \<noteq> 0"
    using r ab by (auto simp: repr_append)
  have a_out: "a \<notin> fst ` set xs" "a \<notin> fst ` set ys"
    using layout_addr [OF l, of a] ab by (auto simp: extent_def)
  show ?thesis
  proof (cases "sz + 20 < s")
    case False
    let ?m = "m(a \<mapsto> b\<lparr>b_used := 1\<rparr>)"
    have "kmalloc_take sz a m = Some ?m"
      using False b by (simp add: kmalloc_take_def SIZEOF_BLOCK_def add.commute)
    moreover have "repr ?m x (xs @ carve sz ab @ ys)"
      using False b a_out ab repr_seg_update [OF b(3)] repr_update [OF b(4)]
      by (auto simp: repr_append carve_def)
    ultimately show ?thesis using ab by auto
  next
    case True
    note ar = fit_arith [OF bound(1) sz(1)]
    let ?n = "a + 16 + sz"
    let ?m = "m(?n \<mapsto> \<lparr>b_size = s - sz - 16, b_used = 0, b_next = b_next b\<rparr>,
                a \<mapsto> b\<lparr>b_size := sz, b_next := ?n, b_used := 1\<rparr>)"
    have n1: "unat ?n \<in> extent ab" using True ar ab bound by (auto simp: extent_def)
    have "?n \<noteq> a" proof
      assume "?n = a"
      then have "unat ?n = unat a" by (rule arg_cong)
      with ar(2) show False by linarith
    qed
    moreover have "?n \<noteq> 0" proof
      assume "?n = 0"
      then have "unat ?n = unat (0 :: u32)" by (rule arg_cong)
      with ar(2) show False by simp
    qed
    ultimately have n: "unat ?n \<in> extent ab" "?n \<noteq> a" "?n \<noteq> 0" using n1 by auto
    have n_out: "?n \<notin> fst ` set xs" "?n \<notin> fst ` set ys"
      using layout_addr [OF l n(1)] by auto
    have "kmalloc_take sz a m = Some ?m"
      using True b n by (simp add: kmalloc_take_def SIZEOF_BLOCK_def Let_def fun_upd_twist add_ac)
    moreover have "repr ?m x (xs @ carve sz ab @ ys)"
      using True b n a_out n_out ab
        repr_seg_update [OF repr_seg_update [OF b(3) n_out(1)] a_out(1)]
        repr_update [OF repr_update [OF b(4) n_out(2)] a_out(2)]
      by (auto simp: repr_append carve_def)
    ultimately show ?thesis using ab by auto
  qed
qed

text \<open>A new page becomes the last block of the list.\<close>

lemma kmalloc_extend_eq:
  assumes r: "repr m x bs" and "bs \<noteq> []" and "u \<notin> fst ` set bs" and "u \<noteq> 0"
    and d: "distinct (map fst bs)"
  shows "\<exists>m'. kmalloc_extend u (fst (last bs)) m = Some m' \<and> repr m' x (bs @ [(u, 4080, 0)])"
proof -
  obtain xs ab where bs: "bs = xs @ [ab]" using assms(2) by (metis rev_exhaust)
  obtain a s v where ab: "ab = (a, s, v)" by (cases ab)
  obtain b where b: "m a = Some b" "b_size b = s" "b_used b = v" "repr_seg m x xs a" "b_next b = 0" "a \<noteq> 0"
    using r bs ab by (auto simp: repr_append)
  have out: "u \<notin> fst ` set xs" "u \<noteq> a" "a \<notin> fst ` set xs" using assms(3) d bs ab by auto
  let ?m = "m(u \<mapsto> \<lparr>b_size = 4080, b_used = 0, b_next = 0\<rparr>, a \<mapsto> b\<lparr>b_next := u\<rparr>)"
  have "kmalloc_extend u (fst (last bs)) m = Some ?m"
    using b out bs ab by (simp add: kmalloc_extend_def PAGE_SIZE_def SIZEOF_BLOCK_def)
  moreover have "repr ?m x (bs @ [(u, 4080, 0)])"
    using b out bs ab assms(4) repr_seg_update [OF repr_seg_update [OF b(4) out(1)] out(3)]
    by (auto simp: repr_append repr_seg_append)
  ultimately show ?thesis by blast
qed

lemma layout_addrs_distinct: "layout bs own \<Longrightarrow> distinct (map fst bs)"
proof (induction bs)
  case (Cons ab bs)
  then have "layout bs own" by (simp add: layout_def)
  moreover have "fst ab \<notin> fst ` set bs"
    using layout_addr(2) [of "[]" ab bs own "fst ab"] Cons.prems extent_nonempty by simp
  ultimately show ?case using Cons.IH by simp
qed simp

section \<open>\<open>kmalloc\<close>\<close>

text \<open>One round of the recursion: a block fits, or a page is appended, or memory is exhausted.\<close>

lemma kmalloc_fit:
  assumes "heap_inv h bm own bs" and "find (fits sz) bs = Some ab"
  shows "\<exists>m' xs ys. kmalloc sz h bm = Some (fst ab + 16, h\<lparr>hmem := m'\<rparr>, bm) \<and> bs = xs @ ab # ys \<and>
     fits sz ab \<and> heap_inv (h\<lparr>hmem := m'\<rparr>) bm own (xs @ carve sz ab @ ys)"
proof -
  from assms(2) obtain xs ys where bs: "bs = xs @ ab # ys" and f: "fits sz ab"
    by (auto simp: find_Some_iff) (metis append_take_drop_id Cons_nth_drop_Suc)
  have inv: "repr (hmem h) (heap_start h) (xs @ ab # ys)" "layout (xs @ ab # ys) own"
    "own \<subseteq> {1..<TOTAL_PAGES}" using assms(1) bs by (auto simp: heap_inv_def)
  obtain m' where m': "kmalloc_take sz (fst ab) (hmem h) = Some m'"
    "repr m' (heap_start h) (xs @ carve sz ab @ ys)"
    using kmalloc_take_eq [OF inv f] by auto
  obtain l' where "heap_scan (hmem h) sz (heap_start h) (heap_start h) = Some (fst ab, l')"
    using heap_scan_eq [OF inv(1), of sz "heap_start h"] assms(2) bs by auto
  moreover have "fst ab \<noteq> 0" using repr_mapped [OF inv(1)] by auto
  ultimately have "kmalloc sz h bm = Some (fst ab + 16, h\<lparr>hmem := m'\<rparr>, bm)"
    using m'(1) by (subst kmalloc.simps) (simp add: SIZEOF_BLOCK_def)
  moreover have "layout (xs @ carve sz ab @ ys) own"
    using carve_extent [OF _ f] layout_bound(2) [OF inv(2,3)] by (intro layout_replace [OF inv(2)]) auto
  moreover have "carve sz ab \<noteq> []" by (simp add: carve_def)
  ultimately have "heap_inv (h\<lparr>hmem := m'\<rparr>) bm own (xs @ carve sz ab @ ys)"
    using assms(1) m'(2) by (simp add: heap_inv_def)
  then show ?thesis using \<open>kmalloc sz h bm = _\<close> bs f by blast
qed

lemma kmalloc_page:
  assumes inv: "heap_inv h bm own bs" and none: "find (fits sz) bs = None"
    and page: "pmm_alloc bm = Some (of_nat p * PAGE_SIZE, bm')" "p \<in> free_set bm"
      "free_set bm' = free_set bm - {p}" "pmm_ok bm'" "unat (of_nat p * PAGE_SIZE) = p * 4096" "0 < p"
      "p < TOTAL_PAGES"
  shows "\<exists>m'. kmalloc sz h bm = kmalloc sz (h\<lparr>hmem := m'\<rparr>) bm' \<and>
     heap_inv (h\<lparr>hmem := m'\<rparr>) bm' (insert p own) (bs @ [(of_nat p * PAGE_SIZE, 4080, 0)])"
proof -
  let ?u = "of_nat p * PAGE_SIZE :: u32"
  have parts: "repr (hmem h) (heap_start h) bs" "bs \<noteq> []" "layout bs own" "own \<subseteq> {1..<TOTAL_PAGES}"
    "p \<notin> own" using inv page(2) by (auto simp: heap_inv_def)
  have u0: "?u \<noteq> 0" using page(5,6) by auto
  have ext: "x \<in> extent (?u, 4080, 0) \<Longrightarrow> x div 4096 = p" for x
    using page(5) by (auto simp: extent_def)
  have old: "cd \<in> set bs \<Longrightarrow> x \<in> extent cd \<Longrightarrow> x div 4096 \<in> own" for cd x
    using parts(3) by (auto simp: layout_def)
  have fresh: "?u \<notin> fst ` set bs"
  proof
    assume "?u \<in> fst ` set bs"
    then obtain cd where cd: "cd \<in> set bs" "fst cd = ?u" by auto
    have "unat (fst cd) div 4096 \<in> own" using old [OF cd(1) extent_nonempty] .
    then show False using parts(5) cd(2) page(5) by simp
  qed
  have lay: "layout (bs @ [(?u, 4080, 0)]) (insert p own)"
  proof -
    have "extent cd \<inter> extent (?u, 4080, 0) = {}" if "cd \<in> set bs" for cd
      using old [OF that] ext parts(5) by blast
    then show ?thesis using parts(3) ext by (auto simp: layout_def sorted_wrt_append)
  qed
  obtain m' where m': "kmalloc_extend ?u (fst (last bs)) (hmem h) = Some m'"
    "repr m' (heap_start h) (bs @ [(?u, 4080, 0)])"
    using kmalloc_extend_eq [OF parts(1,2) fresh u0 layout_addrs_distinct [OF parts(3)]] by auto
  have "heap_scan (hmem h) sz (heap_start h) (heap_start h) = Some (0, fst (last bs))"
    using heap_scan_eq [OF parts(1), of sz "heap_start h"] none parts(2) by auto
  then have "kmalloc sz h bm = kmalloc sz (h\<lparr>hmem := m'\<rparr>) bm'"
    using page(1) u0 m'(1) by (subst kmalloc.simps) simp
  moreover have "heap_inv (h\<lparr>hmem := m'\<rparr>) bm' (insert p own) (bs @ [(?u, 4080, 0)])"
    using inv page lay m'(2) by (auto simp: heap_inv_def)
  ultimately show ?thesis by blast
qed

lemma kmalloc_full:
  assumes "heap_inv h bm own bs" and "find (fits sz) bs = None" and "pmm_alloc bm = Some (0, bm)"
  shows "kmalloc sz h bm = Some (0, h, bm)"
proof -
  obtain l' where "heap_scan (hmem h) sz (heap_start h) (heap_start h) = Some (0, l')"
    using heap_scan_eq [of "hmem h" "heap_start h" bs sz "heap_start h"] assms(1,2)
    by (auto simp: heap_inv_def)
  then show ?thesis using assms(3) by (subst kmalloc.simps) simp
qed

text \<open>What a call promises: used blocks stay, new pages come from the free ones.\<close>

definition kmalloc_post where
  "kmalloc_post sz h bm own bs ptr h' bm' own' bs' \<longleftrightarrow>
     heap_inv h' bm' own' bs' \<and> own \<subseteq> own' \<and> own' - own \<subseteq> free_set bm \<and>
     free_set bm' = free_set bm - own' \<and>
     (\<forall>ab \<in> set bs. snd (snd ab) \<noteq> 0 \<longrightarrow> ab \<in> set bs') \<and>
     (if ptr = 0 then free_set bm' = {} \<and> find (fits sz) bs' = None
      else \<exists>a s'. ptr = a + 16 \<and> sz \<le> s' \<and> (a, s', 1) \<in> set bs' \<and>
             (\<forall>ab \<in> set bs. snd (snd ab) \<noteq> 0 \<longrightarrow> fst ab \<noteq> a))"

text \<open>A request that a block of the list fits is served from the first such block.\<close>

lemma kmalloc_fit_post:
  assumes "heap_inv h bm own bs" and "find (fits sz) bs = Some ab"
  shows "\<exists>ptr h' bm' own' bs'. kmalloc sz h bm = Some (ptr, h', bm') \<and>
     kmalloc_post sz h bm own bs ptr h' bm' own' bs'"
proof -
  from kmalloc_fit [OF assms] obtain m' xs ys where
    res: "kmalloc sz h bm = Some (fst ab + 16, h\<lparr>hmem := m'\<rparr>, bm)" "bs = xs @ ab # ys" "fits sz ab"
      "heap_inv (h\<lparr>hmem := m'\<rparr>) bm own (xs @ carve sz ab @ ys)" by blast
  have lay: "layout bs own" and own: "own \<subseteq> {1..<TOTAL_PAGES}"
    using assms(1) by (auto simp: heap_inv_def)
  have bound: "4096 \<le> unat (fst ab)" "unat (fst ab) + 16 \<le> 2 ^ 29"
    using layout_bound [OF lay own, of ab] res(2) by auto
  have ptr: "fst ab + 16 \<noteq> 0"
  proof -
    have "unat (fst ab + 16) = unat (fst ab) + 16" using bound by (simp add: unat_word_ariths)
    then show ?thesis by (metis add_is_0 unat_0 zero_neq_numeral)
  qed
  have inj: "inj_on fst (set bs)" using layout_addrs_distinct [OF lay] by (simp add: distinct_map)
  have others: "fst cd \<noteq> fst ab" if "cd \<in> set bs" "snd (snd cd) \<noteq> 0" for cd
    using inj_onD [OF inj _ that(1), of ab] that(2) res(2,3) by (auto simp: fits_def)
  have "\<exists>s'. sz \<le> s' \<and> (fst ab, s', 1) \<in> set (carve sz ab)"
    using res(3) by (auto simp: carve_def fits_def)
  then have "kmalloc_post sz h bm own bs (fst ab + 16) (h\<lparr>hmem := m'\<rparr>) bm own (xs @ carve sz ab @ ys)"
    unfolding kmalloc_post_def
    using res assms(1) ptr others by (auto simp: heap_inv_def fits_def)
  with res(1) show ?thesis by blast
qed

lemma kmalloc_spec:
  assumes "heap_inv h bm own bs"
  shows "\<exists>ptr h' bm' own' bs'. kmalloc sz h bm = Some (ptr, h', bm') \<and>
     kmalloc_post sz h bm own bs ptr h' bm' own' bs'"
  using assms
proof (induction "card (free_set bm)" arbitrary: h bm own bs rule: less_induct)
  case less
  have ok: "pmm_ok bm" using less.prems by (simp add: heap_inv_def)
  show ?case
  proof (cases "find (fits sz) bs")
    case (Some ab)
    then show ?thesis by (rule kmalloc_fit_post [OF less.prems])
  next
    case None
    from ok show ?thesis
    proof (cases rule: pm.alloc_cases)
      case (page p bm')
      from kmalloc_page [OF less.prems None page(1-7)] obtain m' where
        m': "kmalloc sz h bm = kmalloc sz (h\<lparr>hmem := m'\<rparr>) bm'"
          "heap_inv (h\<lparr>hmem := m'\<rparr>) bm' (insert p own) (bs @ [(of_nat p * PAGE_SIZE, 4080, 0)])" by blast
      have "card (free_set bm') < card (free_set bm)" using page(8) by linarith
      from less.hyps [OF this m'(2)] obtain ptr h'' bm'' own'' bs'' where
        r: "kmalloc sz (h\<lparr>hmem := m'\<rparr>) bm' = Some (ptr, h'', bm'')"
          "kmalloc_post sz (h\<lparr>hmem := m'\<rparr>) bm' (insert p own) (bs @ [(of_nat p * PAGE_SIZE, 4080, 0)])
             ptr h'' bm'' own'' bs''" by blast
      have "kmalloc_post sz h bm own bs ptr h'' bm'' own'' bs''"
        using r(2) page(2,3) unfolding kmalloc_post_def by (auto split: if_splits)
      with r(1) m'(1) show ?thesis by auto
    next
      case full
      have "kmalloc_post sz h bm own bs 0 h bm own bs"
        using less.prems None full(2) by (auto simp: kmalloc_post_def heap_inv_def)
      with kmalloc_full [OF less.prems None full(1)] show ?thesis by blast
    qed
  qed
qed


text \<open>A request no page can serve asks for page after page until none is left.\<close>

lemma kmalloc_oversize:
  assumes "heap_inv h bm own bs" and "find (fits sz) bs = None" and "4080 < unat sz"
  shows "\<exists>h' bm' bs'. kmalloc sz h bm = Some (0, h', bm') \<and> free_set bm' = {} \<and>
     heap_inv h' bm' (own \<union> free_set bm) bs'"
  using assms(1,2)
proof (induction "card (free_set bm)" arbitrary: h bm own bs rule: less_induct)
  case less
  have ok: "pmm_ok bm" using less.prems by (simp add: heap_inv_def)
  from ok show ?case
  proof (cases rule: pm.alloc_cases)
    case (page p bm')
    from kmalloc_page [OF less.prems page(1-7)] obtain m' where
      m': "kmalloc sz h bm = kmalloc sz (h\<lparr>hmem := m'\<rparr>) bm'"
        "heap_inv (h\<lparr>hmem := m'\<rparr>) bm' (insert p own) (bs @ [(of_nat p * PAGE_SIZE, 4080, 0)])" by blast
    have "\<not> fits sz (u, 4080, 0)" for u
      using assms(3) by (simp add: fits_def word_le_nat_alt)
    then have none: "find (fits sz) (bs @ [(of_nat p * PAGE_SIZE, 4080, 0)]) = None"
      using less.prems(2) by (auto simp: find_None_iff)
    have "card (free_set bm') < card (free_set bm)" using page(8) by linarith
    from less.hyps [OF this m'(2) none] obtain h'' bm'' bs'' where
      "kmalloc sz (h\<lparr>hmem := m'\<rparr>) bm' = Some (0, h'', bm'')" "free_set bm'' = {}"
      "heap_inv h'' bm'' (insert p own \<union> free_set bm') bs''" by blast
    moreover have "insert p own \<union> free_set bm' = own \<union> free_set bm" using page(2,3) by auto
    ultimately show ?thesis using m'(1) by auto
  next
    case full
    then show ?thesis using kmalloc_full [OF less.prems full(1)] less.prems(1) by auto
  qed
qed

section \<open>\<open>heap_init\<close> and \<open>kfree\<close>\<close>

lemma heap_init_eq:
  assumes "pmm_ok bm" and "free_set bm \<noteq> {}"
  shows "\<exists>p h' bm'. heap_init h bm = Some (0, h', bm') \<and> p \<in> free_set bm \<and>
     p = Min (free_set bm) \<and>
     free_set bm' = free_set bm - {p} \<and> heap_inv h' bm' {p} [(of_nat p * PAGE_SIZE, 4080, 0)]"
proof -
  from pmm_alloc_eq [of bm] first_free_Min [of bm] assms obtain bm' where
    a: "pmm_alloc bm = Some (of_nat (Min (free_set bm)) * PAGE_SIZE, bm')"
    by (auto simp: pmm_ok_def)
  from assms(1) show ?thesis
  proof (cases rule: pm.alloc_cases)
    case (page p bm'')
    let ?u = "of_nat p * PAGE_SIZE :: u32"
    have "Min (free_set bm) \<in> free_set bm" using assms(2) by simp
    then have q: "unat (of_nat (Min (free_set bm)) * PAGE_SIZE) = Min (free_set bm) * 4096"
      using pm.page_addr [OF assms(1)] by blast
    have same: "of_nat (Min (free_set bm)) * PAGE_SIZE = ?u" using a page(1) by simp
    have min: "p = Min (free_set bm)" using q page(5) unfolding same by simp
    have u0: "?u \<noteq> 0" using page(5,6) by auto
    let ?h = "h\<lparr>heap_start := ?u, hmem := (hmem h)(?u \<mapsto> \<lparr>b_size = 4080, b_used = 0, b_next = 0\<rparr>)\<rparr>"
    have "heap_init h bm = Some (0, ?h, bm'')"
      using page(1) u0 by (simp add: heap_init_def Let_def SIZEOF_BLOCK_def)
         (simp add: PAGE_SIZE_def)
    moreover have "x div 4096 = p" if "x \<in> extent (?u, 4080, 0)" for x
      using that page(5) by (auto simp: extent_def)
    then have "heap_inv ?h bm'' {p} [(?u, 4080, 0)]"
      using page u0 by (auto simp: heap_inv_def layout_def)
    ultimately show ?thesis using page min by blast
  next
    case full
    then show ?thesis using assms(2) by simp
  qed
qed

text \<open>What \<open>kfree\<close> makes of a block and its successors in the list.\<close>

fun coalesce :: "ablock \<Rightarrow> ablock list \<Rightarrow> ablock list" where
  "coalesce (a, s, u) [] = [(a, s, 0)]"
| "coalesce (a, s, u) ((a', s', u') # bs) =
     (if u' = 0 then (a, s + (16 + s'), 0) # bs else (a, s, 0) # (a', s', u') # bs)"

lemma kfree_eq:
  assumes r: "repr (hmem h) (heap_start h) (xs @ ab # ys)" and d: "distinct (map fst (xs @ ab # ys))"
    and ptr: "fst ab + 16 \<noteq> 0"
  shows "\<exists>m'. kfree (fst ab + 16) h = Some (h\<lparr>hmem := m'\<rparr>) \<and>
     repr m' (heap_start h) (xs @ coalesce ab ys)"
proof -
  obtain a s u where ab: "ab = (a, s, u)" by (cases ab)
  obtain b where b: "hmem h a = Some b" "b_size b = s" "repr_seg (hmem h) (heap_start h) xs a"
    "repr (hmem h) (b_next b) ys" "a \<noteq> 0" using r ab by (auto simp: repr_append)
  have out: "a \<notin> fst ` set xs" "a \<notin> fst ` set ys" using d ab by auto
  have blk: "a + 16 - SIZEOF_BLOCK = a" by (simp add: SIZEOF_BLOCK_def)
  show ?thesis
  proof (cases ys)
    case Nil
    let ?m = "(hmem h)(a \<mapsto> b\<lparr>b_used := 0\<rparr>)"
    have "kfree (a + 16) h = Some (h\<lparr>hmem := ?m\<rparr>)"
      using Nil b ab ptr by (simp add: kfree_def blk Let_def)
    moreover have "repr ?m (heap_start h) (xs @ coalesce ab ys)"
      using Nil b ab repr_seg_update [OF b(3) out(1)] by (auto simp: repr_append)
    ultimately show ?thesis using ab by auto
  next
    case (Cons cd zs)
    obtain a' s' u' where cd: "cd = (a', s', u')" by (cases cd)
    obtain n where n: "hmem h a' = Some n" "b_size n = s'" "b_used n = u'" "a' \<noteq> 0" "b_next b = a'"
      "repr (hmem h) (b_next n) zs" using b(4) Cons cd by auto
    have ne: "a' \<noteq> a" "a \<notin> fst ` set zs" using out(2) Cons cd by auto
    have upd: "repr_seg ((hmem h)(a \<mapsto> x)) (heap_start h) xs a" "repr ((hmem h)(a \<mapsto> x)) (b_next n) zs" for x
      using repr_seg_update [OF b(3) out(1)] repr_update [OF n(6) ne(2)] by auto
    let ?m = "(hmem h)(a \<mapsto> if u' = 0 then b\<lparr>b_used := 0, b_size := s + (16 + s'), b_next := b_next n\<rparr>
                            else b\<lparr>b_used := 0\<rparr>)"
    have "kfree (a + 16) h = Some (h\<lparr>hmem := ?m\<rparr>)"
      using b n ne ab ptr by (auto simp: kfree_def blk Let_def) (simp add: SIZEOF_BLOCK_def)
    moreover have "repr ?m (heap_start h) (xs @ coalesce ab ys)"
      using Cons cd b n ne ab upd by (auto simp: repr_append)
    ultimately show ?thesis using ab by auto
  qed
qed

lemma heap_ptr:
  assumes "heap_inv h bm own bs" and "ab \<in> set bs"
  shows "unat (fst ab + 16) = unat (fst ab) + 16" and "fst ab + 16 \<noteq> 0"
proof -
  have "unat (fst ab) + 16 \<le> 2 ^ 29"
    using layout_bound(2) [of bs own ab] assms by (auto simp: heap_inv_def)
  then show u: "unat (fst ab + 16) = unat (fst ab) + 16" by (simp add: unat_word_ariths)
  show "fst ab + 16 \<noteq> 0"
  proof
    assume "fst ab + 16 = 0"
    then have "unat (fst ab + 16) = unat (0 :: u32)" by (rule arg_cong)
    with u show False by simp
  qed
qed

text \<open>Physical neighbours: what the merge silently assumes of list neighbours.\<close>

definition adjacent :: "ablock \<Rightarrow> ablock list \<Rightarrow> bool" where
  "adjacent ab ys \<longleftrightarrow> (case ys of [] \<Rightarrow> True
     | cd # zs \<Rightarrow> snd (snd cd) \<noteq> 0 \<or> fst cd = fst ab + 16 + fst (snd ab))"

lemma coalesce_layout:
  assumes l: "layout (xs @ ab # ys) own" and own: "own \<subseteq> {1..<TOTAL_PAGES}" and adj: "adjacent ab ys"
  shows "layout (xs @ coalesce ab ys) own"
proof (cases ys)
  case Nil
  obtain a s u where ab: "ab = (a, s, u)" by (cases ab)
  have "layout (xs @ [(a, s, 0)] @ ys) own"
    using l by (rule layout_replace) (auto simp: ab extent_def)
  then show ?thesis using Nil ab by simp
next
  case (Cons cd zs)
  obtain a s u where ab: "ab = (a, s, u)" by (cases ab)
  obtain a' s' u' where cd: "cd = (a', s', u')" by (cases cd)
  show ?thesis
  proof (cases "u' = 0")
    case False
    have "layout (xs @ [(a, s, 0)] @ ys) own"
      using l by (rule layout_replace) (auto simp: ab extent_def)
    then show ?thesis using Cons cd ab False by simp
  next
    case True
    let ?n = "(a, s + (16 + s'), 0) :: ablock"
    have a': "a' = a + 16 + s" using adj Cons cd ab True by (simp add: adjacent_def)
    have bnd: "unat a + 16 + unat s \<le> 2 ^ 29" "unat a' + 16 + unat s' \<le> 2 ^ 29"
      using layout_bound(2) [OF l own, of "(a, s, u)"] layout_bound(2) [OF l own, of "(a', s', u')"] Cons cd ab
      by auto
    have ua': "unat a' = unat a + 16 + unat s" using bnd(1) by (simp add: a' unat_word_ariths)
    have us: "unat (s + (16 + s')) = unat s + 16 + unat s'"
      using bnd(2) ua' by (simp add: unat_word_ariths)
    have ext: "extent ?n = extent ab \<union> extent cd" by (auto simp: extent_def ab cd ua' us)
    have "\<forall>d \<in> set (xs @ ?n # zs). \<forall>x \<in> extent d. x div 4096 \<in> own"
      using l ext Cons by (auto simp: layout_def)
    moreover have "sorted_wrt (\<lambda>x y. extent x \<inter> extent y = {}) (xs @ ?n # zs)"
      using l Cons ext by (auto simp: layout_def sorted_wrt_append Int_Un_distrib Int_Un_distrib2)
    ultimately show ?thesis using Cons cd ab True by (simp add: layout_def)
  qed
qed


section \<open>Properties\<close>

lemma layout_disjoint:
  assumes "layout bs own" and "ab \<in> set bs" and "cd \<in> set bs" and "ab \<noteq> cd" and "x \<in> extent ab"
  shows "x \<notin> extent cd"
proof -
  obtain xs ys where bs: "bs = xs @ ab # ys" using assms(2) by (meson split_list)
  then show ?thesis using layout_distinct [of xs ab ys own x cd] assms by auto
qed

text \<open>The heap as the boot sequence sets it up; the example the witnesses run on.\<close>

lemma boot_heap:
  "\<exists>bm0 h bm. pmm_init 0 (replicate 16384 0) = Some bm0 \<and>
     heap_init \<lparr>heap_start = 0, hmem = Map.empty\<rparr> bm0 = Some (0, h, bm) \<and>
     heap_inv h bm {256} [(0x100000, 4080, 0)] \<and> free_set bm = {257..<TOTAL_PAGES}"
proof -
  obtain bm0 where b: "pmm_init 0 (replicate 16384 0) = Some bm0" "pmm_ok bm0"
    "free_set bm0 = {256..<TOTAL_PAGES}"
    using pmm_init_eq [of "replicate 16384 0" 0]
    by (auto simp: bitmap_ok_def TOTAL_PAGES_eq kernel_pages_eq pmm_ok_def)
  have ne: "free_set bm0 \<noteq> {}" using b(3) by (simp add: TOTAL_PAGES_eq)
  have "Min {256..<TOTAL_PAGES} = 256" by (intro Min_eqI) (auto simp: TOTAL_PAGES_eq)
  then obtain h bm where
    "heap_init \<lparr>heap_start = 0, hmem = Map.empty\<rparr> bm0 = Some (0, h, bm)"
    "free_set bm = {256..<TOTAL_PAGES} - {256}"
    "heap_inv h bm {256} [(of_nat 256 * PAGE_SIZE, 4080, 0)]"
    using heap_init_eq [OF b(2) ne] b(3) by metis
  moreover have "{256..<TOTAL_PAGES} - {256} = {257..<TOTAL_PAGES}" by auto
  ultimately show ?thesis using b(1) by (auto simp: PAGE_SIZE_def)
qed

text \<open>
  \<open>heap_init\<close> takes the lowest free page and makes it one free block of 4080 bytes that
  satisfies the heap invariant; with no free page it reports 1 and leaves \<open>heap_start\<close> null, and
  then \<open>kmalloc\<close> writes through the null pointer as soon as \<open>pmm_alloc\<close> has a page again.
\<close>

theorem heap_init_establishes_inv:
  assumes "pmm_ok bm"
  shows "(free_set bm \<noteq> {} \<longrightarrow> (\<exists>h' bm'. heap_init h bm = Some (0, h', bm') \<and>
            free_set bm' = free_set bm - {Min (free_set bm)} \<and>
            heap_inv h' bm' {Min (free_set bm)} [(of_nat (Min (free_set bm)) * PAGE_SIZE, 4080, 0)])) \<and>
         (free_set bm = {} \<longrightarrow> heap_init h bm = Some (1, h\<lparr>heap_start := 0\<rparr>, bm)) \<and>
         (free_set bm \<noteq> {} \<and> hmem h 0 = None \<longrightarrow> kmalloc sz (h\<lparr>heap_start := 0\<rparr>) bm = None)"
proof (intro conjI impI)
  assume "free_set bm \<noteq> {}"
  from heap_init_eq [OF assms this, of h] show "\<exists>h' bm'. heap_init h bm = Some (0, h', bm') \<and>
            free_set bm' = free_set bm - {Min (free_set bm)} \<and>
            heap_inv h' bm' {Min (free_set bm)} [(of_nat (Min (free_set bm)) * PAGE_SIZE, 4080, 0)]"
    by blast
next
  assume "free_set bm = {}"
  with pm.alloc_exhausted [OF assms] show "heap_init h bm = Some (1, h\<lparr>heap_start := 0\<rparr>, bm)"
    by (simp add: heap_init_def Let_def)
next
  assume null: "free_set bm \<noteq> {} \<and> hmem h 0 = None"
  have "heap_scan (hmem h) sz 0 0 = Some (0, 0)" by (subst heap_scan.simps) simp
  moreover from assms null obtain p bm' where "pmm_alloc bm = Some (of_nat p * PAGE_SIZE, bm')"
    "unat (of_nat p * PAGE_SIZE) = p * 4096" "0 < p" by (cases rule: pm.alloc_cases) auto
  moreover have "of_nat p * PAGE_SIZE \<noteq> (0 :: u32)" using calculation(3,4) by auto
  ultimately show "kmalloc sz (h\<lparr>heap_start := 0\<rparr>) bm = None"
    using null by (subst kmalloc.simps) (simp add: kmalloc_extend_def Let_def)
qed

lemma heap_init_establishes_inv_witness:
  "\<exists>bm h' bm'. pmm_init 0 (replicate 16384 0) = Some bm \<and>
     heap_init \<lparr>heap_start = 0, hmem = Map.empty\<rparr> bm = Some (0, h', bm') \<and>
     heap_inv h' bm' {256} [(of_nat 256 * PAGE_SIZE, 4080, 0)]"
proof -
  obtain bm0 where b: "pmm_init 0 (replicate 16384 0) = Some bm0" "pmm_ok bm0"
    "free_set bm0 = {256..<TOTAL_PAGES}"
    using pmm_init_eq [of "replicate 16384 0" 0]
    by (auto simp: bitmap_ok_def TOTAL_PAGES_eq kernel_pages_eq pmm_ok_def)
  have "Min {256..<TOTAL_PAGES} = 256" by (intro Min_eqI) (auto simp: TOTAL_PAGES_eq)
  moreover have "free_set bm0 \<noteq> {}" using b(3) by (simp add: TOTAL_PAGES_eq)
  ultimately show ?thesis
    using b heap_init_establishes_inv [OF b(2), of "\<lparr>heap_start = 0, hmem = Map.empty\<rparr>" 0] by metis
qed

text \<open>
  C4: On a well-formed heap \<open>kmalloc\<close> returns (its recursion ends), keeps the heap well formed and
  every used block as it was, and takes new pages only from the free ones.  If it returns a
  pointer, the \<open>sz\<close> bytes there lie in pages the heap owns, outside every block that was in use
  and outside every block header.  It returns null only when no free page is left.
\<close>

theorem kmalloc_safe:
  assumes "heap_inv h bm own bs"
  shows "\<exists>ptr h' bm' own' bs'. kmalloc sz h bm = Some (ptr, h', bm') \<and> heap_inv h' bm' own' bs' \<and>
     own \<subseteq> own' \<and> own' - own \<subseteq> free_set bm \<and> free_set bm' = free_set bm - own' \<and>
     (\<forall>ab \<in> set bs. snd (snd ab) \<noteq> 0 \<longrightarrow> ab \<in> set bs') \<and>
     (if ptr = 0 then free_set bm' = {}
      else \<forall>x. unat ptr \<le> x \<and> x < unat ptr + unat sz \<longrightarrow> x div 4096 \<in> own' \<and>
             (\<forall>ab \<in> set bs. snd (snd ab) \<noteq> 0 \<longrightarrow> x \<notin> extent ab) \<and>
             (\<forall>ab \<in> set bs'. x < unat (fst ab) \<or> unat (fst ab) + 16 \<le> x))"
proof -
  obtain ptr h' bm' own' bs' where k: "kmalloc sz h bm = Some (ptr, h', bm')"
    and post: "kmalloc_post sz h bm own bs ptr h' bm' own' bs'"
    using kmalloc_spec [OF assms] by blast
  have inv: "heap_inv h' bm' own' bs'" and lay: "layout bs' own'"
    using post by (auto simp: kmalloc_post_def heap_inv_def)
  have res: "if ptr = 0 then free_set bm' = {} \<and> find (fits sz) bs' = None
      else \<exists>a s'. ptr = a + 16 \<and> sz \<le> s' \<and> (a, s', 1) \<in> set bs' \<and>
             (\<forall>ab \<in> set bs. snd (snd ab) \<noteq> 0 \<longrightarrow> fst ab \<noteq> a)"
    using post unfolding kmalloc_post_def by blast
  have "x div 4096 \<in> own' \<and> (\<forall>ab \<in> set bs. snd (snd ab) \<noteq> 0 \<longrightarrow> x \<notin> extent ab) \<and>
      (\<forall>ab \<in> set bs'. x < unat (fst ab) \<or> unat (fst ab) + 16 \<le> x)"
    if nz: "ptr \<noteq> 0" and x: "unat ptr \<le> x" "x < unat ptr + unat sz" for x
  proof -
    have kept: "\<forall>ab \<in> set bs. snd (snd ab) \<noteq> 0 \<longrightarrow> ab \<in> set bs'"
      using post by (simp add: kmalloc_post_def)
    obtain a s' where a: "ptr = a + 16" "sz \<le> s'" "(a, s', 1) \<in> set bs'"
      "\<forall>ab \<in> set bs. snd (snd ab) \<noteq> 0 \<longrightarrow> fst ab \<noteq> a"
      using res nz by auto
    have ptr: "unat ptr = unat a + 16" using heap_ptr(1) [OF inv a(3)] a(1) by simp
    have ext: "x \<in> extent (a, s', 1)" using ptr x a(2) by (auto simp: extent_def word_le_nat_alt)
    then have "x div 4096 \<in> own'" using lay a(3) unfolding layout_def by blast
    moreover have "x \<notin> extent ab" if "ab \<in> set bs" "snd (snd ab) \<noteq> 0" for ab
      using layout_disjoint [OF lay a(3) _ _ ext, of ab] a(4) kept that by (cases "ab = (a, s', 1)") auto
    moreover have "x < unat (fst ab) \<or> unat (fst ab) + 16 \<le> x" if "ab \<in> set bs'" for ab
      using layout_disjoint [OF lay a(3) that _ ext] ptr x
      by (cases "ab = (a, s', 1)") (auto simp: extent_def)
    ultimately show ?thesis by blast
  qed
  then have "if ptr = 0 then free_set bm' = {}
      else \<forall>x. unat ptr \<le> x \<and> x < unat ptr + unat sz \<longrightarrow> x div 4096 \<in> own' \<and>
             (\<forall>ab \<in> set bs. snd (snd ab) \<noteq> 0 \<longrightarrow> x \<notin> extent ab) \<and>
             (\<forall>ab \<in> set bs'. x < unat (fst ab) \<or> unat (fst ab) + 16 \<le> x)"
    using res by (cases "ptr = 0") auto
  moreover have "own \<subseteq> own'" "own' - own \<subseteq> free_set bm" "free_set bm' = free_set bm - own'"
    "\<forall>ab \<in> set bs. snd (snd ab) \<noteq> 0 \<longrightarrow> ab \<in> set bs'"
    using post by (simp_all add: kmalloc_post_def)
  ultimately show ?thesis using k inv
    by (intro exI [of _ ptr] exI [of _ h'] exI [of _ bm'] exI [of _ own'] exI [of _ bs'] conjI)
qed

lemma kmalloc_safe_witness:
  "\<exists>h bm ptr h' bm' own' bs'. kmalloc 100 h bm = Some (ptr, h', bm') \<and> heap_inv h' bm' own' bs' \<and>
     256 \<in> own'"
proof -
  obtain h bm where inv: "heap_inv h bm {256} [(0x100000, 4080, 0)]" using boot_heap by blast
  from kmalloc_safe [OF this, of 100] obtain ptr h' bm' own' bs' where
    "kmalloc 100 h bm = Some (ptr, h', bm')" "heap_inv h' bm' own' bs'" "{256} \<subseteq> own'"
    by (elim exE conjE) (rule that)
  then show ?thesis by blast
qed

lemma alloc_lowest:
  assumes "pmm_ok bm" and "free_set bm \<noteq> {}" and "pmm_alloc bm = Some (of_nat p * PAGE_SIZE, bm')"
    and "unat (of_nat p * PAGE_SIZE) = p * 4096"
  shows "p = Min (free_set bm)"
proof -
  have "pmm_alloc bm = Some (of_nat (Min (free_set bm)) * PAGE_SIZE, mark_used bm (Min (free_set bm)))"
    using pmm_alloc_eq [of bm] assms(1,2) by (simp add: pmm_ok_def first_free_Min)
  then have e: "of_nat p * PAGE_SIZE = (of_nat (Min (free_set bm)) * PAGE_SIZE :: u32)"
    using assms(3) by (simp only: option.inject prod.inject)
  have "Min (free_set bm) \<in> free_set bm" using assms(2) by simp
  then have "unat (of_nat (Min (free_set bm)) * PAGE_SIZE) = Min (free_set bm) * 4096" using pm.page_addr [OF assms(1)] by blast
  then have "p * 4096 = Min (free_set bm) * 4096" using assms(4) e by (simp only:)
  then show ?thesis by simp
qed

text \<open>A request that fits a page is carved from the page fetched for it.\<close>

lemma kmalloc_new_page:
  assumes "heap_inv h bm own bs" and "sz \<le> 4080" and "find (fits sz) bs = None"
    and "pmm_alloc bm = Some (of_nat p * PAGE_SIZE, bm')" and "p \<in> free_set bm" and "free_set bm' = free_set bm - {p}"
    and "pmm_ok bm'" and "unat (of_nat p * PAGE_SIZE) = p * 4096" and "0 < p" and "p < TOTAL_PAGES"
  shows "\<exists>h'. kmalloc sz h bm = Some (of_nat p * PAGE_SIZE + 16, h', bm') \<and>
    heap_inv h' bm' (insert p own) (bs @ carve sz (of_nat p * PAGE_SIZE, 4080, 0))"
proof -
  let ?nb = "(of_nat p * PAGE_SIZE, 4080, 0) :: ablock"
  obtain m' where m': "kmalloc sz h bm = kmalloc sz (h\<lparr>hmem := m'\<rparr>) bm'" "heap_inv (h\<lparr>hmem := m'\<rparr>) bm' (insert p own) (bs @ [?nb])"
    using kmalloc_page [OF assms(1,3-10)] by blast
  have f: "fits sz ?nb" using assms(2) by (simp add: fits_def)
  then have "find (fits sz) (bs @ [?nb]) = Some ?nb" using assms(3) by (induction bs) (auto split: if_splits)
  from kmalloc_fit [OF m'(2) this] obtain m'' xs ys where
    k: "kmalloc sz (h\<lparr>hmem := m'\<rparr>) bm' = Some (fst ?nb + 16, h\<lparr>hmem := m''\<rparr>, bm')" "bs @ [?nb] = xs @ ?nb # ys"
      "heap_inv (h\<lparr>hmem := m''\<rparr>) bm' (insert p own) (xs @ carve sz ?nb @ ys)" by auto
  have "?nb \<notin> set bs" using assms(3) f by (auto simp: find_None_iff)
  then have "xs = bs \<and> ys = []" using k(2) by (auto simp: append_eq_append_conv2 append_eq_Cons_conv Cons_eq_append_conv)
  then show ?thesis using k(1,3) m'(1) by auto
qed

text \<open>
  C24: For a request that fits a page \<open>kmalloc\<close> is first fit: the first free block that is large
  enough is split or taken whole and no page is touched; if there is none, exactly the lowest
  free page is added and serves the request; it fails only if there is no free page either.
\<close>

theorem kmalloc_first_fit:
  assumes "heap_inv h bm own bs" and "sz \<le> 4080"
  shows "\<exists>h' bm' own' bs'. kmalloc sz h bm = Some (case find (fits sz) bs of
            Some ab \<Rightarrow> fst ab + 16
          | None \<Rightarrow> if free_set bm = {} then 0 else of_nat (Min (free_set bm)) * PAGE_SIZE + 16, h', bm') \<and>
       heap_inv h' bm' own' bs' \<and>
       free_set bm' = free_set bm - own' \<and>
       own' = own \<union> (if find (fits sz) bs = None \<and> free_set bm \<noteq> {} then {Min (free_set bm)} else {}) \<and>
       (case find (fits sz) bs of
          Some ab \<Rightarrow> bm' = bm \<and> (\<exists>xs ys. bs = xs @ ab # ys \<and> bs' = xs @ carve sz ab @ ys)
        | None \<Rightarrow> if free_set bm = {} then bs' = bs
            else bs' = bs @ carve sz (of_nat (Min (free_set bm)) * PAGE_SIZE, 4080, 0))"
proof (cases "find (fits sz) bs")
  case (Some ab)
  from kmalloc_fit [OF assms(1) Some] obtain m' xs ys where
    k: "kmalloc sz h bm = Some (fst ab + 16, h\<lparr>hmem := m'\<rparr>, bm)" "bs = xs @ ab # ys"
      "heap_inv (h\<lparr>hmem := m'\<rparr>) bm own (xs @ carve sz ab @ ys)" by blast
  have "free_set bm = free_set bm - own" using assms(1) by (auto simp: heap_inv_def)
  with k Some show ?thesis by auto
next
  case None
  have ok: "pmm_ok bm" using assms(1) by (simp add: heap_inv_def)
  then show ?thesis
  proof (cases rule: pm.alloc_cases)
    case (page p bm')
    have ne: "free_set bm \<noteq> {}" using page(2) by auto
    have min: "p = Min (free_set bm)" by (rule alloc_lowest [OF ok ne page(1,5)])
    obtain h' where "kmalloc sz h bm = Some (of_nat p * PAGE_SIZE + 16, h', bm')"
      "heap_inv h' bm' (insert p own) (bs @ carve sz (of_nat p * PAGE_SIZE, 4080, 0))"
      using kmalloc_new_page [OF assms None page(1-7)] by metis
    moreover have "free_set bm' = free_set bm - (own \<union> {Min (free_set bm)})" using page(3) assms(1) min by (auto simp: heap_inv_def)
    ultimately show ?thesis using None ne min by auto
  next
    case full
    then show ?thesis using kmalloc_full [OF assms(1) None full(1)] None assms(1) by auto
  qed
qed

lemma kmalloc_first_fit_witness:
  "\<exists>h bm h' bs'. kmalloc 100 h bm = Some (0x100010, h', bm) \<and>
     heap_inv h' bm {256} [(0x100000, 100, 1), (0x100074, 3964, 0)]"
proof -
  obtain h bm where inv: "heap_inv h bm {256} [(0x100000, 4080, 0)]" using boot_heap by blast
  from kmalloc_first_fit [OF this, of 100] show ?thesis
    by (auto simp: fits_def carve_def Cons_eq_append_conv)
qed

text \<open>
  C31: A request of more than 4080 bytes that no free block can serve takes \<^emph>\<open>every\<close> free page of the
  machine, one after the other, and then returns null: afterwards no page is free for anybody.
\<close>

theorem kmalloc_oversize_exhausts_memory:
  assumes "heap_inv h bm own bs" and "find (fits sz) bs = None" and "4080 < unat sz"
  shows "\<exists>h' bm' bs'. kmalloc sz h bm = Some (0, h', bm') \<and> free_set bm' = {} \<and>
     pmm_alloc bm' = Some (0, bm') \<and> heap_inv h' bm' (own \<union> free_set bm) bs'"
proof -
  from kmalloc_oversize [OF assms] obtain h' bm' bs' where
    k: "kmalloc sz h bm = Some (0, h', bm')" "free_set bm' = {}" "heap_inv h' bm' (own \<union> free_set bm) bs'"
    by blast
  then have "pmm_ok bm'" by (simp add: heap_inv_def)
  with k show ?thesis using pm.alloc_exhausted by blast
qed

lemma kmalloc_oversize_exhausts_memory_witness:
  "\<exists>h bm h' bm'. free_set bm = {257..<TOTAL_PAGES} \<and> kmalloc 5000 h bm = Some (0, h', bm') \<and>
     free_set bm' = {}"
proof -
  obtain h bm where inv: "heap_inv h bm {256} [(0x100000, 4080, 0)]" "free_set bm = {257..<TOTAL_PAGES}"
    using boot_heap by blast
  have "find (fits 5000) [(0x100000, 4080, 0)] = None" by (simp add: fits_def)
  from kmalloc_oversize_exhausts_memory [OF inv(1) this] inv(2) show ?thesis by auto
qed

text \<open>Freeing a block of the list: it is merged with its successor.\<close>

lemma kfree_block:
  assumes "heap_inv h bm own (xs @ ab # ys)"
  shows "kfree 0 h = Some h \<and> (\<exists>h'. kfree (fst ab + 16) h = Some h' \<and> heap_start h' = heap_start h \<and>
     repr (hmem h') (heap_start h') (xs @ coalesce ab ys) \<and>
     (adjacent ab ys \<longrightarrow> heap_inv h' bm own (xs @ coalesce ab ys)))"
proof -
  have inv: "repr (hmem h) (heap_start h) (xs @ ab # ys)" "layout (xs @ ab # ys) own"
    "own \<subseteq> {1..<TOTAL_PAGES}" using assms by (auto simp: heap_inv_def)
  from kfree_eq [OF inv(1) layout_addrs_distinct [OF inv(2)] heap_ptr(2) [OF assms]] obtain m' where
    m': "kfree (fst ab + 16) h = Some (h\<lparr>hmem := m'\<rparr>)" "repr m' (heap_start h) (xs @ coalesce ab ys)"
    by auto
  have "coalesce ab ys \<noteq> []" by (cases "(ab, ys)" rule: coalesce.cases) auto
  then have "heap_inv (h\<lparr>hmem := m'\<rparr>) bm own (xs @ coalesce ab ys)" if "adjacent ab ys"
    using assms m'(2) coalesce_layout [OF inv(2,3) that] by (simp add: heap_inv_def)
  then show ?thesis using m' by (auto simp: kfree_def [of 0])
qed

text \<open>
  C26: \<open>kfree\<close> of the pointer \<open>kmalloc\<close> gave for a block marks the block free and merges it with its
  successor in the list if that one is free; when the successor is used, absent or the physical
  neighbour, the heap stays well formed.  Freeing null does nothing.
\<close>

theorem kfree_merges_next:
  assumes "heap_inv h bm own (xs @ ab # ys)"
  shows "kfree 0 h = Some h \<and> (\<exists>h'. kfree (fst ab + 16) h = Some h' \<and> heap_start h' = heap_start h \<and>
     repr (hmem h') (heap_start h') (xs @ coalesce ab ys) \<and>
     (adjacent ab ys \<longrightarrow> heap_inv h' bm own (xs @ coalesce ab ys)))"
  using kfree_block [OF assms] .

lemma kfree_merges_next_witness:
  "\<exists>h bm h'. heap_inv h bm {256} [(0x100000, 100, 1), (0x100074, 3964, 0)] \<and>
     kfree 0x100010 h = Some h' \<and> heap_inv h' bm {256} [(0x100000, 4080, 0)]"
proof -
  obtain h bm where inv: "heap_inv h bm {256} [(0x100000, 4080, 0)]" using boot_heap by blast
  have "find (fits 100) [(0x100000, 4080, 0)] = Some (0x100000, 4080, 0)" by (simp add: fits_def)
  from kmalloc_fit [OF inv this] obtain h1 where
    h1: "heap_inv h1 bm {256} ([] @ (0x100000, 100, 1) # [(0x100074, 3964, 0)])"
    by (auto simp: carve_def Cons_eq_append_conv)
  from kfree_merges_next [OF this] show ?thesis using h1 by (auto simp: adjacent_def)
qed

text \<open>
  Allocating from a block with room to split and freeing the result gives the block list back
  exactly: no fragmentation builds up.
\<close>

theorem kmalloc_kfree_roundtrip:
  assumes "heap_inv h bm own bs" and "find (fits sz) bs = Some ab" and "unat sz + 20 < unat (fst (snd ab))"
  shows "\<exists>ptr h1 h2. kmalloc sz h bm = Some (ptr, h1, bm) \<and> kfree ptr h1 = Some h2 \<and>
     heap_inv h2 bm own bs"
proof -
  from kmalloc_fit [OF assms(1,2)] obtain m' xs ys where
    k: "kmalloc sz h bm = Some (fst ab + 16, h\<lparr>hmem := m'\<rparr>, bm)" "bs = xs @ ab # ys" "fits sz ab"
      "heap_inv (h\<lparr>hmem := m'\<rparr>) bm own (xs @ carve sz ab @ ys)" by blast
  obtain a s where ab: "ab = (a, s, 0)" using k(3) by (cases ab) (auto simp: fits_def)
  have sz: "sz \<le> s" using k(3) ab by (simp add: fits_def)
  have "unat a + 16 + unat s \<le> 2 ^ 29"
    using layout_bound(2) [of bs own ab] assms(1) k(2) ab by (auto simp: heap_inv_def)
  from fit_arith(1) [OF this sz] have "sz + 20 < s" using assms(3) ab by simp
  then have inv: "heap_inv (h\<lparr>hmem := m'\<rparr>) bm own
      (xs @ (a, sz, 1) # (a + 16 + sz, s - sz - 16, 0) # ys)"
    using k(4) ab by (simp add: carve_def)
  let ?ab = "(a, sz, 1) :: ablock"
  have inv': "repr m' (heap_start h) (xs @ ?ab # (a + 16 + sz, s - sz - 16, 0) # ys)"
    "layout (xs @ ?ab # (a + 16 + sz, s - sz - 16, 0) # ys) own"
    "own \<subseteq> {1..<TOTAL_PAGES}" using inv by (auto simp: heap_inv_def)
  have ne: "fst ?ab + 16 \<noteq> 0" using heap_ptr(2) [OF inv, of ?ab] by simp
  from kfree_eq [of "h\<lparr>hmem := m'\<rparr>" xs ?ab, OF _ layout_addrs_distinct [OF inv'(2)] ne] inv'(1)
  obtain m'' where m'': "kfree (a + 16) (h\<lparr>hmem := m'\<rparr>) = Some (h\<lparr>hmem := m''\<rparr>)"
    "repr m'' (heap_start h) bs" using k(2) ab by auto
  moreover have "heap_inv (h\<lparr>hmem := m''\<rparr>) bm own bs"
    using assms(1) m''(2) by (simp add: heap_inv_def)
  ultimately show ?thesis using k(1) ab by auto
qed

lemma kmalloc_kfree_roundtrip_witness:
  "\<exists>h bm ptr h1 h2. kmalloc 100 h bm = Some (ptr, h1, bm) \<and> kfree ptr h1 = Some h2 \<and>
     heap_inv h2 bm {256} [(0x100000, 4080, 0)]"
proof -
  obtain h bm where inv: "heap_inv h bm {256} [(0x100000, 4080, 0)]" using boot_heap by blast
  have "find (fits 100) [(0x100000, 4080, 0)] = Some (0x100000, 4080, 0)" by (simp add: fits_def)
  from kmalloc_kfree_roundtrip [OF inv this] have
    "\<exists>ptr h1 h2. kmalloc 100 h bm = Some (ptr, h1, bm) \<and> kfree ptr h1 = Some h2 \<and>
     heap_inv h2 bm {256} [(0x100000, 4080, 0)]" by simp
  then show ?thesis by blast
qed


text \<open>Taking the lowest free page of a bitmap whose free pages form an upper interval.\<close>

lemma Min_upper: "n < TOTAL_PAGES \<Longrightarrow> Min {n..<TOTAL_PAGES} = n"
  by (intro Min_eqI) auto

lemma upper_minus: "{n..<TOTAL_PAGES} - {n} = {Suc n..<TOTAL_PAGES}"
  by auto

lemma kmalloc_whole_page:
  assumes "heap_inv h bm own bs" and "find (fits 4080) bs = None" and "free_set bm = {n..<TOTAL_PAGES}"
    and "n < TOTAL_PAGES"
  shows "\<exists>h' bm'. kmalloc 4080 h bm = Some (of_nat n * PAGE_SIZE + 16, h', bm') \<and>
     heap_inv h' bm' (own \<union> {n}) (bs @ [(of_nat n * PAGE_SIZE, 4080, 1)]) \<and>
     free_set bm' = {Suc n..<TOTAL_PAGES}"
proof -
  have ok: "pmm_ok bm" using assms(1) by (simp add: heap_inv_def)
  have ne: "free_set bm \<noteq> {}" and min: "Min (free_set bm) = n" using assms(3,4) Min_upper by auto
  from ok show ?thesis
  proof (cases rule: pm.alloc_cases)
    case (page p bm')
    have p: "p = n" using alloc_lowest [OF ok ne page(1,5)] min by simp
    show ?thesis
      using kmalloc_new_page [OF assms(1) _ assms(2) page(1-7)] upper_minus [of n] page(3) assms(3) unfolding p by (auto simp: carve_def)
  next
    case full
    then show ?thesis using ne by simp
  qed
qed

text \<open>A page of the heap at a known address.\<close>

lemma page_address: "n < TOTAL_PAGES \<Longrightarrow> unat (of_nat n * PAGE_SIZE :: u32) = n * 4096"
  using unat_of_nat_small [of "n * 4096", where 'a = 32] by (simp add: PAGE_SIZE_def TOTAL_PAGES_eq)

text \<open>Freeing two full heap pages with a page in between makes one block that spans all three.\<close>

lemma merge_spans:
  fixes p :: nat
  defines "A \<equiv> of_nat p * PAGE_SIZE :: u32" and "B \<equiv> of_nat (p + 2) * PAGE_SIZE :: u32"
  assumes "heap_inv h bm {p, p + 2} [(A, 4080, 1), (B, 4080, 1)]" and "free_set bm = {Suc (p + 2)..<TOTAL_PAGES}"
    and "1 \<le> p" and "p + 3 \<le> TOTAL_PAGES"
  shows "\<exists>h1 h2 h3. kfree (B + 16) h = Some h1 \<and> kfree (A + 16) h1 = Some h2 \<and> kmalloc 8176 h2 bm = Some (A + 16, h3, bm)"
proof -
  from kfree_block [of h bm "{p, p + 2}" "[(A, 4080, 1)]" "(B, 4080, 1)" "[]"] assms(3)
  obtain h1 where f1: "kfree (B + 16) h = Some h1" "heap_inv h1 bm {p, p + 2} ([] @ (A, 4080, 1) # [(B, 4080, 0)])"
    by (auto simp: adjacent_def)
  from kfree_block [OF f1(2)] obtain h2 where f2: "kfree (A + 16) h1 = Some h2" "repr (hmem h2) (heap_start h2) [(A, 8176, 0)]" by auto
  have a: "unat A = p * 4096" unfolding A_def by (rule page_address) (use assms(6) in simp)
  have "x div 4096 \<in> {p, p + 1, p + 2}" if "x \<in> extent (A, 8176, 0)" for x
  proof -
    have "p * 4096 \<le> x" "x < (p + 2) * 4096" using that by (auto simp: extent_def a)
    then have "p \<le> x div 4096" "x div 4096 < p + 2" by (simp_all add: less_eq_div_iff_mult_less_eq div_less_iff_less_mult)
    then show ?thesis by auto
  qed
  then have inv: "heap_inv h2 bm {p, p + 1, p + 2} [(A, 8176, 0)]"
    using f2(2) f1(2) assms(4-6) by (auto simp: heap_inv_def layout_def)
  have "find (fits 8176) [(A, 8176, 0)] = Some (A, 8176, 0)" by (simp add: fits_def)
  from kmalloc_fit [OF inv this] obtain h3 where "kmalloc 8176 h2 bm = Some (A + 16, h3, bm)"
    by (auto simp: Cons_eq_append_conv)
  with f1(1) f2(1) show ?thesis by blast
qed

text \<open>
  C32: The merge of \<open>kfree\<close> does not check that the two blocks are neighbours in memory.  Wherever the
  kernel image ends, after the boot: fill the first heap page \<open>p\<close>, let anybody else take a page (a task
  stack), fill a second heap page, free both blocks in reverse order: the merged block spans the page in
  between, and the next allocation of 8176 bytes is handed memory that contains the whole of that page.
\<close>

theorem kfree_merge_overlaps_foreign_page:
  fixes ke :: u32
  defines "p \<equiv> max 256 (unat ke div 4096 + 1)"
  assumes "bitmap_ok bm" and "p + 3 \<le> TOTAL_PAGES"
  shows "\<exists>bm0 h0 bm1 h1 bm2 foreign bm3 h3 bm4 h4 h5 h6. pmm_init ke bm = Some bm0 \<and>
     heap_init \<lparr>heap_start = 0, hmem = Map.empty\<rparr> bm0 = Some (0, h0, bm1) \<and>
     kmalloc 4080 h0 bm1 = Some (of_nat p * PAGE_SIZE + 16, h1, bm2) \<and>
     pmm_alloc bm2 = Some (foreign, bm3) \<and>
     kmalloc 4080 h1 bm3 = Some (of_nat (p + 2) * PAGE_SIZE + 16, h3, bm4) \<and>
     kfree (of_nat (p + 2) * PAGE_SIZE + 16) h3 = Some h4 \<and> kfree (of_nat p * PAGE_SIZE + 16) h4 = Some h5 \<and>
     kmalloc 8176 h5 bm4 = Some (of_nat p * PAGE_SIZE + 16, h6, bm4) \<and>
     {unat foreign ..< unat foreign + 4096} \<subseteq> {unat (of_nat p * PAGE_SIZE + 16 :: u32) ..< unat (of_nat p * PAGE_SIZE + 16 :: u32) + 8176}"
proof -
  let ?A = "of_nat p * PAGE_SIZE :: u32" and ?B = "of_nat (p + 2) * PAGE_SIZE :: u32"
  have p: "256 \<le> p" "kernel_pages ke \<le> TOTAL_PAGES" "max 256 (kernel_pages ke) = p"
    using assms(3) by (auto simp: p_def kernel_pages_eq)
  obtain bm0 where b0: "pmm_init ke bm = Some bm0" "pmm_ok bm0" "free_set bm0 = {p..<TOTAL_PAGES}"
    using pmm_init_eq [OF assms(2) p(2)] p by (auto simp: pmm_ok_def)
  have ne: "free_set bm0 \<noteq> {}" using b0(3) assms(3) by simp
  obtain q h0 bm1 where q: "heap_init \<lparr>heap_start = 0, hmem = Map.empty\<rparr> bm0 = Some (0, h0, bm1)" "q = Min (free_set bm0)"
    "free_set bm1 = free_set bm0 - {q}" "heap_inv h0 bm1 {q} [(of_nat q * PAGE_SIZE, 4080, 0)]"
    using heap_init_eq [OF b0(2) ne, of "\<lparr>heap_start = 0, hmem = Map.empty\<rparr>"] by blast
  have "q = p" using q(2) b0(3) Min_upper [of p] assms(3) by simp
  then have b1: "heap_init \<lparr>heap_start = 0, hmem = Map.empty\<rparr> bm0 = Some (0, h0, bm1)"
    "free_set bm1 = {Suc p..<TOTAL_PAGES}" "heap_inv h0 bm1 {p} [(?A, 4080, 0)]"
    using q b0(3) upper_minus [of p] by simp_all
  have "find (fits 4080) [(?A, 4080, 0)] = Some (?A, 4080, 0)" by (simp add: fits_def)
  from kmalloc_fit [OF b1(3) this] obtain h1 where
    k1: "kmalloc 4080 h0 bm1 = Some (?A + 16, h1, bm1)" "heap_inv h1 bm1 {p} [(?A, 4080, 1)]"
    by (auto simp: carve_def Cons_eq_append_conv)
  obtain bm3 where st: "pmm_alloc bm1 = Some (of_nat (Suc p) * PAGE_SIZE, bm3)" "pmm_ok bm3" "free_set bm3 = {p + 2..<TOTAL_PAGES}"
  proof -
    have ok: "pmm_ok bm1" and ne: "free_set bm1 \<noteq> {}" using b1(2,3) assms(3) by (auto simp: heap_inv_def)
    from ok show thesis
    proof (cases rule: pm.alloc_cases)
      case (page q bm')
      have "q = Suc p" using alloc_lowest [OF ok ne page(1,5)] Min_upper [of "Suc p"] b1(2) assms(3) by simp
      then show thesis using that [of bm'] page(1,3,4) b1(2) upper_minus [of "Suc p"] by simp
    qed (use ne in simp)
  qed
  have "heap_inv h1 bm3 {p} [(?A, 4080, 1)]" using k1(2) st by (auto simp: heap_inv_def simp del: repr.simps)
  moreover have "find (fits 4080) [(?A, 4080, 1)] = None" by (simp add: fits_def)
  ultimately obtain h3 bm4 where k3: "kmalloc 4080 h1 bm3 = Some (?B + 16, h3, bm4)"
    "heap_inv h3 bm4 {p, p + 2} [(?A, 4080, 1), (?B, 4080, 1)]" "free_set bm4 = {Suc (p + 2)..<TOTAL_PAGES}"
    using kmalloc_whole_page [of h1 bm3 "{p}" "[(?A, 4080, 1)]" "p + 2"] st(3) assms(3) by (auto simp: insert_commute)
  from merge_spans [OF k3(2,3)] p(1) assms(3) obtain h4 h5 h6
    where f: "kfree (?B + 16) h3 = Some h4" "kfree (?A + 16) h4 = Some h5" "kmalloc 8176 h5 bm4 = Some (?A + 16, h6, bm4)" by auto
  have A: "unat ?A = p * 4096" by (rule page_address) (use assms(3) in simp)
  have "unat (?A + 16) = p * 4096 + 16" using A assms(3) by (simp add: unat_word_ariths TOTAL_PAGES_eq)
  moreover have "unat (of_nat (Suc p) * PAGE_SIZE :: u32) = Suc p * 4096" by (rule page_address) (use assms(3) in simp)
  ultimately have "{unat (of_nat (Suc p) * PAGE_SIZE :: u32) ..< unat (of_nat (Suc p) * PAGE_SIZE :: u32) + 4096}
      \<subseteq> {unat (?A + 16) ..< unat (?A + 16) + 8176}" by auto
  with b0(1) b1(1) k1(1) st(1) k3(1) f show ?thesis by blast
qed

lemma kfree_merge_overlaps_foreign_page_witness:
  "\<exists>bm0 h0 bm1 h1 bm2 bm3. pmm_init 0x120000 (replicate 16384 0) = Some bm0 \<and>
     heap_init \<lparr>heap_start = 0, hmem = Map.empty\<rparr> bm0 = Some (0, h0, bm1) \<and> kmalloc 4080 h0 bm1 = Some (0x121010, h1, bm2) \<and>
     (\<exists>foreign. pmm_alloc bm2 = Some (foreign, bm3) \<and> {unat foreign ..< unat foreign + 4096} \<subseteq> {0x121010 ..< 0x123000})"
  using kfree_merge_overlaps_foreign_page [of "replicate 16384 0" "0x120000"]
  by (simp add: bitmap_ok_def TOTAL_PAGES_eq PAGE_SIZE_def) blast

end
