(* ===== verification/Descriptors.thy ===== *)
theory Descriptors
  imports Prelude
begin

text \<open>
  The segment and interrupt descriptor tables: \<^verbatim>\<open>kernel/gdt.c\<close>, \<^verbatim>\<open>kernel/idt.c\<close>, their headers, and
  the two assembly routines \<open>gdt_flush\<close> and \<open>idt_flush\<close> that load them into the processor.  The
  addresses the linker assigns (of the tables, of the interrupt stubs) are parameters.  What the
  processor reads back out of an entry is \<open>gdt_base\<close>, \<open>gdt_limit\<close>, \<open>idt_offset\<close>.
\<close>

section \<open>Segments\<close>

record gdt_entry =
  g_limit_low :: u16
  g_base_low :: u16
  g_base_mid :: u8
  g_access :: u8
  g_granularity :: u8
  g_base_high :: u8

record gdt_ptr =
  gp_limit :: u16
  gp_base :: u32

text \<open>The registers \<open>lgdt\<close>, \<open>lidt\<close>, the segment loads and \<open>sti\<close> change.\<close>

record cpu =
  gdtr :: gdt_ptr
  idtr :: gdt_ptr
  cs :: u16
  data_segs :: u16
  int_enabled :: bool

definition gdt_set :: "nat \<Rightarrow> u32 \<Rightarrow> u32 \<Rightarrow> u8 \<Rightarrow> u8 \<Rightarrow> gdt_entry list \<Rightarrow> gdt_entry list option" where
  "gdt_set i bas limit access gran gdt = do {
     e \<leftarrow> arr_get gdt i;
     let e = e\<lparr>g_base_low := ucast (bas AND 0xFFFF)\<rparr>;
     let e = e\<lparr>g_base_mid := ucast (drop_bit 16 bas AND 0xFF)\<rparr>;
     let e = e\<lparr>g_base_high := ucast (drop_bit 24 bas AND 0xFF)\<rparr>;
     let e = e\<lparr>g_limit_low := ucast (limit AND 0xFFFF)\<rparr>;
     let e = e\<lparr>g_granularity := ucast (drop_bit 16 limit AND 0x0F) OR (gran AND 0xF0)\<rparr>;
     let e = e\<lparr>g_access := access\<rparr>;
     arr_set gdt i e }"

definition gdt_flush :: "gdt_ptr \<Rightarrow> cpu \<Rightarrow> cpu" where
  "gdt_flush p c = c\<lparr>gdtr := p, data_segs := 0x10, cs := 0x08\<rparr>"

definition gdt_init :: "u32 \<Rightarrow> gdt_entry list \<Rightarrow> cpu \<Rightarrow> (gdt_entry list \<times> cpu) option" where
  "gdt_init gdt_addr gdt c = do {
     let gp = \<lparr>gp_limit = 8 * 3 - 1, gp_base = gdt_addr\<rparr>;
     gdt \<leftarrow> gdt_set 0 0 0 0 0 gdt;
     gdt \<leftarrow> gdt_set 1 0 0xFFFFFFFF 0x9A 0xCF gdt;
     gdt \<leftarrow> gdt_set 2 0 0xFFFFFFFF 0x92 0xCF gdt;
     Some (gdt, gdt_flush gp c) }"

text \<open>
  The fields as the processor assembles them: base, limit (scaled by 4KB pages when the
  granularity bit is set), flags.
\<close>

definition gdt_base :: "gdt_entry \<Rightarrow> u32" where
  "gdt_base e = push_bit 24 (ucast (g_base_high e)) OR push_bit 16 (ucast (g_base_mid e)) OR ucast (g_base_low e)"

definition gdt_raw_limit :: "gdt_entry \<Rightarrow> u32" where
  "gdt_raw_limit e = push_bit 16 (ucast (g_granularity e AND 0x0F)) OR ucast (g_limit_low e)"

definition gdt_limit :: "gdt_entry \<Rightarrow> u32" where
  "gdt_limit e = (if bit (g_granularity e) 7 then push_bit 12 (gdt_raw_limit e) OR 0xFFF else gdt_raw_limit e)"

lemma gdt_set_eq:
  assumes "i < length gdt"
  shows "gdt_set i bas limit access gran gdt = Some (gdt[i :=
    \<lparr>g_limit_low = ucast (limit AND 0xFFFF), g_base_low = ucast (bas AND 0xFFFF),
     g_base_mid = ucast (drop_bit 16 bas AND 0xFF), g_access = access,
     g_granularity = ucast (drop_bit 16 limit AND 0x0F) OR (gran AND 0xF0),
     g_base_high = ucast (drop_bit 24 bas AND 0xFF)\<rparr>])"
  using assms by (cases "gdt ! i") (simp add: gdt_set_def Let_def)

text \<open>The constant masks of the code; the simplifier takes bits of numerals over the integers.\<close>

lemma bit_0xF: "bit (0xF :: int) n \<longleftrightarrow> n < 4"
  using bit_mask_iff [of 4 n, where 'a = int] by (simp add: mask_eq_exp_minus_1)

lemma bit_0xFF: "bit (0xFF :: int) n \<longleftrightarrow> n < 8"
  using bit_mask_iff [of 8 n, where 'a = int] by (simp add: mask_eq_exp_minus_1)

lemma bit_0xFFF: "bit (0xFFF :: int) n \<longleftrightarrow> n < 12"
  using bit_mask_iff [of 12 n, where 'a = int] by (simp add: mask_eq_exp_minus_1)

lemma bit_0xFFFF: "bit (0xFFFF :: int) n \<longleftrightarrow> n < 16"
  using bit_mask_iff [of 16 n, where 'a = int] by (simp add: mask_eq_exp_minus_1)

lemma bit_0xF0: "bit (0xF0 :: int) n \<longleftrightarrow> 4 \<le> n \<and> n < 8"
proof -
  have "(0xF0 :: int) = push_bit 4 0xF" by (simp add: push_bit_eq_mult)
  then show ?thesis by (simp only: bit_push_bit_iff bit_0xF) auto
qed

lemmas bit_masks = bit_0xF bit_0xFF bit_0xFFF bit_0xFFFF bit_0xF0

section \<open>Interrupt gates\<close>

record idt_entry =
  i_base_low :: u16
  i_selector :: u16
  i_zero :: u8
  i_flags :: u8
  i_base_high :: u16

definition idt_set :: "u8 \<Rightarrow> u32 \<Rightarrow> u16 \<Rightarrow> u8 \<Rightarrow> idt_entry list \<Rightarrow> idt_entry list option" where
  "idt_set i bas sel flags idt = do {
     e \<leftarrow> arr_get idt (unat i);
     let e = e\<lparr>i_base_low := ucast (bas AND 0xFFFF)\<rparr>;
     let e = e\<lparr>i_base_high := ucast (drop_bit 16 bas AND 0xFFFF)\<rparr>;
     let e = e\<lparr>i_selector := sel\<rparr>;
     let e = e\<lparr>i_zero := 0\<rparr>;
     let e = e\<lparr>i_flags := flags\<rparr>;
     arr_set idt (unat i) e }"

definition idt_flush :: "gdt_ptr \<Rightarrow> cpu \<Rightarrow> cpu" where
  "idt_flush p c = c\<lparr>idtr := p, int_enabled := True\<rparr>"

text \<open>The bytes written to the two interrupt controllers, as \<open>(port, value)\<close>.\<close>

definition pic_remap :: "(u16 \<times> u8) list" where
  "pic_remap = [(0x20, 0x11), (0xA0, 0x11), (0x21, 0x20), (0xA1, 0x28), (0x21, 0x04), (0xA1, 0x02),
                (0x21, 0x01), (0xA1, 0x01), (0x21, 0x00), (0xA1, 0x00)]"

definition idt_init ::
    "u32 \<Rightarrow> u32 \<Rightarrow> u32 \<Rightarrow> u32 \<Rightarrow> idt_entry list \<Rightarrow> cpu \<Rightarrow> (idt_entry list \<times> (u16 \<times> u8) list \<times> cpu) option" where
  "idt_init idt_addr isr_default isr_timer isr_keyboard idt c = do {
     let ip = \<lparr>gp_limit = 8 * 256 - 1, gp_base = idt_addr\<rparr>;
     idt \<leftarrow> for_each (\<lambda>i idt. idt_set (of_nat i) isr_default 0x08 0x8E idt) [0..<256] idt;
     idt \<leftarrow> idt_set 32 isr_timer 0x08 0x8E idt;
     idt \<leftarrow> idt_set 33 isr_keyboard 0x08 0x8E idt;
     idt \<leftarrow> idt_set 46 isr_default 0x08 0x8E idt;
     Some (idt, pic_remap, idt_flush ip c) }"

definition idt_offset :: "idt_entry \<Rightarrow> u32" where
  "idt_offset e = push_bit 16 (ucast (i_base_high e)) OR ucast (i_base_low e)"

definition gate :: "u32 \<Rightarrow> u16 \<Rightarrow> u8 \<Rightarrow> idt_entry" where
  "gate bas sel flags = \<lparr>i_base_low = ucast (bas AND 0xFFFF), i_selector = sel, i_zero = 0,
     i_flags = flags, i_base_high = ucast (drop_bit 16 bas AND 0xFFFF)\<rparr>"

lemma idt_set_eq:
  "length idt = 256 \<Longrightarrow> idt_set i bas sel flags idt = Some (idt[unat i := gate bas sel flags])"
  using unsigned_less [of i, where 'a = nat]
  by (cases "idt ! unat i") (simp add: idt_set_def Let_def gate_def)

lemma idt_offset_gate: "idt_offset (gate bas sel flags) = bas"
  by (rule bit_word_eqI)
     (auto simp: idt_offset_def gate_def bit_simps bit_masks)

lemma idt_default_loop:
  assumes "length idt = 256"
  shows "for_each (\<lambda>i idt. idt_set (of_nat i) h 0x08 0x8E idt) [0..<256] idt =
         Some (replicate 256 (gate h 0x08 0x8E))"
proof -
  let ?g = "\<lambda>i. replicate i (gate h 0x08 0x8E) @ drop i idt"
  have "for_each (\<lambda>i idt. idt_set (of_nat i) h 0x08 0x8E idt) [0..<256] (?g 0) = Some (?g 256)"
  proof (rule for_each_upt)
    fix i :: nat
    assume i: "i < 256"
    have "unat (of_nat i :: u8) = i" using i by (simp add: word_nat)
    then have "idt_set (of_nat i) h 0x08 0x8E (?g i) = Some ((?g i)[i := gate h 0x08 0x8E])"
      using assms i by (simp add: idt_set_eq)
    moreover have "(?g i)[i := gate h 0x08 0x8E] = ?g (Suc i)"
      using i assms by (simp add: list_update_append Cons_nth_drop_Suc [symmetric] replicate_append_same)
    ultimately show "idt_set (of_nat i) h 0x08 0x8E (?g i) = Some (?g (Suc i))" by simp
  qed
  then show ?thesis using assms by simp
qed

section \<open>Properties\<close>

text \<open>
  C33: The pieces \<open>gdt_set\<close> scatters over an entry are the ones the processor puts together again:
  the base comes back exactly, the limit modulo 2^20, and the flag half of the granularity byte
  and the access byte are stored unchanged.
\<close>

theorem gdt_set_roundtrip:
  assumes "i < length gdt"
  shows "\<exists>gdt'. gdt_set i bas limit access gran gdt = Some gdt' \<and> length gdt' = length gdt \<and>
     gdt_base (gdt' ! i) = bas \<and> gdt_raw_limit (gdt' ! i) = take_bit 20 limit \<and>
     g_access (gdt' ! i) = access \<and> g_granularity (gdt' ! i) AND 0xF0 = gran AND 0xF0 \<and>
     (\<forall>j. j \<noteq> i \<longrightarrow> gdt' ! j = gdt ! j)"
proof -
  let ?e = "\<lparr>g_limit_low = ucast (limit AND 0xFFFF), g_base_low = ucast (bas AND 0xFFFF),
     g_base_mid = ucast (drop_bit 16 bas AND 0xFF), g_access = access,
     g_granularity = ucast (drop_bit 16 limit AND 0x0F) OR (gran AND 0xF0),
     g_base_high = ucast (drop_bit 24 bas AND 0xFF)\<rparr>"
  have "gdt_base ?e = bas"
  proof (rule bit_word_eqI)
    fix n assume "n < LENGTH(32)"
    then show "bit (gdt_base ?e) n = bit bas n"
      by (cases "n < 16"; cases "n < 24") (auto simp: gdt_base_def bit_simps bit_masks)
  qed
  moreover have "gdt_raw_limit ?e = take_bit 20 limit"
    by (rule bit_word_eqI) (auto simp: gdt_raw_limit_def bit_simps bit_masks)
  moreover have "g_granularity ?e AND 0xF0 = gran AND 0xF0"
    by (rule bit_word_eqI) (auto simp: bit_simps bit_masks)
  ultimately show ?thesis using assms by (simp add: gdt_set_eq)
qed

lemma gdt_set_roundtrip_witness:
  "\<exists>gdt'. gdt_set 0 0x12345678 0xABCDE 0x9A 0xC0 [\<lparr>g_limit_low = 0, g_base_low = 0, g_base_mid = 0,
        g_access = 0, g_granularity = 0, g_base_high = 0\<rparr>] = Some gdt' \<and>
     gdt_base (gdt' ! 0) = 0x12345678 \<and> gdt_raw_limit (gdt' ! 0) = 0xABCDE"
  using gdt_set_roundtrip [of 0 "[\<lparr>g_limit_low = 0, g_base_low = 0, g_base_mid = 0,
        g_access = 0, g_granularity = 0, g_base_high = 0\<rparr>]" "0x12345678" "0xABCDE" "0x9A" "0xC0"]
  by (auto simp: take_bit_eq_mask mask_eq_exp_minus_1)

text \<open>
  \<open>gdt_init\<close> and \<open>idt_init\<close> build the tables the processor needs: a null entry and two flat
  4GB ring-0 segments, code and data, at the selectors that \<open>gdt_flush\<close> loads and every interrupt
  gate uses; all 256 vectors lead to the default stub but 32 (timer) and 33 (keyboard), as
  present 32-bit interrupt gates; the two table limits are 23 and 2047.
\<close>

theorem descriptor_tables:
  assumes "length gdt = 3" and "length idt = 256"
  shows "\<exists>g c1 d c2. gdt_init ga gdt c = Some (g, c1) \<and>
     idt_init ia def tim kbd idt c1 = Some (d, pic_remap, c2) \<and>
     gp_limit (gdtr c2) = 23 \<and> gp_base (gdtr c2) = ga \<and> gp_limit (idtr c2) = 2047 \<and> gp_base (idtr c2) = ia \<and>
     gdt_limit (g ! 0) = 0 \<and> g_access (g ! 0) = 0 \<and>
     (\<forall>k \<in> {1, 2}. gdt_base (g ! k) = 0 \<and> gdt_limit (g ! k) = 0xFFFFFFFF) \<and>
     g_access (g ! 1) = 0x9A \<and> g_access (g ! 2) = 0x92 \<and> unat (cs c2) = 8 * 1 \<and> unat (data_segs c2) = 8 * 2 \<and>
     length d = 256 \<and> int_enabled c2 \<and>
     (\<forall>v < 256. i_selector (d ! v) = cs c2 \<and> i_flags (d ! v) = 0x8E \<and>
        idt_offset (d ! v) = (if v = 32 then tim else if v = 33 then kbd else def))"
proof -
  obtain a b e where gdt: "gdt = [a, b, e]"
    using assms(1) by (auto simp: length_Suc_conv numeral_3_eq_3)
  let ?g = "\<lambda>l acc gran. \<lparr>g_limit_low = ucast (l AND 0xFFFF :: u32), g_base_low = ucast (0 AND 0xFFFF :: u32),
     g_base_mid = ucast (drop_bit 16 0 AND 0xFF :: u32), g_access = acc,
     g_granularity = ucast (drop_bit 16 l AND 0x0F) OR (gran AND 0xF0),
     g_base_high = ucast (drop_bit 24 0 AND 0xFF :: u32)\<rparr> :: gdt_entry"
  define gs where "gs = [?g 0 0 0, ?g 0xFFFFFFFF 0x9A 0xCF, ?g 0xFFFFFFFF 0x92 0xCF]"
  define c1 where "c1 = gdt_flush \<lparr>gp_limit = 23, gp_base = ga\<rparr> c"
  define c2 where "c2 = idt_flush \<lparr>gp_limit = 2047, gp_base = ia\<rparr> c1"
  define d where "d = (replicate 256 (gate def 0x08 0x8E))
      [32 := gate tim 0x08 0x8E, 33 := gate kbd 0x08 0x8E, 46 := gate def 0x08 0x8E]"
  have init: "gdt_init ga gdt c = Some (gs, c1)" "idt_init ia def tim kbd idt c1 = Some (d, pic_remap, c2)"
    using assms(2)
    by (simp_all add: gdt_init_def gdt gdt_set_eq gs_def c1_def idt_init_def idt_default_loop idt_set_eq
        d_def c2_def Let_def)
  have regs: "gp_limit (gdtr c2) = 23" "gp_base (gdtr c2) = ga" "gp_limit (idtr c2) = 2047"
    "gp_base (idtr c2) = ia" "cs c2 = 8" "data_segs c2 = 16" "int_enabled c2"
    by (simp_all add: c2_def c1_def gdt_flush_def idt_flush_def)
  have segs: "gdt_limit (gs ! 0) = 0" "g_access (gs ! 0) = 0" "g_access (gs ! 1) = 0x9A" "g_access (gs ! 2) = 0x92"
    "gdt_base (gs ! 1) = 0" "gdt_base (gs ! 2) = 0" "gdt_limit (gs ! 1) = 0xFFFFFFFF" "gdt_limit (gs ! 2) = 0xFFFFFFFF"
    by (simp_all add: gs_def gdt_limit_def gdt_raw_limit_def gdt_base_def)
  have gates: "d ! v = gate (if v = 32 then tim else if v = 33 then kbd else def) 0x08 0x8E" if "v < 256" for v
    using that by (auto simp: d_def nth_list_update)
  have fields: "i_selector (gate b 0x08 0x8E) = 8" "i_flags (gate b 0x08 0x8E) = 0x8E" for b
    by (simp_all add: gate_def)
  have "length d = 256" by (simp add: d_def)
  with init regs segs gates show ?thesis
    apply (rule_tac x = gs in exI)
    apply (rule_tac x = c1 in exI)
    apply (rule_tac x = d in exI)
    apply (rule_tac x = c2 in exI)
    apply (simp add: idt_offset_gate fields)
    done
qed

lemma descriptor_tables_witness:
  "\<exists>c1 d c2. idt_init 0x5000 0x100 0x200 0x300 (replicate 256 (gate 0 0 0)) c1 = Some (d, pic_remap, c2) \<and>
     (\<forall>v < 256. idt_offset (d ! v) = (if v = 32 then 0x200 else if v = 33 then 0x300 else 0x100))"
  using descriptor_tables [of "replicate 3 \<lparr>g_limit_low = 0, g_base_low = 0, g_base_mid = 0,
        g_access = 0, g_granularity = 0, g_base_high = 0\<rparr>" "replicate 256 (gate 0 0 0)" "0x4000"
        undefined "0x5000" "0x100" "0x200" "0x300"]
  by (simp only: length_replicate) blast

end
