(* ===== verification/Console.thy ===== *)
theory Console
  imports Prelude
begin

text \<open>
  Keyboard and terminal, \<^verbatim>\<open>kernel/isr.c\<close>: the ring buffer between the keyboard interrupt and the
  timer interrupt, the line editor, and the text screen.  The screen memory at 0xB8000 is a map
  from cell numbers \<open>row * 80 + col\<close> to 16-bit cells, colour in the high byte.  The record
  \<open>console\<close> is extensible: the whole kernel state of the other theories extends it, so the
  operations here act on that state directly.  The C variables \<open>row\<close> and \<open>col\<close> never become
  negative and are natural numbers.
\<close>

section \<open>State\<close>

type_synonym vgamem = "nat \<Rightarrow> u16"

record console =
  vga :: vgamem
  cur_row :: nat
  cur_col :: nat
  shift_held :: bool
  cursor_visible :: bool
  input_buf :: "u8 list"
  buf_pos :: u8
  scancode_buffer :: "u8 list"
  scancode_head :: u8
  scancode_tail :: u8

definition BUF_SIZE :: nat where "BUF_SIZE = 256"

definition SCANCODE_BUFFER_SIZE :: u8 where "SCANCODE_BUFFER_SIZE = 16"

text \<open>String literals: the bytes, and the bytes with the terminating NUL.\<close>

definition lit :: "string \<Rightarrow> u8 list" where "lit s = map of_char s"

definition cstr :: "string \<Rightarrow> u8 list" where "cstr s = lit s @ [0]"

definition cell :: "u8 \<Rightarrow> u8 \<Rightarrow> u16" where
  "cell color c = push_bit 8 (ucast color) OR ucast c"

section \<open>The scancode ring\<close>

definition scancode_push :: "u8 \<Rightarrow> 'a console_scheme \<Rightarrow> 'a console_scheme option" where
  "scancode_push scancode s = do {
     let next_head = (scancode_head s + 1) mod SCANCODE_BUFFER_SIZE;
     if next_head = scancode_tail s then Some s
     else do {
       b \<leftarrow> arr_set (scancode_buffer s) (unat (scancode_head s)) scancode;
       Some (s\<lparr>scancode_buffer := b, scancode_head := next_head\<rparr>) } }"

text \<open>\<open>Some\<close> the scancode where the C function stores it in \<open>*out\<close> and returns 1, \<open>None\<close> where it returns 0.\<close>

definition scancode_pop :: "'a console_scheme \<Rightarrow> (u8 option \<times> 'a console_scheme) option" where
  "scancode_pop s =
     (if scancode_head s = scancode_tail s then Some (None, s)
      else do {
        sc \<leftarrow> arr_get (scancode_buffer s) (unat (scancode_tail s));
        Some (Some sc, s\<lparr>scancode_tail := (scancode_tail s + 1) mod SCANCODE_BUFFER_SIZE\<rparr>) })"

definition keyboard_handler :: "u8 \<Rightarrow> 'a console_scheme \<Rightarrow> 'a console_scheme option" where
  "keyboard_handler port60 s = scancode_push port60 s"

section \<open>The screen\<close>

text \<open>\<open>print\<close> of \<^verbatim>\<open>isr.c\<close>, and the static \<open>print\<close> of the other files, which handles newlines and tabs.\<close>

fun print_isr :: "u8 list \<Rightarrow> nat \<Rightarrow> nat \<Rightarrow> u8 \<Rightarrow> vgamem \<Rightarrow> vgamem option" where
  "print_isr [] row col color v = None"
| "print_isr (c # cs) row col color v =
     (if c = 0 then Some v else print_isr cs row (col + 1) color (v(row * 80 + col := cell color c)))"

fun kprint :: "u8 list \<Rightarrow> nat \<Rightarrow> nat \<Rightarrow> u8 \<Rightarrow> vgamem \<Rightarrow> vgamem option" where
  "kprint [] row col_pos color v = None"
| "kprint (c # cs) row col_pos color v =
     (if c = 0 then Some v
      else if c = 10 then kprint cs (row + 1) 0 color v
      else if c = 9 then kprint cs row (col_pos + 4) color v
      else kprint cs row (col_pos + 1) color (v(row * 80 + col_pos := cell color c)))"

definition blank :: u16 where "blank = cell 0x07 0x20"

definition clear_screen :: "'a console_scheme \<Rightarrow> 'a console_scheme option" where
  "clear_screen s = do {
     let v = fold (\<lambda>i v. fold (\<lambda>j v. v(i * 80 + j := blank)) [0..<80] v) [2..<23] (vga s);
     v \<leftarrow> print_isr (cstr ''PrajnaOS>'') 2 0 0x03 v;
     Some (s\<lparr>vga := v, cur_col := 9, cur_row := 2\<rparr>) }"

definition scroll_cells :: "vgamem \<Rightarrow> vgamem" where
  "scroll_cells v =
     (let v = fold (\<lambda>i v. fold (\<lambda>j v. v((i - 1) * 80 + j := v (i * 80 + j))) [0..<80] v) [9..<23] v
      in fold (\<lambda>j v. v(22 * 80 + j := blank)) [0..<80] v)"

definition scroll :: "'a console_scheme \<Rightarrow> 'a console_scheme" where
  "scroll s = s\<lparr>vga := scroll_cells (vga s), cur_row := 22\<rparr>"

definition blink :: "'a console_scheme \<Rightarrow> 'a console_scheme" where
  "blink s = s\<lparr>vga := (vga s)(cur_row s * 80 + cur_col s :=
                  (if cursor_visible s then cell 0x02 0x5F else blank)),
               cursor_visible := \<not> cursor_visible s\<rparr>"

text \<open>The loop of the tab: fill up to the tab stop, never past the last column.\<close>

function tab_fill :: "nat \<Rightarrow> u8 \<Rightarrow> nat \<Rightarrow> nat \<Rightarrow> vgamem \<Rightarrow> nat \<times> vgamem" where
  "tab_fill nxt color row col v =
     (if col < nxt \<and> col < 80 then tab_fill nxt color row (col + 1) (v(row * 80 + col := cell color 0x20))
      else (col, v))"
  by pat_completeness auto

termination by (relation "measure (\<lambda>(nxt, color, row, col, v). 80 - col)") auto

declare tab_fill.simps [simp del]

definition put_char :: "u8 \<Rightarrow> u8 \<Rightarrow> 'a console_scheme \<Rightarrow> 'a console_scheme" where
  "put_char c color s =
     (let color = (if color = 0 then 0x07 else color) in
      if c = 10 then
        (let s = s\<lparr>cur_row := cur_row s + 1, cur_col := 0\<rparr>
         in if 23 \<le> cur_row s then scroll s else s)
      else if c = 9 then
        (let nxt = (cur_col s + 4) div 4 * 4;
             (col, v) = tab_fill nxt color (cur_row s) (cur_col s) (vga s)
         in s\<lparr>vga := v, cur_col := col\<rparr>)
      else if c = 8 then
        (if 0 < cur_col s
         then (let s = s\<lparr>cur_col := cur_col s - 1\<rparr>
               in s\<lparr>vga := (vga s)(cur_row s * 80 + cur_col s := blank)\<rparr>)
         else s)
      else
        (let s = s\<lparr>vga := (vga s)(cur_row s * 80 + cur_col s := cell color c), cur_col := cur_col s + 1\<rparr>;
             s = (if 80 \<le> cur_col s then s\<lparr>cur_col := 0, cur_row := cur_row s + 1\<rparr> else s)
         in if 25 \<le> cur_row s then scroll s else s))"

section \<open>The line editor\<close>

definition keys_normal :: "u8 list" where
  "keys_normal = [0, 0] @ lit ''1234567890-='' @ [8, 9] @ lit ''qwertyuiop[]'' @ [10, 0] @
     lit ''asdfghjkl;'' @ [39, 96, 0, 92] @ lit ''zxcvbnm,./'' @ [0, 0, 0, 32]"

definition keys_shift :: "u8 list" where
  "keys_shift = [0, 0] @ lit ''!@#$%^&*()_+'' @ [8, 9] @ lit ''QWERTYUIOP{}'' @ [10, 0] @
     lit ''ASDFGHJKL:'' @ [34, 126, 0, 124] @ lit ''ZXCVBNM<>?'' @ [0, 0, 0, 32]"

definition process_scancode ::
    "(u8 list \<Rightarrow> 'a console_scheme \<Rightarrow> 'a console_scheme option) \<Rightarrow> u8 \<Rightarrow> 'a console_scheme \<Rightarrow>
     'a console_scheme option" where
  "process_scancode shell_handle scancode s =
     (if scancode = 0x2A \<or> scancode = 0x36 then Some (s\<lparr>shift_held := True\<rparr>)
      else if scancode = 0xAA \<or> scancode = 0xB6 then Some (s\<lparr>shift_held := False\<rparr>)
      else if scancode AND 0x80 \<noteq> 0 then Some s
      else let keys = (if shift_held s then keys_shift else keys_normal) in
        if unat scancode < length keys \<and> keys ! unat scancode \<noteq> 0 then
          (let c = keys ! unat scancode in
           if c = 8 then
             (if 0 < buf_pos s then do {
                let s = s\<lparr>buf_pos := buf_pos s - 1\<rparr>;
                b \<leftarrow> arr_set (input_buf s) (unat (buf_pos s)) 0;
                Some (put_char 8 0x07 (s\<lparr>input_buf := b\<rparr>)) }
              else Some s)
           else if c = 10 then do {
             b \<leftarrow> arr_set (input_buf s) (unat (buf_pos s)) 0;
             let s = put_char 10 0x07 (s\<lparr>input_buf := b\<rparr>);
             s \<leftarrow> shell_handle (input_buf s) s;
             Some (s\<lparr>buf_pos := 0\<rparr>) }
           else if unat (buf_pos s) < BUF_SIZE - 1 then do {
             b \<leftarrow> arr_set (input_buf s) (unat (buf_pos s)) c;
             Some (put_char c 0x07 (s\<lparr>input_buf := b, buf_pos := buf_pos s + 1\<rparr>)) }
           else Some s)
        else Some s)"

text \<open>The loop \<open>while (scancode_pop(&sc)) process_scancode(sc)\<close> of the timer interrupt.\<close>

partial_function (option) scancode_drain ::
    "(u8 \<Rightarrow> 'a console_scheme \<Rightarrow> 'a console_scheme option) \<Rightarrow> 'a console_scheme \<Rightarrow> 'a console_scheme option" where
  "scancode_drain process s = do {
     (r, s) \<leftarrow> scancode_pop s;
     case r of None \<Rightarrow> Some s
     | Some sc \<Rightarrow> do { s \<leftarrow> process sc s; scancode_drain process s } }"


section \<open>The scancode ring as a bounded queue\<close>

text \<open>
  The contract between the keyboard interrupt (producer) and the timer interrupt (consumer): a
  queue of bounded capacity that drops what does not fit.
\<close>

locale bounded_queue =
  fixes push :: "'e \<Rightarrow> 's \<Rightarrow> 's option"
    and pop :: "'s \<Rightarrow> ('e option \<times> 's) option"
    and contents :: "'s \<Rightarrow> 'e list"
    and ok :: "'s \<Rightarrow> bool"
    and capacity :: nat
  assumes bounded: "ok s \<Longrightarrow> length (contents s) \<le> capacity"
    and push_law: "ok s \<Longrightarrow> \<exists>s'. push x s = Some s' \<and> ok s' \<and>
       contents s' = (if length (contents s) < capacity then contents s @ [x] else contents s)"
    and pop_empty: "ok s \<Longrightarrow> contents s = [] \<Longrightarrow> pop s = Some (None, s)"
    and pop_law: "ok s \<Longrightarrow> contents s = x # xs \<Longrightarrow>
       \<exists>s'. pop s = Some (Some x, s') \<and> ok s' \<and> contents s' = xs"
begin

text \<open>Any number of pushes keeps the oldest \<open>capacity\<close> elements, in order.\<close>

lemma push_all:
  assumes "ok s"
  shows "\<exists>s'. for_each push xs s = Some s' \<and> ok s' \<and> contents s' = take capacity (contents s @ xs)"
  using assms
proof (induction xs arbitrary: s)
  case Nil
  then show ?case using bounded [of s] by simp
next
  case (Cons x xs)
  obtain s1 where s1: "push x s = Some s1" "ok s1"
    "contents s1 = (if length (contents s) < capacity then contents s @ [x] else contents s)"
    using push_law [OF Cons.prems] by blast
  from Cons.IH [OF s1(2)] obtain s' where s': "for_each push xs s1 = Some s'" "ok s'"
    "contents s' = take capacity (contents s1 @ xs)" by blast
  have "take capacity (contents s1 @ xs) = take capacity (contents s @ x # xs)"
    using bounded [OF Cons.prems] s1(3) by (auto simp: take_Cons')
  then show ?case using s1(1) s' by auto
qed

end

text \<open>A bounded queue with a drain loop: the consumer runs until the queue is empty.\<close>

locale drained_queue = bounded_queue +
  fixes drain :: "('e \<Rightarrow> 's \<Rightarrow> 's option) \<Rightarrow> 's \<Rightarrow> 's option"
  assumes drain_unfold: "drain process s = do {
     (r, s) \<leftarrow> pop s;
     case r of None \<Rightarrow> Some s | Some x \<Rightarrow> do { s \<leftarrow> process x s; drain process s } }"
begin

text \<open>
  While handling an element neither fails nor touches the queue, the loop has handled
  exactly the elements in front, oldest first: \<open>view\<close> of the state has gone through one step \<open>f\<close>
  per element.
\<close>

lemma drain_prefix:
  assumes "ok s" and "I s" and "contents s = xs @ ys" and "set xs \<subseteq> X"
    and step: "\<And>x s. ok s \<Longrightarrow> I s \<Longrightarrow> x \<in> X \<Longrightarrow> \<exists>s'. process x s = Some s' \<and> ok s' \<and>
      contents s' = contents s \<and> I s' \<and> view s' = f x (view s)"
    and unseen: "\<And>s t x. pop s = Some (Some x, t) \<Longrightarrow> I s \<Longrightarrow> I t \<and> view t = view s"
  shows "\<exists>t. drain process s = drain process t \<and> ok t \<and> contents t = ys \<and> I t \<and> view t = fold f xs (view s)"
  using assms(1-4)
proof (induction xs arbitrary: s)
  case Nil
  then show ?case by auto
next
  case (Cons x xs)
  from pop_law [OF Cons.prems(1), of x "xs @ ys"] Cons.prems(3) obtain s1 where
    s1: "pop s = Some (Some x, s1)" "ok s1" "contents s1 = xs @ ys" by auto
  have I1: "I s1" "view s1 = view s" using unseen [OF s1(1) Cons.prems(2)] by auto
  have X: "x \<in> X" "set xs \<subseteq> X" using Cons.prems(4) by simp_all
  with step [OF s1(2) I1(1)] obtain s2 where s2: "process x s1 = Some s2" "ok s2" "contents s2 = xs @ ys"
    "I s2" "view s2 = f x (view s)"
    using s1(3) I1(2) by metis
  from Cons.IH [OF s2(2,4,3) X(2)] obtain t where
    t: "drain process s2 = drain process t" "ok t" "contents t = ys" "I t" "view t = fold f xs (view s2)" by blast
  have "drain process s = drain process s2" using s1(1) s2(1) by (subst drain_unfold) simp
  then show ?case using t s2(5) by auto
qed

text \<open>If that holds of all queued elements, the loop ends.\<close>

lemma drain_all:
  assumes "ok s" and "I s" and "set (contents s) \<subseteq> X"
    and step: "\<And>x s. ok s \<Longrightarrow> I s \<Longrightarrow> x \<in> X \<Longrightarrow> \<exists>s'. process x s = Some s' \<and> ok s' \<and>
      contents s' = contents s \<and> I s' \<and> view s' = f x (view s)"
    and unseen: "\<And>s t x. pop s = Some (Some x, t) \<Longrightarrow> I s \<Longrightarrow> I t \<and> view t = view s"
  shows "\<exists>s'. drain process s = Some s' \<and> ok s' \<and> contents s' = [] \<and> I s' \<and>
    view s' = fold f (contents s) (view s)"
proof -
  have "\<exists>t. drain process s = drain process t \<and> ok t \<and> contents t = [] \<and> I t \<and> view t = fold f (contents s) (view s)"
    by (rule drain_prefix [where I = I and view = view and process = process, OF assms(1,2) _ assms(3) step unseen]) simp_all
  then obtain t where
    t: "drain process s = drain process t" "ok t" "contents t = []" "I t" "view t = fold f (contents s) (view s)" by blast
  have "drain process t = Some t" using pop_empty [OF t(2,3)] by (subst drain_unfold) simp
  then show ?thesis using t by auto
qed

end

definition ring_ok :: "'a console_scheme \<Rightarrow> bool" where
  "ring_ok s \<longleftrightarrow> length (scancode_buffer s) = 16 \<and> scancode_head s < 16 \<and> scancode_tail s < 16"

definition ring_len :: "'a console_scheme \<Rightarrow> nat" where
  "ring_len s = (unat (scancode_head s) + 16 - unat (scancode_tail s)) mod 16"

definition ring :: "'a console_scheme \<Rightarrow> u8 list" where
  "ring s = map (\<lambda>k. scancode_buffer s ! ((unat (scancode_tail s) + k) mod 16)) [0..<ring_len s]"

lemma mod16: "(a :: nat) < 32 \<Longrightarrow> a mod 16 = (if a < 16 then a else a - 16)"
  by (simp add: le_mod_geq)

text \<open>Distances on the ring, as \<open>unsigned\<close> arithmetic modulo 16 computes them.\<close>

lemma ring_distance:
  assumes "h < 16" and "t < (16 :: nat)"
  shows "(h + 16 - t) mod 16 = (if t \<le> h then h - t else h + 16 - t)"
  using assms by (simp add: mod16)

lemma ring_suc: "h < (16 :: nat) \<Longrightarrow> (h + 1) mod 16 = (if h = 15 then 0 else h + 1)"
  by (simp add: mod16)

lemma ring_distance_push:
  assumes "h < 16" and "t < (16 :: nat)" and "(h + 1) mod 16 \<noteq> t"
  shows "((h + 1) mod 16 + 16 - t) mod 16 = Suc ((h + 16 - t) mod 16)"
proof (cases "h = 15")
  case True
  then have "0 < t" "(h + 1) mod 16 = 0" using assms by simp_all
  then show ?thesis using assms(2) True ring_distance [OF assms(1,2)] by (simp add: mod16)
next
  case False
  then have "h + 1 < 16" "(h + 1) mod 16 = h + 1" using assms(1) by simp_all
  then show ?thesis
    using assms(3) ring_distance [OF assms(1,2)] ring_distance [OF \<open>h + 1 < 16\<close> assms(2)] assms(2)
    by (simp split: if_splits)
qed

lemma ring_distance_pop:
  assumes "h < 16" and "t < (16 :: nat)" and "h \<noteq> t"
  shows "(h + 16 - t) mod 16 = Suc ((h + 16 - (t + 1) mod 16) mod 16)"
proof (cases "t = 15")
  case True
  then have "(t + 1) mod 16 = 0" by simp
  then show ?thesis using assms True ring_distance [OF assms(1,2)] by simp
next
  case False
  then have "t + 1 < 16" "(t + 1) mod 16 = t + 1" using assms(2) by simp_all
  then show ?thesis
    using assms(3) ring_distance [OF assms(1,2)] ring_distance [OF assms(1) \<open>t + 1 < 16\<close>] assms(1)
    by (simp split: if_splits)
qed

lemma u8_next: "(i :: u8) < 16 \<Longrightarrow> unat ((i + 1) mod SCANCODE_BUFFER_SIZE) = (unat i + 1) mod 16"
  by (simp add: SCANCODE_BUFFER_SIZE_def unat_mod unat_word_ariths word_less_nat_alt)

lemma u8_next_less: "(i :: u8) mod SCANCODE_BUFFER_SIZE < 16"
  by (simp add: SCANCODE_BUFFER_SIZE_def word_less_nat_alt unat_mod)

lemma ring_push:
  assumes "ring_ok s"
  shows "\<exists>s'. scancode_push x s = Some s' \<and> ring_ok s' \<and>
     ring s' = (if length (ring s) < 15 then ring s @ [x] else ring s)"
proof -
  obtain h t where ht: "unat (scancode_head s) = h" "unat (scancode_tail s) = t" "h < 16" "t < 16"
    using assms by (auto simp: ring_ok_def word_less_nat_alt)
  have full: "(scancode_head s + 1) mod SCANCODE_BUFFER_SIZE = scancode_tail s \<longleftrightarrow> (h + 1) mod 16 = t"
    using u8_next [of "scancode_head s"] assms ht by (simp add: unsigned_word_eqI ring_ok_def word_unat_eq_iff)
  have len: "length (ring s) = (h + 16 - t) mod 16" by (simp add: ring_def ring_len_def ht)
  have full_len: "(h + 1) mod 16 = t \<longleftrightarrow> \<not> (h + 16 - t) mod 16 < 15"
    using ht(3,4) by (auto simp: mod16)
  show ?thesis
  proof (cases "(h + 1) mod 16 = t")
    case True
    then show ?thesis using assms len full full_len by (simp add: scancode_push_def)
  next
    case False
    let ?s = "s\<lparr>scancode_buffer := (scancode_buffer s)[h := x],
                scancode_head := (scancode_head s + 1) mod SCANCODE_BUFFER_SIZE\<rparr>"
    have push: "scancode_push x s = Some ?s"
      using False full assms ht by (simp add: scancode_push_def ring_ok_def)
    have hd': "unat ((scancode_head s + 1) mod SCANCODE_BUFFER_SIZE) = (h + 1) mod 16"
      using u8_next [of "scancode_head s"] assms ht by (simp add: ring_ok_def)
    have rl: "ring_len ?s = Suc (ring_len s)"
      using ring_distance_push [OF ht(3,4) False] by (simp add: ring_len_def hd' ht)
    have slot: "(t + ring_len s) mod 16 = h"
    proof (cases "t \<le> h")
      case False
      then have "t + (h + 16 - t) = h + 16" using ht(4) by simp
      then show ?thesis using False ring_distance [OF ht(3,4)] ht(3) by (simp add: ring_len_def ht)
    qed (use ring_distance [OF ht(3,4)] ht(3) in \<open>simp add: ring_len_def ht\<close>)
    have old: "(t + k) mod 16 \<noteq> h" if "k < ring_len s" for k
    proof -
      have "k < (if t \<le> h then h - t else h + 16 - t)"
        using that ring_distance [OF ht(3,4)] by (simp add: ring_len_def ht)
      then show ?thesis using ht(3,4) mod16 [of "t + k"] by (auto split: if_splits)
    qed
    have "ring ?s = ring s @ [x]"
    proof -
      have "(scancode_buffer s)[h := x] ! ((t + k) mod 16) = scancode_buffer s ! ((t + k) mod 16)"
        if "k < ring_len s" for k using old [OF that] by simp
      moreover have "(scancode_buffer s)[h := x] ! ((t + ring_len s) mod 16) = x"
        using slot assms ht(3) by (simp add: ring_ok_def)
      ultimately show ?thesis by (auto simp: ring_def rl ht)
    qed
    then show ?thesis
      using push False full_len len assms by (auto simp: ring_ok_def u8_next_less)
  qed
qed

lemma ring_pop:
  assumes "ring_ok s"
  shows "ring s = [] \<Longrightarrow> scancode_pop s = Some (None, s)"
    and "ring s = x # xs \<Longrightarrow> \<exists>s'. scancode_pop s = Some (Some x, s') \<and> ring_ok s' \<and> ring s' = xs"
proof -
  obtain h t where ht: "unat (scancode_head s) = h" "unat (scancode_tail s) = t" "h < 16" "t < 16"
    using assms by (auto simp: ring_ok_def word_less_nat_alt)
  have empty: "scancode_head s = scancode_tail s \<longleftrightarrow> h = t" using ht by (simp add: word_unat_eq_iff)
  have len: "length (ring s) = (h + 16 - t) mod 16" by (simp add: ring_def ring_len_def ht)
  show "scancode_pop s = Some (None, s)" if "ring s = []"
  proof -
    have "(h + 16 - t) mod 16 = 0" using len that by simp
    then have "h = t" using ht(3,4) by (auto simp: mod16 split: if_splits)
    then show ?thesis using empty by (simp add: scancode_pop_def)
  qed
  show "\<exists>s'. scancode_pop s = Some (Some x, s') \<and> ring_ok s' \<and> ring s' = xs" if cons: "ring s = x # xs"
  proof -
    have ne: "h \<noteq> t" using len cons ht(4) by auto
    let ?s = "s\<lparr>scancode_tail := (scancode_tail s + 1) mod SCANCODE_BUFFER_SIZE\<rparr>"
    have tl': "unat ((scancode_tail s + 1) mod SCANCODE_BUFFER_SIZE) = (t + 1) mod 16"
      using u8_next [of "scancode_tail s"] assms ht by (simp add: ring_ok_def)
    have rl: "ring_len s = Suc (ring_len ?s)"
      using ring_distance_pop [OF ht(3,4) ne] by (simp add: ring_len_def tl' ht)
    have "ring s = scancode_buffer s ! t # ring ?s"
      using ht(4) by (simp add: ring_def rl tl' ht mod_simps upt_conv_Cons map_Suc_upt [symmetric]
          del: upt_Suc add: comp_def)
    then have "scancode_buffer s ! t = x" "ring ?s = xs" using cons by auto
    moreover have "scancode_pop s = Some (Some (scancode_buffer s ! t), ?s)"
      using ne empty assms ht by (simp add: scancode_pop_def ring_ok_def)
    ultimately show ?thesis using assms by (auto simp: ring_ok_def u8_next_less)
  qed
qed

lemma ring_bounded: "length (ring s) \<le> 15"
proof -
  have "ring_len s < 16" by (simp add: ring_len_def)
  then show ?thesis by (simp add: ring_def)
qed

interpretation kbd: drained_queue scancode_push scancode_pop ring ring_ok 15 scancode_drain
proof (unfold_locales, goal_cases)
  case (1 s) show ?case by (rule ring_bounded)
next
  case (2 s x) then show ?case by (rule ring_push)
next
  case (3 s) then show ?case by (rule ring_pop)
next
  case (4 s x xs) then show ?case by (rule ring_pop)
next
  case (5 process s) show ?case by (rule scancode_drain.simps)
qed


section \<open>The screen: closed forms and the cursor invariant\<close>

lemma fold_fill:
  "fold (\<lambda>j v. v(b + j := x)) [0..<k] v = (\<lambda>n. if b \<le> n \<and> n < b + k then x else v n)"
  by (induction k) (auto simp: fun_eq_iff less_Suc_eq)

lemma fold_copy_up:
  assumes "k \<le> 80"
  shows "fold (\<lambda>j v. v(b + j := v (b + 80 + j))) [0..<k] v =
     (\<lambda>n. if b \<le> n \<and> n < b + k then v (n + 80) else v n)"
  using assms
proof (induction k)
  case (Suc k)
  let ?F = "\<lambda>n. if b \<le> n \<and> n < b + k then v (n + 80) else v n"
  have "fold (\<lambda>j v. v(b + j := v (b + 80 + j))) [0..<k] v = ?F" by (rule Suc.IH) (use Suc.prems in simp)
  then have "fold (\<lambda>j v. v(b + j := v (b + 80 + j))) [0..<Suc k] v = ?F(b + k := ?F (b + 80 + k))"
    by simp
  also have "\<dots> = (\<lambda>n. if b \<le> n \<and> n < b + Suc k then v (n + 80) else v n)"
    using Suc.prems by (intro ext) (auto simp: less_Suc_eq add_ac)
  finally show ?case .
qed (auto simp: fun_eq_iff)

lemma scroll_cells_eq:
  "scroll_cells v = (\<lambda>n. if 640 \<le> n \<and> n < 1760 then v (n + 80)
                       else if 1760 \<le> n \<and> n < 1840 then blank else v n)"
proof -
  let ?row = "\<lambda>i v. fold (\<lambda>j v. v((i - 1) * 80 + j := v (i * 80 + j))) [0..<80] v"
  have row: "?row i w = (\<lambda>n. if (i - 1) * 80 \<le> n \<and> n < i * 80 then w (n + 80) else w n)"
    if "0 < i" for i :: nat and w :: vgamem
    using that fold_copy_up [of 80 "(i - 1) * 80" w] by (cases i) (auto simp: fun_eq_iff add_ac)
  have "fold ?row [9..<9 + m] v = (\<lambda>n. if 640 \<le> n \<and> n < 640 + m * 80 then v (n + 80) else v n)" for m
  proof (induction m)
    case (Suc m)
    have "fold ?row [9..<9 + Suc m] v = ?row (9 + m) (fold ?row [9..<9 + m] v)"
      using upt_Suc_append [of 9 "9 + m"] by (simp only: add_Suc_right le_add1 fold_append fold.simps comp_def id_apply)
    also have "\<dots> = (\<lambda>n. if 640 + m * 80 \<le> n \<and> n < 720 + m * 80 then fold ?row [9..<9 + m] v (n + 80)
        else fold ?row [9..<9 + m] v n)"
      by (subst row) (auto simp: algebra_simps)
    also have "\<dots> = (\<lambda>n. if 640 \<le> n \<and> n < 640 + Suc m * 80 then v (n + 80) else v n)"
      unfolding Suc.IH by (intro ext) auto
    finally show ?case .
  qed (auto simp: fun_eq_iff)
  from this [of 14] show ?thesis
    unfolding scroll_cells_def Let_def using fold_fill [of 1760 blank 80]
    by (simp add: fun_eq_iff)
qed

lemma tab_fill_eq:
  "tab_fill nxt color row col v =
     (max col (min nxt 80), \<lambda>n. if row * 80 + col \<le> n \<and> n < row * 80 + min nxt 80 then cell color 0x20 else v n)"
proof (induction nxt color row col v rule: tab_fill.induct)
  case (1 nxt color row col v)
  show ?case
  proof (cases "col < nxt \<and> col < 80")
    case True
    then have "tab_fill nxt color row col v = (max (col + 1) (min nxt 80),
        \<lambda>n. if row * 80 + (col + 1) \<le> n \<and> n < row * 80 + min nxt 80 then cell color 0x20
            else (v(row * 80 + col := cell color 0x20)) n)"
      by (subst tab_fill.simps) (simp only: if_True 1 [OF True] simp_thms True)
    moreover have "(\<lambda>n. if row * 80 + (col + 1) \<le> n \<and> n < row * 80 + min nxt 80 then cell color 0x20
            else (v(row * 80 + col := cell color 0x20)) n) =
        (\<lambda>n. if row * 80 + col \<le> n \<and> n < row * 80 + min nxt 80 then cell color 0x20 else v n)"
      using True by (intro ext) auto
    ultimately show ?thesis using True by simp
  next
    case False
    then have "(\<lambda>n. if row * 80 + col \<le> n \<and> n < row * 80 + min nxt 80 then cell color 0x20 else v n) = v"
      by (intro ext) auto
    then show ?thesis using False by (subst tab_fill.simps) auto
  qed
qed

definition cursor_ok :: "'a console_scheme \<Rightarrow> bool" where
  "cursor_ok s \<longleftrightarrow> 2 \<le> cur_row s \<and> cur_row s \<le> 24 \<and> cur_col s \<le> 80"

text \<open>The part of the console the screen operations leave alone.\<close>

definition same_keyboard :: "'a console_scheme \<Rightarrow> 'a console_scheme \<Rightarrow> bool" where
  "same_keyboard s s' \<longleftrightarrow> s' = s\<lparr>vga := vga s', cur_row := cur_row s', cur_col := cur_col s'\<rparr>"

lemma put_char_keyboard: "same_keyboard s (put_char c color s)"
  by (simp add: same_keyboard_def put_char_def Let_def scroll_def tab_fill_eq)

lemma put_char_cursor:
  assumes "cursor_ok s"
  shows "cursor_ok (put_char c color s)"
  using assms
  by (auto simp: put_char_def Let_def scroll_def cursor_ok_def tab_fill_eq)

text \<open>\<open>put_char\<close>, one equation per kind of character.\<close>

definition colour :: "u8 \<Rightarrow> u8" where "colour c = (if c = 0 then 0x07 else c)"

lemma put_char_newline:
  "put_char 10 color s = (if 22 \<le> cur_row s then scroll (s\<lparr>cur_row := cur_row s + 1, cur_col := 0\<rparr>)
                          else s\<lparr>cur_row := cur_row s + 1, cur_col := 0\<rparr>)"
  by (simp add: put_char_def Let_def)

lemma put_char_tab:
  "put_char 9 color s = s\<lparr>
     vga := (\<lambda>n. if cur_row s * 80 + cur_col s \<le> n \<and> n < cur_row s * 80 + min ((cur_col s + 4) div 4 * 4) 80
               then cell (colour color) 0x20 else vga s n),
     cur_col := max (cur_col s) (min ((cur_col s + 4) div 4 * 4) 80)\<rparr>"
  by (cases "color = 0") (simp_all add: put_char_def Let_def tab_fill_eq colour_def cong: if_cong)

lemma put_char_backspace:
  "put_char 8 color s = (if 0 < cur_col s
     then s\<lparr>vga := (vga s)(cur_row s * 80 + (cur_col s - 1) := blank), cur_col := cur_col s - 1\<rparr> else s)"
  by (simp add: put_char_def Let_def)

lemma put_char_plain:
  assumes "c \<notin> {8, 9, 10}"
  shows "put_char c color s =
    (let v = (vga s)(cur_row s * 80 + cur_col s := cell (colour color) c) in
     if cur_col s + 1 < 80 then
       (if 25 \<le> cur_row s then scroll (s\<lparr>vga := v, cur_col := cur_col s + 1\<rparr>)
        else s\<lparr>vga := v, cur_col := cur_col s + 1\<rparr>)
     else if 24 \<le> cur_row s then scroll (s\<lparr>vga := v, cur_col := 0, cur_row := cur_row s + 1\<rparr>)
     else s\<lparr>vga := v, cur_col := 0, cur_row := cur_row s + 1\<rparr>)"
  using assms by (simp add: put_char_def Let_def colour_def not_less)

lemma put_char_frame:
  assumes "cursor_ok s" and "n < 160 \<or> 2000 < n"
  shows "vga (put_char c color s) n = vga s n"
proof -
  have pos: "160 \<le> cur_row s * 80 + k" "cur_row s * 80 + k \<le> 2000" if "k \<le> 80" for k
    using assms(1) that by (auto simp: cursor_ok_def)
  consider "c = 10" | "c = 9" | "c = 8" | "c \<notin> {8, 9, 10}" by blast
  then show ?thesis
  proof cases
    case 1
    then show ?thesis using assms(2) by (auto simp: put_char_newline scroll_def scroll_cells_eq)
  next
    case 2
    then show ?thesis using assms(2) pos(1) [of "cur_col s"] pos(2) [of 80] assms(1)
      by (auto simp: put_char_tab cursor_ok_def)
  next
    case 3
    then show ?thesis using assms(2) pos [of "cur_col s - 1"] assms(1)
      by (auto simp: put_char_backspace cursor_ok_def)
  next
    case 4
    then show ?thesis using assms(2) pos [of "cur_col s"] assms(1)
      by (auto simp: put_char_plain Let_def cursor_ok_def scroll_def scroll_cells_eq)
  qed
qed


section \<open>The line editor: abstraction\<close>

text \<open>
  What a scancode means, given the shift state, and what it does to the line being typed: a line
  holds at most 255 characters; Enter hands it to the shell and starts an empty one.
\<close>

datatype key = Shift bool | Backspace | Enter | Character u8 | Ignored

definition key_of :: "bool \<Rightarrow> u8 \<Rightarrow> key" where
  "key_of shift sc =
     (if sc = 0x2A \<or> sc = 0x36 then Shift True
      else if sc = 0xAA \<or> sc = 0xB6 then Shift False
      else if 0x80 \<le> sc then Ignored
      else let keys = (if shift then keys_shift else keys_normal) in
        if unat sc < 58 then
          (let c = keys ! unat sc in
           if c = 0 then Ignored else if c = 8 then Backspace else if c = 10 then Enter else Character c)
        else Ignored)"

fun edit_line :: "key \<Rightarrow> u8 list \<Rightarrow> u8 list" where
  "edit_line Backspace l = butlast l"
| "edit_line (Character c) l = (if length l < 255 then l @ [c] else l)"
| "edit_line Enter l = []"
| "edit_line _ l = l"

definition line :: "'a console_scheme \<Rightarrow> u8 list" where
  "line s = take (unat (buf_pos s)) (input_buf s)"

definition editor_ok :: "'a console_scheme \<Rightarrow> bool" where
  "editor_ok s \<longleftrightarrow> length (input_buf s) = 256"

lemma keys_length: "length keys_normal = 58" "length keys_shift = 58"
  by (simp_all add: keys_normal_def keys_shift_def lit_def)

lemma keys_not_nul_in_line: "key_of shift sc = Character c \<Longrightarrow> c \<noteq> 0 \<and> c \<noteq> 8 \<and> c \<noteq> 10"
  by (auto simp: key_of_def Let_def split: if_splits)

lemma release_bit: "(sc :: u8) AND 0x80 \<noteq> 0 \<longleftrightarrow> 0x80 \<le> sc"
proof -
  have "sc AND 0x80 = sc AND 2 ^ 7" by simp
  then have "sc AND 0x80 = 0 \<longleftrightarrow> \<not> bit sc 7" by (simp only: and_mask_u8)
  moreover have "bit sc 7 \<longleftrightarrow> odd (unat sc div 128)"
  proof -
    have "bit sc 7 \<longleftrightarrow> bit (unat sc) 7" by (simp add: bit_unsigned_iff)
    then show ?thesis by (simp add: bit_iff_odd)
  qed
  moreover have "odd (unat sc div 128) \<longleftrightarrow> 128 \<le> unat sc"
  proof -
    have "unat sc < 256" using unsigned_less [of sc, where 'a = nat] by simp
    then have "unat sc div 128 = (if 128 \<le> unat sc then 1 else 0)" by (simp add: div_nat_eqI)
    then show ?thesis by simp
  qed
  ultimately show ?thesis by (simp add: word_le_nat_alt)
qed

lemma put_char_fields [simp]:
  "input_buf (put_char c col s) = input_buf s" "buf_pos (put_char c col s) = buf_pos s"
  "shift_held (put_char c col s) = shift_held s" "cursor_visible (put_char c col s) = cursor_visible s"
  "scancode_buffer (put_char c col s) = scancode_buffer s"
  "scancode_head (put_char c col s) = scancode_head s"
  "scancode_tail (put_char c col s) = scancode_tail s"
  "console.more (put_char c col s) = console.more s"
  by (simp_all add: put_char_def Let_def scroll_def tab_fill_eq)

lemma line_put_char [simp]: "line (put_char c col s) = line s"
  by (simp add: line_def)

lemma process_scancode_cases:
  "process_scancode sh sc s = (case key_of (shift_held s) sc of
     Shift b \<Rightarrow> Some (s\<lparr>shift_held := b\<rparr>)
   | Ignored \<Rightarrow> Some s
   | Backspace \<Rightarrow> (if 0 < buf_pos s then do {
         b \<leftarrow> arr_set (input_buf s) (unat (buf_pos s - 1)) 0;
         Some (put_char 8 0x07 (s\<lparr>buf_pos := buf_pos s - 1, input_buf := b\<rparr>)) }
       else Some s)
   | Enter \<Rightarrow> do {
         b \<leftarrow> arr_set (input_buf s) (unat (buf_pos s)) 0;
         s \<leftarrow> sh b (put_char 10 0x07 (s\<lparr>input_buf := b\<rparr>));
         Some (s\<lparr>buf_pos := 0\<rparr>) }
   | Character c \<Rightarrow> (if unat (buf_pos s) < 255 then do {
         b \<leftarrow> arr_set (input_buf s) (unat (buf_pos s)) c;
         Some (put_char c 0x07 (s\<lparr>input_buf := b, buf_pos := buf_pos s + 1\<rparr>)) }
       else Some s))"
  by (simp add: process_scancode_def key_of_def Let_def release_bit keys_length BUF_SIZE_def)


text \<open>One scancode, on the abstract line.\<close>

lemma buf_pos_less: "unat (buf_pos s) < 256"
  using unsigned_less [of "buf_pos s", where 'a = nat] by simp

lemma length_line: "editor_ok s \<Longrightarrow> length (line s) = unat (buf_pos s)"
  using buf_pos_less [of s] by (simp add: line_def editor_ok_def)

lemma process_scancode_line:
  assumes "editor_ok s" and "key_of (shift_held s) sc \<noteq> Enter"
  shows "\<exists>s'. process_scancode sh sc s = Some s' \<and> editor_ok s' \<and>
     line s' = edit_line (key_of (shift_held s) sc) (line s)"
proof (cases "key_of (shift_held s) sc")
  case (Shift b)
  then show ?thesis using assms by (simp add: process_scancode_cases editor_ok_def line_def)
next
  case Ignored
  then show ?thesis using assms by (simp add: process_scancode_cases)
next
  case Enter
  then show ?thesis using assms by simp
next
  case Backspace
  show ?thesis
  proof (cases "0 < buf_pos s")
    case True
    let ?p = "unat (buf_pos s) - 1"
    have p: "unat (buf_pos s - 1) = ?p" "Suc ?p = unat (buf_pos s)"
      using True by (auto simp: unat_sub word_le_nat_alt word_less_nat_alt)
    let ?s = "s\<lparr>buf_pos := buf_pos s - 1, input_buf := (input_buf s)[?p := 0]\<rparr>"
    have "process_scancode sh sc s = Some (put_char 8 0x07 ?s)"
      using Backspace True assms(1) buf_pos_less [of s]
      by (simp add: process_scancode_cases p editor_ok_def)
    moreover have "line ?s = butlast (line s)"
      using p(2) assms(1) buf_pos_less [of s]
      by (simp add: line_def p(1) butlast_take editor_ok_def take_update_cancel)
    ultimately show ?thesis using Backspace assms(1) by (simp add: editor_ok_def)
  next
    case False
    then have "buf_pos s = 0" by (simp add: word_gt_0)
    then show ?thesis using Backspace False assms(1) by (simp add: process_scancode_cases line_def)
  qed
next
  case (Character c)
  show ?thesis
  proof (cases "unat (buf_pos s) < 255")
    case True
    have p: "unat (buf_pos s + 1) = Suc (unat (buf_pos s))" using True by (simp add: unat_word_ariths)
    let ?s = "s\<lparr>input_buf := (input_buf s)[unat (buf_pos s) := c], buf_pos := buf_pos s + 1\<rparr>"
    have "process_scancode sh sc s = Some (put_char c 0x07 ?s)"
      using Character True assms(1) by (simp add: process_scancode_cases editor_ok_def)
    moreover have "line ?s = line s @ [c]"
      using True assms(1) by (simp add: line_def p take_Suc_conv_app_nth editor_ok_def)
    ultimately show ?thesis
      using Character assms(1) True length_line [OF assms(1)] by (simp add: editor_ok_def)
  next
    case False
    then show ?thesis using Character assms(1) length_line [OF assms(1)]
      by (simp add: process_scancode_cases)
  qed
qed

lemma process_scancode_enter:
  assumes "editor_ok s" and "key_of (shift_held s) sc = Enter"
  shows "process_scancode sh sc s = map_option (\<lambda>s'. s'\<lparr>buf_pos := 0\<rparr>)
     (sh ((input_buf s)[unat (buf_pos s) := 0])
         (put_char 10 0x07 (s\<lparr>input_buf := (input_buf s)[unat (buf_pos s) := 0]\<rparr>)))"
    and "take (unat (buf_pos s)) ((input_buf s)[unat (buf_pos s) := 0]) = line s"
    and "((input_buf s)[unat (buf_pos s) := 0]) ! unat (buf_pos s) = 0"
  using assms buf_pos_less [of s]
  by (simp_all add: process_scancode_cases editor_ok_def line_def map_option_case split: option.split)


section \<open>Properties\<close>

definition type_key :: "u8 \<Rightarrow> bool \<times> u8 list \<Rightarrow> bool \<times> u8 list" where
  "type_key sc sl = (case key_of (fst sl) sc of Shift b \<Rightarrow> (b, snd sl) | k \<Rightarrow> (fst sl, edit_line k (snd sl)))"

lemma ring_put_char [simp]: "ring (put_char c col s) = ring s" "ring_ok (put_char c col s) = ring_ok s"
  by (simp_all add: ring_def ring_len_def ring_ok_def)

lemma enter_position:
  "(\<forall>i \<in> set [0..<58]. keys_normal ! i = 10 \<longrightarrow> i = 28) \<and>
   (\<forall>i \<in> set [0..<58]. keys_shift ! i = 10 \<longrightarrow> i = 28)"
  by code_simp

lemma key_of_enter: "key_of shift sc = Enter \<longleftrightarrow> sc = 0x1C"
proof
  assume "key_of shift sc = Enter"
  then have sc: "unat sc < 58" "(if shift then keys_shift else keys_normal) ! unat sc = 10"
    by (auto simp: key_of_def Let_def split: if_splits)
  have "unat sc = 28"
    using sc enter_position [THEN conjunct1, rule_format, of "unat sc"]
      enter_position [THEN conjunct2, rule_format, of "unat sc"] by (auto split: if_splits)
  then have "of_nat (unat sc) = (28 :: u8)" by simp
  then show "sc = 0x1C" by simp
next
  have "keys_normal ! 28 = 10" "keys_shift ! 28 = 10"
    by (simp_all add: keys_normal_def keys_shift_def lit_def)
  then show "sc = 0x1C \<Longrightarrow> key_of shift sc = Enter" by (simp add: key_of_def Let_def)
qed

lemma process_scancode_view:
  assumes "editor_ok s" and "sc \<noteq> 0x1C"
  shows "\<exists>s'. process_scancode sh sc s = Some s' \<and> editor_ok s' \<and> ring_ok s' = ring_ok s \<and> ring s' = ring s \<and>
     (shift_held s', line s') = type_key sc (shift_held s, line s)"
proof -
  have "key_of (shift_held s) sc \<noteq> Enter" using assms(2) by (simp add: key_of_enter)
  from process_scancode_line [OF assms(1) this, of sh] obtain s' where
    s': "process_scancode sh sc s = Some s'" "editor_ok s'"
      "line s' = edit_line (key_of (shift_held s) sc) (line s)" by blast
  have "ring s' = ring s \<and> ring_ok s' = ring_ok s \<and>
      shift_held s' = (case key_of (shift_held s) sc of Shift b \<Rightarrow> b | _ \<Rightarrow> shift_held s)"
    using s'(1) \<open>key_of (shift_held s) sc \<noteq> Enter\<close>
    by (auto simp: process_scancode_cases ring_def ring_len_def ring_ok_def
        split: key.splits if_splits Option.bind_splits)
  then show ?thesis using s' by (auto simp: type_key_def split: key.split)
qed

text \<open>
  C17: What is typed arrives, as long as it is not Enter.  From an empty ring the keyboard interrupts put their scancodes
  into the ring, of which at most the 15 oldest survive until the timer interrupt; when no Enter is among the
  scancodes, the loop of the timer interrupt then ends, empties the ring and has applied those keys, in order, to
  the line being typed (shift, backspace, at most 255 characters), without an access outside the
  buffers.  (An Enter runs a command there, and a command like \<open>poweroff\<close> does not return.)
\<close>

theorem typed_keys_reach_line:
  fixes s :: "'a console_scheme"
  assumes "ring_ok s" and "editor_ok s" and "ring s = []" and "0x1C \<notin> set scs"
  shows "\<exists>s1 s2. for_each keyboard_handler scs s = Some s1 \<and>
     scancode_drain (process_scancode sh) s1 = Some s2 \<and> ring s2 = [] \<and> ring_ok s2 \<and> editor_ok s2 \<and>
     (shift_held s2, line s2) = fold type_key (take 15 scs) (shift_held s, line s)"
proof -
  let ?view = "\<lambda>s. (shift_held s, line s)"
  have unseen: "editor_ok t \<and> ?view t = ?view s \<and> shift_held t = shift_held s"
    if "scancode_pop s = Some (Some x, t)" "editor_ok s" for s t x
    using that by (auto simp: scancode_pop_def editor_ok_def line_def split: if_splits Option.bind_splits)
  have unseen': "editor_ok t \<and> line t = line s \<and> shift_held t = shift_held s"
    if "scancode_push x s = Some t" "editor_ok s" for s t x
    using that by (auto simp: scancode_push_def Let_def editor_ok_def line_def split: if_splits Option.bind_splits)
  obtain s1 where s1: "for_each scancode_push scs s = Some s1" "ring_ok s1" "ring s1 = take 15 scs"
    using kbd.push_all [OF assms(1), of scs] assms(3) by auto
  have e1: "editor_ok s1 \<and> line s1 = line s \<and> shift_held s1 = shift_held s"
  proof (rule for_each_invariant [OF s1(1)])
    show "editor_ok s \<and> line s = line s \<and> shift_held s = shift_held s" using assms(2) by simp
  next
    fix x t t'
    assume t: "editor_ok t \<and> line t = line s \<and> shift_held t = shift_held s" and p: "scancode_push x t = Some t'"
    from t have "editor_ok t" by blast
    from unseen' [OF p this] t show "editor_ok t' \<and> line t' = line s \<and> shift_held t' = shift_held s"
      by simp
  qed
  have sub: "set (ring s1) \<subseteq> {sc. sc \<noteq> 0x1C}" using assms(4) s1(3) by (auto dest: in_set_takeD)
  have "\<exists>s2. scancode_drain (process_scancode sh) s1 = Some s2 \<and> ring_ok s2 \<and> ring s2 = [] \<and>
      editor_ok s2 \<and> ?view s2 = fold type_key (ring s1) (?view s1)"
  proof (rule kbd.drain_all [OF s1(2) _ sub])
    show "editor_ok s1" using e1 by blast
  next
    fix x :: u8 and t :: "'a console_scheme" assume "ring_ok t" "editor_ok t" "x \<in> {sc. sc \<noteq> 0x1C}"
    with process_scancode_view [of t x sh]
    show "\<exists>t'. process_scancode sh x t = Some t' \<and> ring_ok t' \<and> ring t' = ring t \<and> editor_ok t' \<and>
        ?view t' = type_key x (?view t)" by auto
  next
    fix t t' :: "'a console_scheme" and x assume "scancode_pop t = Some (Some x, t')" "editor_ok t"
    from unseen [OF this] show "editor_ok t' \<and> ?view t' = ?view t" by blast
  qed
  then obtain s2 where "scancode_drain (process_scancode sh) s1 = Some s2" "ring s2 = []" "ring_ok s2"
    "editor_ok s2" "?view s2 = fold type_key (ring s1) (?view s1)" by blast
  moreover have "keyboard_handler = (scancode_push :: _ \<Rightarrow> 'a console_scheme \<Rightarrow> _)" by (intro ext) (simp add: keyboard_handler_def)
  ultimately show ?thesis using s1 e1 by auto
qed

definition console0 :: console where
  "console0 = \<lparr>vga = (\<lambda>_. 0), cur_row = 2, cur_col = 9, shift_held = False, cursor_visible = False,
     input_buf = replicate 256 0, buf_pos = 0, scancode_buffer = replicate 16 0, scancode_head = 0,
     scancode_tail = 0\<rparr>"

lemma typed_keys_reach_line_witness:
  "\<exists>s1 s2. for_each keyboard_handler [0x2A, 0x26, 0xAA, 0x1F, 0x0F, 0x0E] console0 = Some s1 \<and>
     scancode_drain (process_scancode (\<lambda>_. Some)) s1 = Some s2 \<and> line s2 = lit ''Ls''"
proof -
  have "ring_ok console0" "editor_ok console0" "ring console0 = []" "line console0 = []" "\<not> shift_held console0"
    by (simp_all add: console0_def ring_ok_def editor_ok_def ring_def ring_len_def line_def)
  moreover have "fold type_key [0x2A, 0x26, 0xAA, 0x1F, 0x0F, 0x0E] (False, []) = (False, lit ''Ls'')"
    by (simp add: type_key_def key_of_def keys_normal_def keys_shift_def lit_def)
  ultimately show ?thesis
    using typed_keys_reach_line [of console0 "[0x2A, 0x26, 0xAA, 0x1F, 0x0F, 0x0E]" "\<lambda>_. Some"] by auto
qed

text \<open>
  Enter terminates the typed line with a NUL inside the 256-byte buffer, moves the cursor to a
  new line and calls the shell with exactly that line; afterwards the line is empty.
\<close>

theorem enter_submits_line:
  assumes "editor_ok s" and "\<And>b t. sh b t \<noteq> None"
  shows "\<exists>b s'. process_scancode sh 0x1C s = Some s' \<and> length b = 256 \<and>
     take (unat (buf_pos s)) b = line s \<and> b ! unat (buf_pos s) = 0 \<and>
     Some s' = map_option (\<lambda>t. t\<lparr>buf_pos := 0\<rparr>) (sh b (put_char 10 0x07 (s\<lparr>input_buf := b\<rparr>))) \<and> line s' = []"
proof -
  let ?b = "(input_buf s)[unat (buf_pos s) := 0]"
  have k: "key_of (shift_held s) 0x1C = Enter" by (simp add: key_of_enter)
  note e = process_scancode_enter [OF assms(1) k]
  obtain t where t: "sh ?b (put_char 10 0x07 (s\<lparr>input_buf := ?b\<rparr>)) = Some t"
    using assms(2) by blast
  then have "process_scancode sh 0x1C s = Some (t\<lparr>buf_pos := 0\<rparr>)" using e(1) [of sh] by simp
  moreover have "line (t\<lparr>buf_pos := 0\<rparr>) = []" by (simp add: line_def)
  ultimately show ?thesis using e(2,3) t assms(1)
    by (intro exI [of _ ?b] exI [of _ "t\<lparr>buf_pos := 0\<rparr>"]) (simp add: editor_ok_def)
qed

lemma enter_submits_line_witness:
  "\<exists>s'. process_scancode (\<lambda>_. Some) 0x1C console0 = Some s' \<and> line s' = []"
proof -
  have "editor_ok console0" "buf_pos console0 = 0" by (simp_all add: console0_def editor_ok_def)
  then show ?thesis using enter_submits_line [of console0 "\<lambda>_. Some"] by auto
qed

text \<open>
  C34: Whatever is written to the terminal, a cursor within rows 2 to 24 and columns 0 to 80 stays there - column 80, behind
  the last one, is where a tab leaves it at the right edge - and no cell of the status bar (rows 0 and 1)
  is touched, nor any beyond cell 2000, the first one behind the screen, which a character at row 24, column 80 writes.
\<close>

theorem terminal_output_confined:
  assumes "cursor_ok s"
  shows "cursor_ok (fold (\<lambda>c. put_char c color) cs s) \<and>
     (\<forall>n. n < 160 \<or> 2000 < n \<longrightarrow> vga (fold (\<lambda>c. put_char c color) cs s) n = vga s n)"
  using assms by (induction cs arbitrary: s) (simp_all add: put_char_cursor put_char_frame)

lemma terminal_output_confined_witness:
  "vga (fold (\<lambda>c. put_char c 0x07) (concat (replicate 100 (lit ''PrajnaOS'' @ [9, 10]))) console0) 79 = 0"
proof -
  have "cursor_ok console0" by (simp add: cursor_ok_def console0_def)
  from terminal_output_confined [OF this, of "0x07"] show ?thesis by (simp add: console0_def)
qed

text \<open>
  The two ways of reaching the end of the scroll region disagree.  A newline on row 22 scrolls
  and stays on row 22; a character that wraps on row 22 leaves the cursor on row 23 and scrolls
  nothing, so that text then overwrites the alert rows 23 and 24.  And after a tab that reaches
  column 80 the next character lands on the following row, where the one after it overwrites it.
\<close>

theorem terminal_wrap_quirks:
  assumes "c \<notin> {8, 9, 10}" and "d \<notin> {8, 9, 10}"
  shows "(cur_row s = 22 \<longrightarrow> cur_row (put_char 10 col s) = 22 \<and>
            (\<forall>n < 80. vga (put_char 10 col s) (21 * 80 + n) = vga s (22 * 80 + n))) \<and>
         (cur_row s = 22 \<and> cur_col s = 79 \<longrightarrow> cur_row (put_char c col s) = 23 \<and>
            (\<forall>n. n \<noteq> 22 * 80 + 79 \<longrightarrow> vga (put_char c col s) n = vga s n)) \<and>
         (cur_row s = r \<and> r \<le> 22 \<and> cur_col s = 76 \<longrightarrow>
            (let t = put_char d col (put_char c col (put_char 9 col s)) in
             vga t ((r + 1) * 80) = cell (colour col) d \<and> cur_row t = r + 1 \<and> cur_col t = 1))"
proof (intro conjI impI)
  assume "cur_row s = 22"
  then show "cur_row (put_char 10 col s) = 22"
    "\<forall>n < 80. vga (put_char 10 col s) (21 * 80 + n) = vga s (22 * 80 + n)"
    by (simp_all add: put_char_newline scroll_def scroll_cells_eq)
next
  assume "cur_row s = 22 \<and> cur_col s = 79"
  then show "cur_row (put_char c col s) = 23"
    "\<forall>n. n \<noteq> 22 * 80 + 79 \<longrightarrow> vga (put_char c col s) n = vga s n"
    using assms(1) by (simp_all add: put_char_plain Let_def)
next
  assume "cur_row s = r \<and> r \<le> 22 \<and> cur_col s = 76"
  then show "let t = put_char d col (put_char c col (put_char 9 col s)) in
      vga t ((r + 1) * 80) = cell (colour col) d \<and> cur_row t = r + 1 \<and> cur_col t = 1"
    using assms by (simp add: put_char_tab put_char_plain Let_def)
qed

lemma terminal_wrap_quirks_witness:
  "cur_row (put_char 65 7 (console0\<lparr>cur_row := 22, cur_col := 79\<rparr>)) = 23 \<and>
   cur_row (put_char 10 7 (console0\<lparr>cur_row := 22, cur_col := 79\<rparr>)) = 22"
  using terminal_wrap_quirks [of 65 66 "console0\<lparr>cur_row := 22, cur_col := 79\<rparr>" 7 0] by simp

end
