(* ===== verification/Fpu.thy ===== *)
theory Fpu
  imports Prelude Complex_Main "HOL-Library.Log_Nat"
begin

text \<open>
  Floating point as the kernel is built to use it (\<^verbatim>\<open>-m32 -mfpmath=387\<close>, no optimisation): every
  arithmetic operation is an x87 operation rounded to a 64-bit significand, every value stored in
  a C \<open>float\<close> is rounded again, to binary32; both round to nearest, ties to even, as \<open>fninit\<close> sets
  the control word.  Finite values are rationals; there are the two infinities and one NaN; the
  sign of zero is not represented (no operation of the kernel can observe it).
\<close>

section \<open>Rounding rationals\<close>

text \<open>The binary exponent of a positive rational: \<open>2^e \<le> x < 2^(e+1)\<close>.\<close>

definition ilog2 :: "rat \<Rightarrow> int" where
  "ilog2 x = (let (n, d) = quotient_of x; e = bitlen n - bitlen d in if x < 2 powi e then e - 1 else e)"

text \<open>Nearest integer, ties to even.\<close>

definition round_even :: "rat \<Rightarrow> int" where
  "round_even x = (let f = \<lfloor>x\<rfloor>; d = x - of_int f in
     if d < 1 / 2 then f else if 1 / 2 < d then f + 1 else if even f then f else f + 1)"

text \<open>\<open>p\<close> significant bits, no bit below \<open>2^emin\<close>.\<close>

definition ulp_exp :: "nat \<Rightarrow> int \<Rightarrow> rat \<Rightarrow> int" where
  "ulp_exp p emin x = (if x = 0 then emin else max (ilog2 \<bar>x\<bar> - (int p - 1)) emin)"

definition round_to :: "nat \<Rightarrow> int \<Rightarrow> rat \<Rightarrow> rat" where
  "round_to p emin x = of_int (round_even (x / 2 powi ulp_exp p emin x)) * 2 powi ulp_exp p emin x"

lemma ilog2_bounds:
  assumes "0 < x"
  shows "2 powi ilog2 x \<le> x" and "x < 2 powi (ilog2 x + 1)"
proof -
  obtain n d where nd: "quotient_of x = (n, d)" by (cases "quotient_of x")
  have d: "0 < d" using quotient_of_denom_pos [OF nd] .
  have x: "x = of_int n / of_int d" using quotient_of_div [OF nd] .
  have n: "0 < n" using assms d unfolding x by (simp add: zero_less_divide_iff)
  have "0 \<le> bitlen n - 1" "0 \<le> bitlen d - 1"
    using n d bitlen_nonneg [of n] bitlen_nonneg [of d] bitlen_eq_zero_iff [of n] bitlen_eq_zero_iff [of d]
    by simp_all
  then obtain a b where bl: "bitlen n = int a + 1" "bitlen d = int b + 1"
    by (metis add.commute add_diff_cancel_left' diff_add_cancel zero_le_imp_eq_int)
  then have "nat (bitlen n) = a + 1" "nat (bitlen d) = b + 1" "nat (bitlen n - 1) = a" "nat (bitlen d - 1) = b"
    by linarith+
  then have na: "2 ^ a \<le> n" "n < 2 ^ (a + 1)" and db: "2 ^ b \<le> d" "d < 2 ^ (b + 1)"
    using bitlen_bounds [OF n] bitlen_bounds [OF d] by metis+
  have na': "(2 :: rat) ^ a \<le> of_int n" "of_int n < (2 :: rat) ^ (a + 1)"
    and db': "(2 :: rat) ^ b \<le> of_int d" "of_int d < (2 :: rat) ^ (b + 1)"
    using na db by (metis of_int_le_iff of_int_less_iff of_int_numeral of_int_power)+
  define e where "e = int a - int b"
  have pe: "(2 :: rat) powi e = 2 ^ a / 2 ^ b"
    unfolding e_def by (simp add: power_int_diff)
  have up: "x < 2 powi (e + 1)"
  proof -
    have "x < 2 ^ (a + 1) / 2 ^ b"
      unfolding x using na' db' d by (intro frac_less) (use n in auto)
    then show ?thesis using pe by (simp add: power_int_add_1 mult.commute)
  qed
  have lo: "2 powi (e - 1) \<le> x"
  proof -
    have "2 ^ a / 2 ^ (b + 1) \<le> x"
      unfolding x using na' db' d by (intro frac_le) (use n in auto)
    then show ?thesis using pe by (simp add: power_int_diff)
  qed
  have "ilog2 x = (if x < 2 powi e then e - 1 else e)"
    using bl by (simp add: ilog2_def nd Let_def e_def)
  with up lo show "2 powi ilog2 x \<le> x" "x < 2 powi (ilog2 x + 1)"
    by (auto split: if_splits)
qed


lemma powi_less_exp: "(2 :: rat) powi a < 2 powi b \<Longrightarrow> a < b"
  using power_int_increasing [of b a "2 :: rat"] by (meson not_le numeral_le_one_iff order.strict_iff_not
    one_le_numeral)

lemma ilog2_mono:
  assumes "0 < x" and "x \<le> y"
  shows "ilog2 x \<le> ilog2 y"
proof -
  have "(2 :: rat) powi ilog2 x \<le> x" using ilog2_bounds(1) [OF assms(1)] .
  also have "\<dots> < 2 powi (ilog2 y + 1)" using ilog2_bounds(2) [of y] assms by simp
  finally show ?thesis using powi_less_exp by fastforce
qed

lemma round_even_near: "\<bar>of_int (round_even x) - x\<bar> \<le> 1 / 2"
proof -
  have near: "\<bar>of_int (if x - of_int f < 1 / 2 then f else if 1 / 2 < x - of_int f then f + 1
      else if even f then f else f + 1) - x\<bar> \<le> 1 / 2"
    if "of_int f \<le> x" "x < of_int f + 1" for f :: int
    using that by (auto simp: abs_if)
  show ?thesis unfolding round_even_def Let_def
    by (rule near) (use floor_correct [of x] in auto)
qed

lemma round_even_of_int [simp]: "round_even (of_int k) = k"
  by (simp add: round_even_def)

lemma round_even_floor: "\<lfloor>x\<rfloor> \<le> round_even x" "round_even x \<le> \<lfloor>x\<rfloor> + 1"
  by (auto simp: round_even_def Let_def)

lemma round_even_mono: "x \<le> y \<Longrightarrow> round_even x \<le> round_even y"
proof -
  assume le: "x \<le> y"
  show ?thesis
  proof (cases "\<lfloor>x\<rfloor> = \<lfloor>y\<rfloor>")
    case True
    then show ?thesis using le by (auto simp: round_even_def Let_def)
  next
    case False
    then have "\<lfloor>x\<rfloor> + 1 \<le> \<lfloor>y\<rfloor>" using floor_mono [OF le] by simp
    then show ?thesis using round_even_floor(2) [of x] round_even_floor(1) [of y] by linarith
  qed
qed

lemma round_even_minus: "round_even (- x) = - round_even x"
proof (cases "x = of_int \<lfloor>x\<rfloor>")
  case True
  then show ?thesis by (metis of_int_minus round_even_of_int)
next
  case False
  let ?f = "\<lfloor>x\<rfloor>"
  have "of_int ?f \<le> x" by (rule of_int_floor_le)
  then have "of_int ?f < x" "x < of_int ?f + 1" using False floor_correct [of x] by linarith+
  then have f: "\<lfloor>- x\<rfloor> = - ?f - 1" by (intro floor_unique) auto
  have d: "- x - of_int (- ?f - 1) = 1 - (x - of_int ?f)" by simp
  have "round_even (- x) = (if 1 / 2 < x - of_int ?f then - ?f - 1
      else if x - of_int ?f < 1 / 2 then - ?f else if odd ?f then - ?f - 1 else - ?f)"
    unfolding round_even_def f Let_def d by (auto simp: algebra_simps)
  then show ?thesis unfolding round_even_def Let_def by auto
qed

lemma ulp_exp_minus [simp]: "ulp_exp p emin (- x) = ulp_exp p emin x"
  by (simp add: ulp_exp_def)

lemma round_to_minus: "round_to p emin (- x) = - round_to p emin x"
  by (simp add: round_to_def round_even_minus)

lemma two_powi_pos [simp]: "0 < (2 :: rat) powi k"
  by simp

lemma round_to_zero [simp]: "round_to p emin 0 = 0"
  using round_even_of_int [of 0] by (simp add: round_to_def)

lemma round_to_nonneg: "0 \<le> x \<Longrightarrow> 0 \<le> round_to p emin x"
  using round_even_mono [of 0 "x / 2 powi ulp_exp p emin x"] round_even_of_int [of 0]
  by (simp add: round_to_def)

text \<open>The scaled significand is below \<open>2^p\<close>, and at least \<open>2^(p-1)\<close> above the least exponent.\<close>

lemma ulp_exp_bounds:
  assumes "0 < x" and "0 < p"
  shows "x \<le> 2 ^ p * 2 powi ulp_exp p emin x"
    and "emin < ulp_exp p emin x \<Longrightarrow> 2 ^ (p - 1) * 2 powi ulp_exp p emin x \<le> x"
    and "emin \<le> ulp_exp p emin x"
proof -
  let ?q = "ulp_exp p emin x"
  have q: "?q = max (ilog2 x - (int p - 1)) emin" using assms(1) by (simp add: ulp_exp_def)
  have "x \<le> 2 powi (ilog2 x + 1)" using ilog2_bounds(2) [OF assms(1)] by simp
  also have "\<dots> \<le> 2 powi (int p + ?q)" by (rule power_int_increasing) (simp_all add: q)
  finally show "x \<le> 2 ^ p * 2 powi ?q" by (simp add: power_int_add)
  show "emin \<le> ?q" by (simp add: q)
  assume "emin < ?q"
  then have "ilog2 x = int (p - 1) + ?q" using assms(2) by (simp add: q of_nat_diff)
  then show "2 ^ (p - 1) * 2 powi ?q \<le> x" using ilog2_bounds(1) [OF assms(1)]
    by (simp add: power_int_add)
qed

lemma ulp_exp_mono: "0 < x \<Longrightarrow> x \<le> y \<Longrightarrow> ulp_exp p emin x \<le> ulp_exp p emin y"
  using ilog2_mono [of x y] by (auto simp: ulp_exp_def)

lemma round_to_mono_pos:
  assumes "0 < x" and "x \<le> y" and p: "0 < p"
  shows "round_to p emin x \<le> round_to p emin y"
proof (cases "ulp_exp p emin x = ulp_exp p emin y")
  case True
  have "round_even (x / 2 powi ulp_exp p emin y) \<le> round_even (y / 2 powi ulp_exp p emin y)"
    by (rule round_even_mono) (simp add: divide_right_mono assms(2))
  then show ?thesis using True by (simp add: round_to_def mult_right_mono)
next
  case False
  let ?qx = "ulp_exp p emin x" let ?qy = "ulp_exp p emin y"
  have lt: "?qx < ?qy" using False ulp_exp_mono [OF assms(1,2), of p emin] by simp
  have y: "0 < y" using assms by simp
  have "emin < ?qy" using lt ulp_exp_bounds(3) [OF assms(1) p, of emin] by simp
  from ulp_exp_bounds(2) [OF y p this] have "of_int (2 ^ (p - 1)) \<le> y / 2 powi ?qy"
    by (simp add: pos_le_divide_eq)
  from round_even_mono [OF this] have ry: "2 ^ (p - 1) \<le> round_even (y / 2 powi ?qy)"
    by (simp only: round_even_of_int)
  have "x / 2 powi ?qx \<le> of_int (2 ^ p)"
    using ulp_exp_bounds(1) [OF assms(1) p, of emin] by (simp add: pos_divide_le_eq)
  from round_even_mono [OF this] have rx: "round_even (x / 2 powi ?qx) \<le> 2 ^ p"
    by (simp only: round_even_of_int)
  have "round_to p emin x \<le> of_int (2 ^ p) * 2 powi ?qx"
    unfolding round_to_def using rx by (intro mult_right_mono) (simp_all only: of_int_le_iff, simp)
  also have "\<dots> = 2 powi (int p + ?qx)" by (simp add: power_int_add)
  also have "\<dots> \<le> 2 powi (int (p - 1) + ?qy)"
    using lt p by (intro power_int_increasing) (simp_all add: of_nat_diff)
  also have "\<dots> = of_int (2 ^ (p - 1)) * 2 powi ?qy" by (simp add: power_int_add)
  also have "\<dots> \<le> round_to p emin y"
    unfolding round_to_def using ry by (intro mult_right_mono) (simp_all only: of_int_le_iff, simp)
  finally show ?thesis .
qed

lemma round_to_mono:
  assumes "x \<le> y" and "0 < p"
  shows "round_to p emin x \<le> round_to p emin y"
proof -
  consider "0 < x" | "x \<le> 0" "0 \<le> y" | "y < 0" by linarith
  then show ?thesis
  proof cases
    case 1
    then show ?thesis using round_to_mono_pos assms by blast
  next
    case 2
    have "0 \<le> - round_to p emin x"
      using round_to_nonneg [of "- x" p emin] 2(1) by (simp add: round_to_minus)
    then show ?thesis using round_to_nonneg [OF 2(2), of p emin] by simp
  next
    case 3
    then have "round_to p emin (- y) \<le> round_to p emin (- x)"
      using round_to_mono_pos [of "- y" "- x"] assms by simp
    then show ?thesis by (simp add: round_to_minus)
  qed
qed

lemma round_to_exact:
  assumes "x = of_int m * 2 powi k" and "\<bar>m\<bar> < 2 ^ p" and "emin \<le> k"
  shows "round_to p emin x = x"
proof (cases "m = 0")
  case True
  then show ?thesis using assms(1) by simp
next
  case False
  let ?q = "ulp_exp p emin x"
  have x: "x \<noteq> 0" "0 < \<bar>x\<bar>" using False assms(1) by auto
  have "\<bar>x\<bar> = of_int \<bar>m\<bar> * 2 powi k" using assms(1) by (simp add: abs_mult)
  also have "\<dots> < of_int (2 ^ p) * 2 powi k"
    using assms(2) by (intro mult_strict_right_mono) (simp_all only: of_int_less_iff, simp)
  also have "\<dots> = 2 powi (int p + k)" by (simp add: power_int_add)
  finally have "2 powi ilog2 \<bar>x\<bar> < (2 :: rat) powi (int p + k)"
    using ilog2_bounds(1) [OF x(2)] by simp
  then have "ilog2 \<bar>x\<bar> < int p + k" by (rule powi_less_exp)
  then have q: "?q \<le> k" using x(1) assms(3) by (simp add: ulp_exp_def)
  have "x / 2 powi ?q = of_int (m * 2 ^ nat (k - ?q))"
  proof -
    have "2 powi k = (2 :: rat) powi (k - ?q) * 2 powi ?q" by (simp flip: power_int_add)
    also have "2 powi (k - ?q) = (2 :: rat) ^ nat (k - ?q)" using q by (simp add: power_int_nonneg_exp)
    finally have "x = of_int (m * 2 ^ nat (k - ?q)) * 2 powi ?q" using assms(1) by (simp only: of_int_mult
        of_int_power of_int_numeral mult.assoc)
    moreover have "(2 :: rat) powi ?q \<noteq> 0" by simp
    ultimately show ?thesis by (metis nonzero_mult_div_cancel_right)
  qed
  then have "round_even (x / 2 powi ?q) = m * 2 ^ nat (k - ?q)" by (simp only: round_even_of_int)
  then have "round_to p emin x = x / 2 powi ?q * 2 powi ?q"
    using \<open>x / 2 powi ?q = _\<close> by (simp only: round_to_def)
  then show ?thesis by simp
qed


section \<open>Rounding as an interface\<close>

text \<open>The values a binary32 variable can hold, up to the largest exponent.\<close>

definition b32 :: "rat \<Rightarrow> bool" where
  "b32 x \<longleftrightarrow> (\<exists>m k. x = of_int m * 2 powi k \<and> \<bar>m\<bar> < 2 ^ 24 \<and> - 149 \<le> k)"

lemma b32_int: "\<bar>m\<bar> < 2 ^ 24 \<Longrightarrow> b32 (of_int m)"
  unfolding b32_def by (intro exI [of _ m] exI [of _ 0]) simp

lemma b32_power: "b32 (2 ^ n)"
  unfolding b32_def by (intro exI [of _ 1] exI [of _ "int n"]) simp

locale rounding =
  fixes rnd :: "rat \<Rightarrow> rat"
  assumes rnd_mono: "x \<le> y \<Longrightarrow> rnd x \<le> rnd y"
    and rnd_minus: "rnd (- x) = - rnd x"
    and rnd_exact: "b32 x \<Longrightarrow> rnd x = x"
begin

lemma rnd_between: "b32 a \<Longrightarrow> b32 b \<Longrightarrow> a \<le> x \<Longrightarrow> x \<le> b \<Longrightarrow> a \<le> rnd x \<and> rnd x \<le> b"
  using rnd_mono [of a x] rnd_mono [of x b] by (simp add: rnd_exact)

lemma rnd_abs: "b32 b \<Longrightarrow> \<bar>x\<bar> \<le> b \<Longrightarrow> \<bar>rnd x\<bar> \<le> b"
  using rnd_mono [of x b] rnd_mono [of "- b" x] by (auto simp: rnd_exact rnd_minus abs_le_iff)

lemma rnd_0 [simp]: "rnd 0 = 0" and rnd_1 [simp]: "rnd 1 = 1"
  using rnd_exact [OF b32_int [of 0]] rnd_exact [OF b32_int [of 1]] by simp_all

lemma rnd_nonneg: "0 \<le> x \<Longrightarrow> 0 \<le> rnd x"
  using rnd_mono [of 0 x] by simp

end

definition round32 :: "rat \<Rightarrow> rat" where "round32 = round_to 24 (- 149)"

definition round80 :: "rat \<Rightarrow> rat" where "round80 = round_to 64 (- 16445)"

interpretation r32: rounding round32
  by unfold_locales (auto simp: round32_def b32_def intro: round_to_mono round_to_minus round_to_exact)

interpretation r80: rounding round80
proof (unfold_locales, goal_cases)
  case (3 x)
  then obtain m k where "x = of_int m * 2 powi k" "\<bar>m\<bar> < 2 ^ 24" "- 149 \<le> k" by (auto simp: b32_def)
  then show ?case unfolding round80_def by (intro round_to_exact) auto
qed (auto simp: round80_def intro: round_to_mono round_to_minus)

section \<open>Values and operations\<close>

datatype flt = Fin rat | PInf | NInf | NaN

text \<open>A finite result, unless its magnitude reaches \<open>2^emax\<close>.\<close>

definition inf_sign :: "bool \<Rightarrow> flt" where "inf_sign pos = (if pos then PInf else NInf)"

definition bounded :: "int \<Rightarrow> rat \<Rightarrow> flt" where
  "bounded emax y = (if y \<noteq> 0 \<and> emax \<le> ilog2 \<bar>y\<bar> then inf_sign (0 < y) else Fin y)"

text \<open>Results of x87 arithmetic, and stores to a \<open>float\<close>.\<close>

definition x87 :: "rat \<Rightarrow> flt" where
  "x87 x = bounded 16384 (round80 x)"

fun store32 :: "flt \<Rightarrow> flt" where
  "store32 (Fin x) = bounded 128 (round32 x)"
| "store32 v = v"

fun neg_flt :: "flt \<Rightarrow> flt" where
  "neg_flt (Fin x) = Fin (- x)"
| "neg_flt PInf = NInf"
| "neg_flt NInf = PInf"
| "neg_flt NaN = NaN"

fun add_flt :: "flt \<Rightarrow> flt \<Rightarrow> flt" where
  "add_flt (Fin x) (Fin y) = x87 (x + y)"
| "add_flt NaN _ = NaN"
| "add_flt _ NaN = NaN"
| "add_flt PInf NInf = NaN"
| "add_flt NInf PInf = NaN"
| "add_flt PInf _ = PInf"
| "add_flt NInf _ = NInf"
| "add_flt _ PInf = PInf"
| "add_flt _ NInf = NInf"

fun mul_flt :: "flt \<Rightarrow> flt \<Rightarrow> flt" where
  "mul_flt (Fin x) (Fin y) = x87 (x * y)"
| "mul_flt NaN _ = NaN"
| "mul_flt _ NaN = NaN"
| "mul_flt (Fin x) PInf = (if x = 0 then NaN else inf_sign (0 < x))"
| "mul_flt (Fin x) NInf = (if x = 0 then NaN else inf_sign (x < 0))"
| "mul_flt PInf (Fin y) = (if y = 0 then NaN else inf_sign (0 < y))"
| "mul_flt NInf (Fin y) = (if y = 0 then NaN else inf_sign (y < 0))"
| "mul_flt PInf PInf = PInf"
| "mul_flt NInf NInf = PInf"
| "mul_flt PInf NInf = NInf"
| "mul_flt NInf PInf = NInf"

fun div_flt :: "flt \<Rightarrow> flt \<Rightarrow> flt" where
  "div_flt (Fin x) (Fin y) = (if y = 0 then (if x = 0 then NaN else inf_sign (0 < x)) else x87 (x / y))"
| "div_flt NaN _ = NaN"
| "div_flt _ NaN = NaN"
| "div_flt (Fin x) _ = Fin 0"
| "div_flt PInf (Fin y) = inf_sign (0 \<le> y)"
| "div_flt NInf (Fin y) = inf_sign (y < 0)"
| "div_flt _ _ = NaN"

fun lt_flt :: "flt \<Rightarrow> flt \<Rightarrow> bool" where
  "lt_flt (Fin x) (Fin y) \<longleftrightarrow> x < y"
| "lt_flt NaN _ \<longleftrightarrow> False"
| "lt_flt _ NaN \<longleftrightarrow> False"
| "lt_flt NInf y \<longleftrightarrow> y \<noteq> NInf"
| "lt_flt x PInf \<longleftrightarrow> x \<noteq> PInf"
| "lt_flt _ _ \<longleftrightarrow> False"

fun le_flt :: "flt \<Rightarrow> flt \<Rightarrow> bool" where
  "le_flt NaN _ \<longleftrightarrow> False"
| "le_flt _ NaN \<longleftrightarrow> False"
| "le_flt x y \<longleftrightarrow> x = y \<or> lt_flt x y"

text \<open>The C operators, and the negated comparison of an unordered pair is not its converse.\<close>

instantiation flt :: "{zero, one, plus, minus, uminus, times, inverse, ord}"
begin

definition zero_flt where "0 = Fin 0"
definition one_flt where "1 = Fin 1"
definition plus_flt where "x + y = add_flt x y"
definition minus_flt where "x - y = add_flt x (neg_flt y)"
definition uminus_flt where "- x = neg_flt x"
definition times_flt where "x * y = mul_flt x y"
definition divide_flt where "x div y = div_flt x y"
definition inverse_flt where "inverse x = div_flt (Fin 1) x"
definition less_flt where "x < y = lt_flt x y"
definition less_eq_flt where "x \<le> y = le_flt x y"

instance ..

end

text \<open>The \<open>float\<close> literal nearest to a decimal constant, integers converted to \<open>float\<close>.\<close>

definition flit :: "rat \<Rightarrow> flt" where "flit r = store32 (Fin r)"

definition float_of_int :: "int \<Rightarrow> flt" where "float_of_int k = store32 (Fin (of_int k))"

text \<open>
  \<open>(int)x\<close>: the x87 truncates; what does not fit an \<open>int32_t\<close> (or is NaN) becomes the "integer
  indefinite" value 0x80000000.
\<close>

definition int_of_float :: "flt \<Rightarrow> u32" where
  "int_of_float x = (case x of
     Fin r \<Rightarrow> let t = (if 0 \<le> r then \<lfloor>r\<rfloor> else - \<lfloor>- r\<rfloor>) in
        if - (2 ^ 31) \<le> t \<and> t < 2 ^ 31 then of_int t else 0x80000000
   | _ \<Rightarrow> 0x80000000)"

text \<open>The binary32 value of a 32-bit pattern, as the weight file holds it.\<close>

definition float_of_bits :: "u32 \<Rightarrow> flt" where
  "float_of_bits w =
     (let sgn = (if bit w 31 then -1 else 1 :: rat);
          e = uint (take_bit 8 (drop_bit 23 w)); f = of_int (uint (take_bit 23 w)) :: rat in
      if e = 255 then (if f = 0 then inf_sign (sgn = 1) else NaN)
      else if e = 0 then Fin (sgn * f * 2 powi (- 149))
      else Fin (sgn * (2 ^ 23 + f) * 2 powi (e - 150)))"

end
