(* ===== verification/Ml.thy ===== *)
theory Ml
  imports Fpu Klib Console
begin

text \<open>
  The neural network: \<^verbatim>\<open>kernel/ml/ml_math.c\<close>, \<^verbatim>\<open>kernel/ml/ml_infer.c\<close> and the weight arrays of
  \<^verbatim>\<open>kernel/ml/ml_weights.c\<close>.  A C array of floats is a list with checked access; the
  two-dimensional weight arrays are flat, row by row, as the code addresses them.  An
  uninitialised local array starts with zeros here; every element is written before it is read.
\<close>

section \<open>Scalar operations\<close>

definition ml_clamp :: "flt \<Rightarrow> flt \<Rightarrow> flt \<Rightarrow> flt" where
  "ml_clamp x lo hi = (if x < lo then lo else if hi < x then hi else x)"

definition ml_normalize :: "flt \<Rightarrow> flt \<Rightarrow> flt \<Rightarrow> flt" where
  "ml_normalize val mn mx =
     (let range = store32 (mx - mn) in
      if range < flit (1 / 1000000) \<and> - flit (1 / 1000000) < range then flit (1 / 2)
      else let result = store32 ((val - mn) / range) in ml_clamp result (flit 0) (flit 1))"

definition ml_abs :: "flt \<Rightarrow> flt" where
  "ml_abs x = (if x < flit 0 then - x else x)"

definition ml_relu_scalar :: "flt \<Rightarrow> flt" where
  "ml_relu_scalar x = (if x < flit 0 then flit 0 else x)"

definition ml_sigmoid :: "flt \<Rightarrow> flt" where
  "ml_sigmoid x =
     (if flit 6 \<le> x then flit 1
      else if x \<le> - flit 6 then flit 0
      else let x2 = store32 (x * x);
               result = store32 (flit (1 / 2) + x * (flit (1 / 4) - x2 * flit (20833 / 1000000)))
           in ml_clamp result (flit 0) (flit 1))"

section \<open>Vectors and matrices\<close>

definition ml_relu :: "flt list \<Rightarrow> nat \<Rightarrow> flt list option" where
  "ml_relu x n = for_each (\<lambda>i x. do {
     v \<leftarrow> arr_get x i;
     if v < flit 0 then arr_set x i (flit 0) else Some x }) [0..<n] x"

definition ml_dot :: "flt list \<Rightarrow> flt list \<Rightarrow> nat \<Rightarrow> flt option" where
  "ml_dot a b n = for_each (\<lambda>i s. do {
     x \<leftarrow> arr_get a i;
     y \<leftarrow> arr_get b i;
     Some (store32 (s + x * y)) }) [0..<n] (flit 0)"

definition ml_add_bias :: "flt list \<Rightarrow> flt list \<Rightarrow> nat \<Rightarrow> flt list option" where
  "ml_add_bias x bias n = for_each (\<lambda>i x. do {
     v \<leftarrow> arr_get x i;
     b \<leftarrow> arr_get bias i;
     arr_set x i (store32 (v + b)) }) [0..<n] x"

definition ml_vec_copy :: "flt list \<Rightarrow> flt list \<Rightarrow> nat \<Rightarrow> flt list option" where
  "ml_vec_copy dst src n = for_each (\<lambda>i d. do { v \<leftarrow> arr_get src i; arr_set d i v }) [0..<n] dst"

definition ml_vec_zero :: "flt list \<Rightarrow> nat \<Rightarrow> flt list option" where
  "ml_vec_zero x n = for_each (\<lambda>i x. arr_set x i (flit 0)) [0..<n] x"

definition ml_multiply :: "flt list \<Rightarrow> flt list \<Rightarrow> flt list \<Rightarrow> nat \<Rightarrow> nat \<Rightarrow> flt list option" where
  "ml_multiply A B C out_rows in_cols = for_each (\<lambda>r C. do {
     s \<leftarrow> for_each (\<lambda>c s. do {
            a \<leftarrow> arr_get A (r * in_cols + c);
            b \<leftarrow> arr_get B c;
            Some (store32 (s + a * b)) }) [0..<in_cols] (flit 0);
     arr_set C r s }) [0..<out_rows] C"

section \<open>Numbers as text\<close>

text \<open>
  The static \<open>int_to_str\<close> of \<^verbatim>\<open>ml_math.c\<close>, writing from index \<open>p\<close> on and returning the index
  after the last digit.  (Its first loop counts the digits into a variable nobody reads.)
  Negating the smallest \<open>int\<close> wraps to itself, as the compiled code does.
\<close>

function its_digits :: "u32 \<Rightarrow> nat \<Rightarrow> u8 list \<Rightarrow> (nat \<times> u8 list) option" where
  "its_digits val i tmp =
     (if 0 <s val then do {
        tmp \<leftarrow> arr_set tmp i (ucast (48 + val mod 10));
        its_digits (val div 10) (Suc i) tmp }
      else Some (i, tmp))"
  by pat_completeness auto

termination
proof (relation "measure (\<lambda>(val, i, tmp). unat val)", goal_cases)
  case (2 val i tmp x)
  then have "val \<noteq> 0" by auto
  then have "0 < unat val" by (simp add: unat_gt_0)
  then have "unat val div 10 < unat val" by simp
  then show ?case by (simp add: unat_div)
qed simp

declare its_digits.simps [simp del]

definition ml_int_to_str :: "u32 \<Rightarrow> nat \<Rightarrow> u8 list \<Rightarrow> (nat \<times> u8 list) option" where
  "ml_int_to_str val p buf =
     (if val = 0 then do { buf \<leftarrow> arr_set buf p 48; Some (p + 1, buf) }
      else do {
        (val, p, buf) \<leftarrow> (if val <s 0 then do { buf \<leftarrow> arr_set buf p 45; Some (- val, p + 1, buf) }
                         else Some (val, p, buf));
        (i, tmp) \<leftarrow> its_digits val 0 (replicate 12 0);
        for_each (\<lambda>j (p, buf). do {
          c \<leftarrow> arr_get tmp j;
          buf \<leftarrow> arr_set buf p c;
          Some (p + 1, buf) }) (rev [0..<i]) (p, buf) })"

definition ml_float_to_str :: "flt \<Rightarrow> u8 list \<Rightarrow> nat \<Rightarrow> u8 list option" where
  "ml_float_to_str val buf precision = do {
     (val, p, buf) \<leftarrow> (if val < flit 0 then do { buf \<leftarrow> arr_set buf 0 45; Some (- val, 1, buf) }
                      else Some (val, 0, buf));
     let int_part = int_of_float val;
     (p, buf) \<leftarrow> ml_int_to_str int_part p buf;
     if precision = 0 then arr_set buf p 0
     else do {
       buf \<leftarrow> arr_set buf p 46;
       let frac_part = store32 (val - float_of_int (sint int_part));
       (p, buf, frac_part) \<leftarrow> for_each (\<lambda>_ (p, buf, frac_part). do {
         let frac_part = store32 (frac_part * flit 10);
         let digit = int_of_float frac_part;
         buf \<leftarrow> arr_set buf p (ucast (48 + digit));
         Some (p + 1, buf, store32 (frac_part - float_of_int (sint digit))) })
         [0..<precision] (p + 1, buf, frac_part);
       arr_set buf p 0 } }"

definition ml_print_vec :: "flt list \<Rightarrow> nat \<Rightarrow> 'a console_scheme \<Rightarrow> 'a console_scheme option" where
  "ml_print_vec x n s = do {
     let s = put_char 91 0x07 s;
     s \<leftarrow> for_each (\<lambda>i s. do {
       v \<leftarrow> arr_get x i;
       buf \<leftarrow> ml_float_to_str v (replicate 16 0) 4;
       c \<leftarrow> arr_get buf 0;
       let s = put_char c 0x07 s;
       Some (if i < n - 1 then put_char 32 0x07 (put_char 44 0x07 s) else s) }) [0..<n] s;
     Some (put_char 10 0x07 (put_char 93 0x07 s)) }"

section \<open>Inference\<close>

record net =
  weights_l1 :: "flt list"
  bias_l1 :: "flt list"
  weights_l2 :: "flt list"
  bias_l2 :: "flt list"
  weights_l3 :: "flt list"
  bias_l3 :: "flt list"

definition L1_IN :: nat where "L1_IN = 4"
definition L1_OUT :: nat where "L1_OUT = 8"
definition L2_IN :: nat where "L2_IN = 8"
definition L2_OUT :: nat where "L2_OUT = 4"
definition L3_IN :: nat where "L3_IN = 4"
definition L3_OUT :: nat where "L3_OUT = 1"

definition ml_infer :: "net \<Rightarrow> flt list \<Rightarrow> flt option" where
  "ml_infer w input = do {
     layer1 \<leftarrow> ml_multiply (weights_l1 w) input (replicate L1_OUT (flit 0)) L1_OUT L1_IN;
     layer1 \<leftarrow> ml_add_bias layer1 (bias_l1 w) L1_OUT;
     layer1 \<leftarrow> ml_relu layer1 L1_OUT;
     l0 \<leftarrow> arr_get layer1 0;
     _ \<leftarrow> ml_float_to_str l0 (replicate 16 0) 3;
     layer2 \<leftarrow> ml_multiply (weights_l2 w) layer1 (replicate L2_OUT (flit 0)) L2_OUT L2_IN;
     layer2 \<leftarrow> ml_add_bias layer2 (bias_l2 w) L2_OUT;
     layer2 \<leftarrow> ml_relu layer2 L2_OUT;
     out \<leftarrow> ml_multiply (weights_l3 w) layer2 (replicate L3_OUT (flit 0)) L3_OUT L3_IN;
     out \<leftarrow> ml_add_bias out (bias_l3 w) L3_OUT;
     o0 \<leftarrow> arr_get out 0;
     out \<leftarrow> arr_set out 0 (ml_sigmoid o0);
     arr_get out 0 }"

section \<open>Floats: order and bounds\<close>

lemmas flt_ops = plus_flt_def minus_flt_def uminus_flt_def times_flt_def divide_flt_def

lemma fin_less [simp]: "Fin x < Fin y \<longleftrightarrow> x < y" "Fin x \<le> Fin y \<longleftrightarrow> x \<le> y"
  by (auto simp: less_flt_def less_eq_flt_def)

lemma nan_less [simp]: "\<not> NaN < x" "\<not> x < NaN" "\<not> NaN \<le> x" "\<not> x \<le> NaN"
  by (cases x; simp add: less_flt_def less_eq_flt_def)+

lemma inf_less [simp]: "Fin x < PInf" "NInf < Fin x" "\<not> PInf < Fin x" "\<not> Fin x < NInf"
    "Fin x \<le> PInf" "NInf \<le> Fin x" "\<not> PInf \<le> Fin x" "\<not> Fin x \<le> NInf"
  by (simp_all add: less_flt_def less_eq_flt_def)

lemma bounded_small: "\<bar>y\<bar> < 2 powi e \<Longrightarrow> bounded e y = Fin y"
proof -
  assume small: "\<bar>y\<bar> < 2 powi e"
  have "\<not> e \<le> ilog2 \<bar>y\<bar>" if "y \<noteq> 0"
  proof -
    have "2 powi ilog2 \<bar>y\<bar> \<le> \<bar>y\<bar>" using ilog2_bounds(1) that by simp
    then have "(2 :: rat) powi ilog2 \<bar>y\<bar> < 2 powi e" using small by simp
    from powi_less_exp [OF this] show ?thesis by simp
  qed
  then show ?thesis by (auto simp: bounded_def)
qed

text \<open>A result of magnitude at most \<open>2^n\<close> is finite and stays within that magnitude.\<close>

definition bnd :: "rat \<Rightarrow> flt \<Rightarrow> bool" where
  "bnd b v \<longleftrightarrow> (\<exists>r. v = Fin r \<and> \<bar>r\<bar> \<le> b)"

lemma bnd_Fin [simp]: "bnd b (Fin r) \<longleftrightarrow> \<bar>r\<bar> \<le> b"
  by (auto simp: bnd_def)

lemma bnd_store:
  assumes "\<bar>r\<bar> \<le> b" and "b32 b" and "b < 2 ^ 128"
  shows "bnd b (store32 (Fin r))"
proof -
  have r: "\<bar>round32 r\<bar> \<le> b" using r32.rnd_abs [OF assms(2,1)] .
  then have "\<bar>round32 r\<bar> < 2 powi 128" using assms(3) by simp
  then show ?thesis using r by (simp add: bnd_def bounded_small)
qed

lemma bnd_x87:
  assumes "\<bar>r\<bar> \<le> b" and "b32 b" and "b < 2 ^ 128"
  shows "bnd b (x87 r)"
proof -
  have "\<bar>round80 r\<bar> \<le> b" using r80.rnd_abs [OF assms(2,1)] .
  also have "b < 2 powi 128" using assms(3) by simp
  also have "(2 :: rat) powi 128 \<le> 2 powi 16384" by (rule power_int_increasing) auto
  finally have "bounded 16384 (round80 r) = Fin (round80 r)" by (rule bounded_small)
  then show ?thesis using r80.rnd_abs [OF assms(2,1)] by (simp add: bnd_def x87_def)
qed

lemma bnd_mono: "bnd a v \<Longrightarrow> a \<le> b \<Longrightarrow> bnd b v"
  by (auto simp: bnd_def)

lemma bnd_add:
  assumes "bnd a u" and "bnd b v" and "a + b \<le> c" and "b32 c" and "c < 2 ^ 128"
  shows "bnd c (store32 (u + v))"
proof -
  obtain x y where xy: "u = Fin x" "v = Fin y" "\<bar>x\<bar> \<le> a" "\<bar>y\<bar> \<le> b"
    using assms(1,2) by (auto simp: bnd_def)
  have "bnd c (x87 (x + y))"
    by (rule bnd_x87) (use xy assms in \<open>auto intro: order_trans [OF abs_triangle_ineq]\<close>)
  then obtain r where "x87 (x + y) = Fin r" "\<bar>r\<bar> \<le> c" by (auto simp: bnd_def)
  with bnd_store [OF this(2) assms(4,5)] show ?thesis by (simp add: flt_ops xy)
qed

lemma bnd_mul:
  assumes "bnd a u" and "bnd b v" and "a * b \<le> c" and "b32 c" and "c < 2 ^ 128"
  shows "bnd c (u * v)"
proof -
  obtain x y where xy: "u = Fin x" "v = Fin y" "\<bar>x\<bar> \<le> a" "\<bar>y\<bar> \<le> b"
    using assms(1,2) by (auto simp: bnd_def)
  have "\<bar>x * y\<bar> \<le> a * b" unfolding abs_mult using xy by (intro mult_mono) auto
  then show ?thesis using bnd_x87 [of "x * y" c] assms(3-5) by (simp add: flt_ops xy)
qed


section \<open>The vector loops\<close>

lemma ml_dot_bounded:
  assumes "n \<le> length a" and "n \<le> length b" and "\<forall>i < n. bnd x (a ! i)" and "\<forall>i < n. bnd y (b ! i)"
    and "x * y = 2 ^ m" and "n < 2 ^ 20" and "m < 100"
  shows "\<exists>s. ml_dot a b n = Some s \<and> bnd (of_nat n * 2 ^ m) s"
proof -
  have b32: "b32 (of_nat k * 2 ^ m)" if "k < 2 ^ 24" for k
    unfolding b32_def using that by (intro exI [of _ "int k"] exI [of _ "int m"]) simp
  have big: "of_nat k * 2 ^ m < (2 :: rat) ^ 128" if "k \<le> 2 ^ 20" for k
  proof -
    have "of_nat k * 2 ^ m \<le> (2 :: rat) ^ 20 * 2 ^ m"
      using that by (intro mult_right_mono) (simp_all only: of_nat_le_numeral_power_cancel_iff, simp_all)
    also have "\<dots> \<le> 2 ^ 20 * 2 ^ 100" using assms(7) by (intro mult_left_mono power_increasing) auto
    finally show ?thesis by simp
  qed
  show ?thesis unfolding ml_dot_def
  proof (rule for_each_upt_inv [where I = "\<lambda>i s. bnd (of_nat i * 2 ^ m) s"])
    show "bnd (of_nat 0 * 2 ^ m) (flit 0)" by (simp add: flit_def bnd_def bounded_def)
  next
    fix i s assume i: "i < n" and s: "bnd (of_nat i * 2 ^ m) s"
    have p: "bnd (2 ^ m) (a ! i * b ! i)"
      by (rule bnd_mul [of x _ y]) (use assms i b32 [of 1] big [of 1] in simp_all)
    have "bnd (of_nat (Suc i) * 2 ^ m) (store32 (s + a ! i * b ! i))"
      by (rule bnd_add [OF s p]) (use b32 [of "Suc i"] big [of "Suc i"] i assms(6) in \<open>simp_all add: algebra_simps\<close>)
    then show "\<exists>t. (do { x \<leftarrow> arr_get a i; y \<leftarrow> arr_get b i; Some (store32 (s + x * y)) }) = Some t \<and>
        bnd (of_nat (Suc i) * 2 ^ m) t" using i assms(1,2) by simp
  qed
qed

text \<open>A row of the matrix product is the dot product of that row of the matrix.\<close>

lemma row_eq_dot:
  assumes "r * cols + cols \<le> length A" and "k \<le> cols"
  shows "for_each (\<lambda>c s. do {
            a \<leftarrow> arr_get A (r * cols + c);
            b \<leftarrow> arr_get B c;
            Some (store32 (s + a * b)) }) [0..<k] s =
         for_each (\<lambda>i s. do {
            x \<leftarrow> arr_get (take cols (drop (r * cols) A)) i;
            y \<leftarrow> arr_get B i;
            Some (store32 (s + x * y)) }) [0..<k] s"
  using assms(2)
proof (induction k)
  case (Suc k)
  have "arr_get A (r * cols + k) = arr_get (take cols (drop (r * cols) A)) k"
    using Suc.prems assms(1) by (simp add: arr_get_def)
  then show ?case using Suc by (simp add: for_each_append)
qed simp

lemma ml_multiply_inv:
  assumes "rows * cols \<le> length A" and "rows \<le> length C"
    and row: "\<And>r. r < rows \<Longrightarrow> \<exists>s. ml_dot (take cols (drop (r * cols) A)) B cols = Some s \<and> Q s"
  shows "\<exists>C'. ml_multiply A B C rows cols = Some C' \<and> (length C' = length C \<and>
     (\<forall>r < rows. ml_dot (take cols (drop (r * cols) A)) B cols = Some (C' ! r) \<and> Q (C' ! r)) \<and>
     (\<forall>r. rows \<le> r \<longrightarrow> C' ! r = C ! r))"
  unfolding ml_multiply_def
proof (rule for_each_upt_inv [where I = "\<lambda>i D. length D = length C \<and>
     (\<forall>r < i. ml_dot (take cols (drop (r * cols) A)) B cols = Some (D ! r) \<and> Q (D ! r)) \<and>
     (\<forall>r. i \<le> r \<longrightarrow> D ! r = C ! r)"])
  fix i D
  assume i: "i < rows" and D: "length D = length C \<and>
     (\<forall>r < i. ml_dot (take cols (drop (r * cols) A)) B cols = Some (D ! r) \<and> Q (D ! r)) \<and>
     (\<forall>r. i \<le> r \<longrightarrow> D ! r = C ! r)"
  obtain s where s: "ml_dot (take cols (drop (i * cols) A)) B cols = Some s" "Q s" using row [OF i] by blast
  have "i * cols + cols \<le> rows * cols" using i by (metis add.commute mult_Suc mult_le_mono1 Suc_leI)
  then have "i * cols + cols \<le> length A" using assms(1) by linarith
  from row_eq_dot [OF this, of cols] s(1) have "for_each (\<lambda>c s. do {
            a \<leftarrow> arr_get A (i * cols + c);
            b \<leftarrow> arr_get B c;
            Some (store32 (s + a * b)) }) [0..<cols] (flit 0) = Some s"
    by (simp add: ml_dot_def)
  then show "\<exists>E. (do {
     s \<leftarrow> for_each (\<lambda>c s. do {
            a \<leftarrow> arr_get A (i * cols + c);
            b \<leftarrow> arr_get B c;
            Some (store32 (s + a * b)) }) [0..<cols] (flit 0);
     arr_set D i s }) = Some E \<and> length E = length C \<and>
     (\<forall>r < Suc i. ml_dot (take cols (drop (r * cols) A)) B cols = Some (E ! r) \<and> Q (E ! r)) \<and>
     (\<forall>r. Suc i \<le> r \<longrightarrow> E ! r = C ! r)"
    using i D s assms(2) by (auto simp: nth_list_update less_Suc_eq)
qed simp

lemma ml_add_bias_inv:
  assumes "n \<le> length x" and "n \<le> length bias"
  shows "\<exists>y. ml_add_bias x bias n = Some y \<and> (length y = length x \<and>
     (\<forall>i < n. y ! i = store32 (x ! i + bias ! i)) \<and> (\<forall>i. n \<le> i \<longrightarrow> y ! i = x ! i))"
  unfolding ml_add_bias_def
  by (rule for_each_upt_inv [where I = "\<lambda>k y. length y = length x \<and>
     (\<forall>i < k. y ! i = store32 (x ! i + bias ! i)) \<and> (\<forall>i. k \<le> i \<longrightarrow> y ! i = x ! i)"])
     (use assms in \<open>auto simp: nth_list_update less_Suc_eq\<close>)

lemma ml_relu_inv:
  assumes "n \<le> length x"
  shows "\<exists>y. ml_relu x n = Some y \<and> (length y = length x \<and>
     (\<forall>i < n. y ! i = ml_relu_scalar (x ! i)) \<and> (\<forall>i. n \<le> i \<longrightarrow> y ! i = x ! i))"
  unfolding ml_relu_def
  by (rule for_each_upt_inv [where I = "\<lambda>k y. length y = length x \<and>
     (\<forall>i < k. y ! i = ml_relu_scalar (x ! i)) \<and> (\<forall>i. k \<le> i \<longrightarrow> y ! i = x ! i)"])
     (use assms in \<open>auto simp: nth_list_update less_Suc_eq ml_relu_scalar_def\<close>)

lemma flit_small [simp]: "flit 0 = Fin 0" "flit 1 = Fin 1" "flit 6 = Fin 6" "flit 10 = Fin 10"
  "flit (1 / 2) = Fin (1 / 2)" "flit (1 / 4) = Fin (1 / 4)" "flit 100 = Fin 100"
proof -
  have e: "flit r = Fin r" if "b32 r" "\<bar>r\<bar> < 2 powi 128" for r
    using that by (simp add: flit_def r32.rnd_exact bounded_small)
  have half: "b32 (1 / 2)" "b32 (1 / 4)"
    unfolding b32_def
    by (intro exI [of _ 1] exI [of _ "- 1"]; simp add: power_int_minus)
       (intro exI [of _ 1] exI [of _ "- 2"]; simp add: power_int_minus)
  show "flit 0 = Fin 0" "flit 1 = Fin 1" "flit 6 = Fin 6" "flit 10 = Fin 10" "flit 100 = Fin 100"
    using e [of 0] e [of 1] e [of 6] e [of 10] e [of 100] b32_int [of 0] b32_int [of 1] b32_int [of 6]
      b32_int [of 10] b32_int [of 100] by simp_all
  show "flit (1 / 2) = Fin (1 / 2)" "flit (1 / 4) = Fin (1 / 4)"
    using e half by simp_all
qed

lemma bnd_relu: "bnd b v \<Longrightarrow> bnd b (ml_relu_scalar v) \<and> \<not> ml_relu_scalar v < Fin 0"
  by (auto simp: bnd_def ml_relu_scalar_def)

lemma clamp_01:
  assumes "x \<noteq> NaN"
  shows "\<exists>r. ml_clamp x (Fin 0) (Fin 1) = Fin r \<and> 0 \<le> r \<and> r \<le> 1"
  using assms by (cases x) (auto simp: ml_clamp_def)


text \<open>Evaluating a literal: its nearest 24-bit significand.\<close>

lemma flit_eqI:
  assumes "r = (of_int m + d) * 2 powi q" and "2 ^ 23 < m" and "m < 2 ^ 24" and "\<bar>d\<bar> < 1 / 2"
    and "- 149 \<le> q" and "q \<le> 100"
  shows "flit r = Fin (of_int m * 2 powi q)"
proof -
  have "of_int (2 ^ 23 + 1) \<le> (of_int m :: rat)" "of_int m \<le> (of_int (2 ^ 24 - 1) :: rat)"
    using assms(2,3) by (simp_all only: of_int_le_iff)
  then have m: "(2 :: rat) ^ 23 + 1 \<le> of_int m" "of_int m \<le> (2 :: rat) ^ 24 - 1" by simp_all
  have sig: "2 ^ 23 \<le> of_int m + d" "of_int m + d < 2 ^ 24" using m assms(4) by (auto simp: abs_if split: if_splits)
  have pos: "0 < r" using sig(1) by (simp add: assms(1))
  have lo: "2 powi (23 + q) \<le> r"
    using sig(1) unfolding assms(1) by (simp add: power_int_add)
  have hi: "r < 2 powi (24 + q)"
    using sig(2) unfolding assms(1) by (simp add: power_int_add)
  have "ilog2 r = 23 + q"
  proof -
    have "(2 :: rat) powi ilog2 r < 2 powi (24 + q)" using ilog2_bounds(1) [OF pos] hi by linarith
    moreover have "(2 :: rat) powi (23 + q) < 2 powi (ilog2 r + 1)" using ilog2_bounds(2) [OF pos] lo by linarith
    ultimately show ?thesis using powi_less_exp [of "ilog2 r"] powi_less_exp [of "23 + q"] by fastforce
  qed
  then have q: "ulp_exp 24 (- 149) r = q" using pos assms(5) by (simp add: ulp_exp_def)
  have "r / 2 powi q = of_int m + d" by (simp add: assms(1))
  moreover have "round_even (of_int m + d) = m"
  proof -
    have near: "\<bar>of_int (round_even (of_int m + d)) - (of_int m + d)\<bar> \<le> 1 / 2" by (rule round_even_near)
    have "\<bar>of_int (round_even (of_int m + d)) - of_int m\<bar> < (1 :: rat)"
      using near assms(4) by linarith
    then have "\<bar>of_int (round_even (of_int m + d) - m)\<bar> < (1 :: rat)" by simp
    then have "\<bar>round_even (of_int m + d) - m\<bar> < 1" by (simp only: of_int_abs [symmetric] of_int_1_less_iff
        of_int_less_1_iff)
    then show ?thesis by simp
  qed
  ultimately have rnd: "round32 r = of_int m * 2 powi q" by (simp add: round32_def round_to_def q)
  have "\<bar>of_int m * 2 powi q\<bar> < (2 :: rat) powi 128"
  proof -
    have "\<bar>of_int m * 2 powi q\<bar> \<le> (2 :: rat) ^ 24 * 2 powi q" using m by (simp add: abs_mult)
    also have "\<dots> = 2 powi (24 + q)" by (simp add: power_int_add)
    also have "\<dots> < 2 powi 128" using assms(6) by (intro power_int_strict_increasing) auto
    finally show ?thesis .
  qed
  then show ?thesis by (simp add: flit_def rnd bounded_small)
qed

lemma flit_sigmoid: "flit (20833 / 1000000) = Fin (1398079 / 67108864)"
  using flit_eqI [of "20833 / 1000000" 11184632 "- 4536 / 15625" "- 29"] by (simp add: power_int_minus)

lemma flit_micro: "\<exists>t. flit (1 / 1000000) = Fin t \<and> 0 < t \<and> t < 1"
  using flit_eqI [of "1 / 1000000" 8796093 "347 / 15625" "- 43"]
  by (intro exI [of _ "8796093 / 8796093022208"]) (simp add: power_int_minus)

section \<open>Properties\<close>

text \<open>
  \<open>ml_multiply\<close> computes, row by row, exactly the dot product \<open>ml_dot\<close> of that row of the
  row-major matrix with the vector, in the same rounding order; the rest of the output array is
  left alone.
\<close>

theorem ml_multiply_is_rowwise_dot:
  assumes "rows * cols \<le> length A" and "cols \<le> length B" and "rows \<le> length C"
  shows "\<exists>C'. ml_multiply A B C rows cols = Some C' \<and> length C' = length C \<and>
     (\<forall>r < rows. ml_dot (take cols (drop (r * cols) A)) B cols = Some (C' ! r)) \<and>
     (\<forall>r. rows \<le> r \<longrightarrow> C' ! r = C ! r)"
proof -
  have "\<exists>s. ml_dot (take cols (drop (r * cols) A)) B cols = Some s \<and> True" if "r < rows" for r
  proof -
    have "r * cols + cols \<le> rows * cols" using that by (metis add.commute mult_Suc mult_le_mono1 Suc_leI)
    then have len: "length (take cols (drop (r * cols) A)) = cols" using assms(1) by simp
    show ?thesis unfolding ml_dot_def
      by (rule for_each_upt_inv) (use len assms(2) in auto)
  qed
  from ml_multiply_inv [OF assms(1,3) this] show ?thesis by auto
qed

lemma ml_multiply_is_rowwise_dot_witness:
  "\<exists>C'. ml_multiply [Fin 1, Fin 2, Fin 3, Fin 4] [Fin 5, Fin 6] [NaN, NaN] 2 2 = Some C' \<and>
     ml_dot [Fin 3, Fin 4] [Fin 5, Fin 6] 2 = Some (C' ! 1)"
  using ml_multiply_is_rowwise_dot [of 2 2 "[Fin 1, Fin 2, Fin 3, Fin 4]" "[Fin 5, Fin 6]" "[NaN, NaN]"]
  by (auto simp: numeral_2_eq_2)


lemma b32_ratio: "\<bar>m\<bar> < 2 ^ 24 \<Longrightarrow> n \<le> 149 \<Longrightarrow> b32 (of_int m / 2 ^ n)"
  unfolding b32_def by (intro exI [of _ m] exI [of _ "- int n"]) (simp add: power_int_minus field_simps)

lemma ml_sigmoid_fin:
  assumes "\<bar>x\<bar> < 6"
  shows "\<exists>r. ml_sigmoid (Fin x) = Fin r \<and> 0 \<le> r \<and> r \<le> 1"
proof -
  have big: "b < 2 ^ 128" if "b \<le> 64" for b :: rat using that by (rule order.strict_trans1) simp
  have b: "b32 64" "b32 2" "b32 256" "b32 2048" using b32_power [of 6] b32_power [of 1] b32_power [of 8]
      b32_power [of 11] by simp_all
  have "bnd 6 (Fin x)" using assms by (simp add: bnd_def)
  then have "bnd 64 (Fin x * Fin x)" by (rule bnd_mul) (use \<open>bnd 6 (Fin x)\<close> b in auto)
  then have x2: "bnd 64 (store32 (Fin x * Fin x))" using bnd_store [of _ 64] b by (auto simp: bnd_def)
  have c: "bnd 1 (Fin (1398079 / 67108864))" by simp
  have p: "bnd 64 (store32 (Fin x * Fin x) * Fin (1398079 / 67108864))"
    using bnd_mul [OF x2 c, of 64] b by simp
  then obtain y where y: "store32 (Fin x * Fin x) * Fin (1398079 / 67108864) = Fin y" "\<bar>y\<bar> \<le> 64"
    by (auto simp: bnd_def)
  have "bnd 256 (x87 (1 / 4 + - y))" by (rule bnd_x87) (use y(2) b in auto)
  then obtain z where z: "Fin (1 / 4) - Fin y = Fin z" "\<bar>z\<bar> \<le> 256"
    by (auto simp: bnd_def flt_ops)
  have "bnd 2048 (Fin x * Fin z)" by (rule bnd_mul [of 6 _ 256]) (use z assms b in \<open>auto simp: bnd_def\<close>)
  moreover have "bnd 2 (Fin (1 / 2))" by simp
  moreover have "b32 4096" using b32_power [of 12] by simp
  ultimately have "bnd 4096 (store32 (Fin (1 / 2) + Fin x * Fin z))" using bnd_add [of 2 _ 2048 _ 4096] by simp
  then have nn: "store32 (Fin (1 / 2) + Fin x * Fin z) \<noteq> NaN" by (auto simp: bnd_def)
  have "\<not> Fin 6 \<le> Fin x" "\<not> Fin x \<le> - Fin 6" using assms by (auto simp: uminus_flt_def abs_if split: if_splits)
  then have "ml_sigmoid (Fin x) = ml_clamp (store32 (Fin (1 / 2) + Fin x * Fin z)) (Fin 0) (Fin 1)"
    by (simp add: ml_sigmoid_def Let_def flit_sigmoid y(1) z(1))
  with clamp_01 [OF nn] show ?thesis by simp
qed

text \<open>
  \<open>ml_sigmoid\<close> returns a number between 0 and 1 for every input but NaN, infinities included,
  and saturates exactly: 1 from 6 on, 0 up to -6.
\<close>

theorem ml_sigmoid_range:
  assumes "x \<noteq> NaN"
  shows "(\<exists>r. ml_sigmoid x = Fin r \<and> 0 \<le> r \<and> r \<le> 1) \<and>
     (Fin 6 \<le> x \<longrightarrow> ml_sigmoid x = Fin 1) \<and> (x \<le> Fin (- 6) \<longrightarrow> ml_sigmoid x = Fin 0)"
proof -
  have m6: "- Fin 6 = Fin (- 6)" by (simp add: uminus_flt_def)
  have hi: "ml_sigmoid x = Fin 1" if "Fin 6 \<le> x" using that by (simp add: ml_sigmoid_def)
  have lo: "ml_sigmoid x = Fin 0" if "x \<le> Fin (- 6)"
  proof -
    have "\<not> Fin 6 \<le> x" using that by (cases x) auto
    then show ?thesis using that by (simp add: ml_sigmoid_def m6)
  qed
  have "\<exists>r. ml_sigmoid x = Fin r \<and> 0 \<le> r \<and> r \<le> 1"
  proof (cases "Fin 6 \<le> x \<or> x \<le> Fin (- 6)")
    case True
    then show ?thesis using hi lo by auto
  next
    case False
    with assms obtain y where "x = Fin y" "\<bar>y\<bar> < 6" by (cases x) (auto simp: abs_less_iff)
    then show ?thesis using ml_sigmoid_fin by simp
  qed
  with hi lo show ?thesis by blast
qed

lemma ml_sigmoid_range_witness:
  "ml_sigmoid PInf = Fin 1 \<and> (\<exists>r. ml_sigmoid (Fin (- 7 / 3)) = Fin r \<and> 0 \<le> r \<and> r \<le> 1)"
  using ml_sigmoid_range [of PInf] ml_sigmoid_range [of "Fin (- 7 / 3)"] by simp


text \<open>Exact results: a significand of 64 (24) bits survives the rounding.\<close>

lemma quotient_le: "\<bar>of_int m / 2 ^ n\<bar> \<le> (of_int \<bar>m\<bar> :: rat)"
proof -
  have "(1 :: rat) \<le> 2 ^ n" by simp
  then have "\<bar>of_int m\<bar> * 1 \<le> \<bar>of_int m\<bar> * (2 :: rat) ^ n" by (intro mult_left_mono) auto
  then show ?thesis by (simp add: abs_divide pos_divide_le_eq)
qed

lemma x87_eqI:
  assumes "x = of_int m / 2 ^ n" and "\<bar>m\<bar> < 2 ^ 64" and "n \<le> 100"
  shows "x87 x = Fin x"
proof -
  have x: "x = of_int m * 2 powi (- int n)" by (simp add: assms(1) power_int_minus field_simps)
  have "round80 x = x" unfolding round80_def by (rule round_to_exact [OF x]) (use assms in auto)
  moreover have "\<bar>x\<bar> < 2 powi 16384"
  proof -
    have "\<bar>x\<bar> \<le> of_int \<bar>m\<bar>" unfolding assms(1) by (rule quotient_le)
    also have "\<dots> < of_int (2 ^ 64)" using assms(2) by (simp only: of_int_less_iff)
    also have "\<dots> = (2 :: rat) powi 64" by simp
    also have "\<dots> \<le> 2 powi 16384" by (rule power_int_increasing) auto
    finally show ?thesis .
  qed
  ultimately show ?thesis by (simp only: x87_def bounded_small)
qed

lemma store32_eqI:
  assumes "x = of_int m / 2 ^ n" and "\<bar>m\<bar> < 2 ^ 24" and "n \<le> 100"
  shows "store32 (Fin x) = Fin x"
proof -
  have "round32 x = x" using r32.rnd_exact [OF b32_ratio [OF assms(2), of n]] assms(1,3) by simp
  moreover have "\<bar>x\<bar> < 2 powi 128"
  proof -
    have "\<bar>x\<bar> \<le> of_int \<bar>m\<bar>" using quotient_le assms(1) by simp
    also have "\<dots> < of_int (2 ^ 24)" using assms(2) by (simp only: of_int_less_iff)
    finally show ?thesis by simp
  qed
  ultimately show ?thesis by (simp add: bounded_small)
qed

text \<open>
  The comments of \<open>ml_sigmoid\<close> promise an error of at most 0.04 at 4 (where the sigmoid is
  0.982).  The polynomial turns down before that: the value is 0.833 at 2, 0.167 at 4 and 0 at 5,
  then jumps to 1 at 6.  The score is not monotone in the activation.
\<close>

theorem ml_sigmoid_not_monotone:
  "ml_sigmoid (Fin 2) = Fin (6990529 / 8388608) \<and> ml_sigmoid (Fin 4) = Fin (174785 / 1048576) \<and>
   ml_sigmoid (Fin 5) = Fin 0 \<and> ml_sigmoid (Fin 6) = Fin 1"
proof -
  have m6: "- Fin 6 = Fin (- 6)" by (simp add: uminus_flt_def)
  note unf = ml_sigmoid_def Let_def flit_sigmoid flt_ops m6 ml_clamp_def
  have 2: "x87 4 = Fin 4" "store32 (Fin 4) = Fin 4" "x87 (1398079 / 16777216) = Fin (1398079 / 16777216)"
    "x87 (2796225 / 16777216) = Fin (2796225 / 16777216)" "x87 (2796225 / 8388608) = Fin (2796225 / 8388608)"
    "x87 (6990529 / 8388608) = Fin (6990529 / 8388608)"
    "store32 (Fin (6990529 / 8388608)) = Fin (6990529 / 8388608)"
    using x87_eqI [of 4 4 0] store32_eqI [of 4 4 0] x87_eqI [of "1398079 / 16777216" 1398079 24]
      x87_eqI [of "2796225 / 16777216" 2796225 24] x87_eqI [of "2796225 / 8388608" 2796225 23]
      x87_eqI [of "6990529 / 8388608" 6990529 23] store32_eqI [of "6990529 / 8388608" 6990529 23]
    by (simp_all del: store32.simps)
  have 4: "x87 16 = Fin 16" "store32 (Fin 16) = Fin 16" "x87 (1398079 / 4194304) = Fin (1398079 / 4194304)"
    "x87 (- 349503 / 4194304) = Fin (- 349503 / 4194304)" "x87 (- 349503 / 1048576) = Fin (- 349503 / 1048576)"
    "x87 (174785 / 1048576) = Fin (174785 / 1048576)" "store32 (Fin (174785 / 1048576)) = Fin (174785 / 1048576)"
    using x87_eqI [of 16 16 0] store32_eqI [of 16 16 0] x87_eqI [of "1398079 / 4194304" 1398079 22]
      x87_eqI [of "- 349503 / 4194304" "- 349503" 22] x87_eqI [of "- 349503 / 1048576" "- 349503" 20]
      x87_eqI [of "174785 / 1048576" 174785 20] store32_eqI [of "174785 / 1048576" 174785 20]
    by (simp_all del: store32.simps)
  have 5: "x87 25 = Fin 25" "store32 (Fin 25) = Fin 25" "x87 (34951975 / 67108864) = Fin (34951975 / 67108864)"
    "x87 (- 18174759 / 67108864) = Fin (- 18174759 / 67108864)"
    "x87 (- 90873795 / 67108864) = Fin (- 90873795 / 67108864)"
    "x87 (- 57319363 / 67108864) = Fin (- 57319363 / 67108864)"
    using x87_eqI [of 25 25 0] store32_eqI [of 25 25 0] x87_eqI [of "34951975 / 67108864" 34951975 26]
      x87_eqI [of "- 18174759 / 67108864" "- 18174759" 26] x87_eqI [of "- 90873795 / 67108864" "- 90873795" 26]
      x87_eqI [of "- 57319363 / 67108864" "- 57319363" 26]
    by (simp_all del: store32.simps)
  have neg: "store32 (Fin (- 57319363 / 67108864)) < Fin 0"
  proof -
    have "bnd 1 (store32 (Fin (- 57319363 / 67108864)))"
      by (rule bnd_store) (use b32_power [of 0] in auto)
    then obtain r where r: "store32 (Fin (- 57319363 / 67108864)) = Fin r" by (auto simp: bnd_def)
    have "round32 (- 57319363 / 67108864) \<le> - (1 / 2)"
      using r32.rnd_mono [of "- 57319363 / 67108864" "- (1 / 2)"] r32.rnd_exact [OF b32_ratio [of "- 1" 1]] by simp
    then have "r < 0" using r by (auto simp: bounded_def inf_sign_def split: if_splits)
    then show ?thesis using r by simp
  qed
  have "ml_sigmoid (Fin 2) = Fin (6990529 / 8388608)" using 2 by (simp add: unf del: store32.simps)
  moreover have "ml_sigmoid (Fin 4) = Fin (174785 / 1048576)" using 4 by (simp add: unf del: store32.simps)
  moreover have "ml_sigmoid (Fin 5) = Fin 0" using 5 neg by (simp add: unf del: store32.simps)
  moreover have "ml_sigmoid (Fin 6) = Fin 1" by (simp add: ml_sigmoid_def)
  ultimately show ?thesis by blast
qed


text \<open>\<open>ml_normalize\<close> as the scheduler uses it: the lower end is 0, the upper end a positive integer.\<close>

lemma normalize_eq:
  assumes "b32 v" and "\<bar>v\<bar> \<le> 2 ^ 60" and "0 < n" and "n < 2 ^ 24"
  shows "ml_normalize (Fin v) (Fin 0) (Fin (of_int n)) =
    ml_clamp (Fin (round32 (round80 (v / of_int n)))) (Fin 0) (Fin 1)"
proof -
  let ?n = "of_int n :: rat"
  have n1: "1 \<le> ?n" using assms(3) by simp
  have xn: "x87 ?n = Fin ?n" "store32 (Fin ?n) = Fin ?n"
    using x87_eqI [of ?n n 0] store32_eqI [of ?n n 0] assms(3,4) by (simp_all del: store32.simps)
  have b60: "b32 (2 ^ 60)" by (rule b32_power)
  have "bnd (2 ^ 60) (x87 v)" by (rule bnd_x87) (use assms b60 in auto)
  then have xv: "x87 v = Fin v" using r80.rnd_exact [OF assms(1)]
    by (auto simp: x87_def bnd_def bounded_def inf_sign_def split: if_splits)
  have "\<bar>v / ?n\<bar> \<le> \<bar>v\<bar>" using n1 mult_left_mono [OF n1, of "\<bar>v\<bar>"] by (simp add: abs_divide pos_divide_le_eq)
  then have q: "\<bar>v / ?n\<bar> \<le> 2 ^ 60" using assms(2) by linarith
  have "bnd (2 ^ 60) (x87 (v / ?n))" by (rule bnd_x87) (use q b60 in auto)
  then have xq: "x87 (v / ?n) = Fin (round80 (v / ?n))" "\<bar>round80 (v / ?n)\<bar> \<le> 2 ^ 60"
    by (auto simp: x87_def bnd_def bounded_def inf_sign_def split: if_splits)
  have "bnd (2 ^ 60) (store32 (Fin (round80 (v / ?n))))" by (rule bnd_store) (use xq(2) b60 in auto)
  then have sq: "store32 (Fin (round80 (v / ?n))) = Fin (round32 (round80 (v / ?n)))"
    by (auto simp: bnd_def bounded_def inf_sign_def split: if_splits)
  obtain t where "flit (1 / 1000000) = Fin t" "t < 1" using flit_micro by blast
  then have "\<not> Fin ?n < flit (1 / 1000000)" using n1 by simp
  then show ?thesis
    using xn xv xq(1) sq assms(3) by (simp add: ml_normalize_def Let_def flt_ops del: store32.simps)
qed

text \<open>
  As the scheduler calls it (range 0 to \<open>n\<close>), \<open>ml_normalize\<close> maps every float to a number
  between 0 and 1 and preserves the order, rounding included; it gives 0 for everything up to 0
  and 1 for everything from \<open>n\<close> on.
\<close>

theorem ml_normalize_monotone:
  assumes "b32 v" and "b32 v'" and "\<bar>v\<bar> \<le> 2 ^ 60" and "\<bar>v'\<bar> \<le> 2 ^ 60" and "0 < n" and "n < 2 ^ 24"
    and "v \<le> v'"
  shows "\<exists>r r'. ml_normalize (Fin v) (Fin 0) (Fin (of_int n)) = Fin r \<and>
     ml_normalize (Fin v') (Fin 0) (Fin (of_int n)) = Fin r' \<and>
     0 \<le> r \<and> r \<le> r' \<and> r' \<le> 1 \<and> (v \<le> 0 \<longrightarrow> r = 0) \<and> (of_int n \<le> v \<longrightarrow> r = 1)"
proof -
  let ?f = "\<lambda>v. round32 (round80 (v / of_int n))"
  have n: "0 < (of_int n :: rat)" using assms(5) by simp
  have mono: "?f v \<le> ?f v'"
    using assms(7) n by (intro r32.rnd_mono r80.rnd_mono divide_right_mono) auto
  have lo: "?f v \<le> 0" if "v \<le> 0"
  proof -
    have "v / of_int n \<le> 0" using that n by (simp add: divide_le_0_iff)
    from r32.rnd_mono [OF r80.rnd_mono [OF this]] show ?thesis by simp
  qed
  have hi: "1 \<le> ?f v" if "of_int n \<le> v"
  proof -
    have "1 \<le> v / of_int n" using that n by (simp add: pos_le_divide_eq)
    from r32.rnd_mono [OF r80.rnd_mono [OF this]] show ?thesis by simp
  qed
  let ?c = "\<lambda>x :: rat. if x < 0 then 0 else if 1 < x then 1 else x"
  have "ml_normalize (Fin v) (Fin 0) (Fin (of_int n)) = Fin (?c (?f v))"
    "ml_normalize (Fin v') (Fin 0) (Fin (of_int n)) = Fin (?c (?f v'))"
    using normalize_eq assms(1-6) by (auto simp: ml_clamp_def)
  moreover have "0 \<le> ?c (?f v)" "?c (?f v) \<le> ?c (?f v')" "?c (?f v') \<le> 1" using mono by auto
  moreover have "?c (?f v) = 0" if "v \<le> 0" using lo [OF that] by auto
  moreover have "?c (?f v) = 1" if "of_int n \<le> v" using hi [OF that] by auto
  ultimately show ?thesis by blast
qed

lemma ml_normalize_monotone_witness:
  "\<exists>r. ml_normalize (Fin 50) (Fin 0) (Fin 100) = Fin r \<and> r \<le> 1 \<and> ml_normalize (Fin 200) (Fin 0) (Fin 100) = Fin 1"
  using ml_normalize_monotone [of 50 50 100] ml_normalize_monotone [of 200 200 100] b32_int [of 50] b32_int [of 200]
  by auto


section \<open>Number formatting and inference\<close>

lemma not_sless_0: "\<not> (x :: u32) <s 0 \<longleftrightarrow> 0 <s x \<or> x = 0"
proof -
  have "sint x = 0 \<longleftrightarrow> x = 0"
  proof
    assume "sint x = 0"
    then have "uint x = 0" using uint_lt2p [of x] by (auto simp: sint_u32 split: if_splits)
    then show "x = 0" by (simp add: unsigned_eq_0_iff)
  qed simp
  then show ?thesis by (auto simp: word_sless_alt)
qed

lemma its_digits_eq: "\<not> val <s 0 \<Longrightarrow> its_digits val i tmp = uts_digits val i tmp"
proof (induction val i tmp rule: its_digits.induct)
  case (1 val i tmp)
  have div: "\<not> val div 10 <s 0"
  proof -
    have "uint val < 2 ^ 31" using 1(2) uint_lt2p [of val]
      by (simp add: word_sless_alt sint_u32 split: if_splits)
    then have "uint (val div 10) < 2 ^ 31" by (simp add: uint_div)
    then show ?thesis by (simp add: word_sless_alt sint_u32)
  qed
  show ?case
  proof (cases "val = 0")
    case True
    then show ?thesis by (simp add: its_digits.simps [of 0] uts_digits.simps [of 0])
  next
    case False
    then have pos: "0 <s val" "0 < val" using 1(2) by (auto simp: not_sless_0 word_gt_0)
    show ?thesis
      using 1(1) [OF pos(1) _ div] pos
      by (subst its_digits.simps, subst uts_digits.simps) (auto split: Option.bind_splits)
  qed
qed

lemma write_digits:
  assumes "set js \<subseteq> {..<length tmp}" and "p + length js \<le> length buf"
  shows "for_each (\<lambda>j (p, buf). do {
          c \<leftarrow> arr_get tmp j;
          buf \<leftarrow> arr_set buf p c;
          Some (p + 1, buf) }) js (p, buf) =
    Some (p + length js, take p buf @ map (\<lambda>j. tmp ! j) js @ drop (p + length js) buf)"
  using assms
proof (induction js arbitrary: p buf)
  case (Cons j js)
  have "buf[p := tmp ! j] = take p buf @ tmp ! j # drop (Suc p) buf"
    using Cons.prems(2) by (simp add: upd_conv_take_nth_drop)
  then show ?case using Cons by (simp add: add_ac)
qed simp

definition int_text :: "u32 \<Rightarrow> u8 list" where
  "int_text val = (if val <s 0 then 45 # (if - val <s 0 then [] else decimal (unat (- val)))
                   else decimal (unat val))"

lemma length_int_text: "1 \<le> length (int_text val)" "length (int_text val) \<le> 11"
  "\<not> val <s 0 \<Longrightarrow> length (int_text val) \<le> 10"
  using length_decimal_u32 [of val] length_decimal_u32 [of "- val"] decimal_nonempty [of "unat val"]
  by (auto simp: int_text_def Suc_le_eq simp del: decimal_nonempty)

lemma digits_written:
  assumes "\<not> val <s 0"
  shows "\<exists>i tmp. its_digits val 0 (replicate 12 0) = Some (i, tmp) \<and> i \<le> length tmp \<and>
     map (\<lambda>j. tmp ! j) (rev [0..<i]) = (if val = 0 then [] else decimal (unat val))"
proof (cases "val = 0")
  case True
  then show ?thesis by (simp add: its_digits.simps [of 0])
next
  case False
  let ?n = "length (decimal (unat val))"
  have n: "?n \<le> 12" using length_decimal_u32 [of val] by simp
  have "replicate 12 0 = replicate ?n 0 @ replicate (12 - ?n) (0 :: u8)"
    using n by (simp flip: replicate_add)
  then have "its_digits val 0 (replicate 12 0) = Some (?n, rev (decimal (unat val)) @ replicate (12 - ?n) 0)"
    using uts_digits_eq [of "replicate ?n 0" val "[]"] False assms
    by (simp add: its_digits_eq word_gt_0)
  moreover have "map (\<lambda>j. (rev (decimal (unat val)) @ replicate (12 - ?n) 0) ! j) (rev [0..<?n]) = decimal (unat val)"
    by (intro nth_equalityI) (auto simp: nth_append rev_nth)
  ultimately show ?thesis using False by simp
qed

lemma ml_int_to_str_eq:
  assumes "p + length (int_text val) \<le> length buf"
  shows "ml_int_to_str val p buf =
     Some (p + length (int_text val), take p buf @ int_text val @ drop (p + length (int_text val)) buf)"
proof -
  consider "val = 0" | "val \<noteq> 0" "val <s 0" | "val \<noteq> 0" "\<not> val <s 0" by blast
  then show ?thesis
  proof cases
    case 1
    have "decimal 0 = [48]" by (subst decimal.simps) simp
    then have "int_text val = [48]" using 1 by (simp add: int_text_def)
    then show ?thesis using assms 1 by (simp add: ml_int_to_str_def upd_conv_take_nth_drop)
  next
    case 3
    then have it: "int_text val = decimal (unat val)" by (simp add: int_text_def)
    obtain i tmp where d: "its_digits val 0 (replicate 12 0) = Some (i, tmp)" "i \<le> length tmp"
      "map (\<lambda>j. tmp ! j) (rev [0..<i]) = decimal (unat val)"
      using digits_written [OF 3(2)] 3(1) by auto
    have i: "i = length (decimal (unat val))" using arg_cong [OF d(3), of length] by simp
    have sub: "set (rev [0..<i]) \<subseteq> {..<length tmp}" using d(2) by auto
    have "p + length (rev [0..<i]) \<le> length buf" using assms it i by simp
    from write_digits [OF sub this] show ?thesis
      using 3 d(1,3) it i by (simp add: ml_int_to_str_def)
  next
    case 2
    have p: "p < length buf" using assms length_int_text(1) [of val] by simp
    have buf: "buf[p := 45] = take p buf @ 45 # drop (Suc p) buf"
      using p by (simp add: upd_conv_take_nth_drop)
    obtain ds where ds: "int_text val = 45 # ds" "ds = (if - val <s 0 then [] else decimal (unat (- val)))"
      using 2 by (simp add: int_text_def)
    obtain i tmp where d: "its_digits (- val) 0 (replicate 12 0) = Some (i, tmp)" "i \<le> length tmp"
      "map (\<lambda>j. tmp ! j) (rev [0..<i]) = ds"
    proof (cases "- val <s 0")
      case True
      then have "its_digits (- val) 0 (replicate 12 0) = Some (0, replicate 12 0)"
        by (subst its_digits.simps) (auto simp: word_sless_alt)
      then show ?thesis using that True ds(2) by auto
    next
      case False
      have "- val \<noteq> 0" using 2 by simp
      then show ?thesis using that digits_written [OF False] ds(2) False by auto
    qed
    have i: "i = length ds" using arg_cong [OF d(3), of length] by simp
    have sub: "set (rev [0..<i]) \<subseteq> {..<length tmp}" using d(2) by auto
    have le: "p + 1 + length (rev [0..<i]) \<le> length (buf[p := 45])" using assms ds(1) i by simp
    have tk: "take (p + 1) (buf[p := 45]) = take p buf @ [45]"
      using p by (simp add: buf)
    have "drop (p + 1 + i) (buf[p := 45]) = drop (p + 1 + i) buf" by simp
    with write_digits [OF sub le] tk show ?thesis
      using 2 p d(1,3) ds(1) i by (simp add: ml_int_to_str_def)
  qed
qed

lemma frac_loop:
  assumes "p + n \<le> length buf"
  shows "\<exists>buf' f'. for_each (\<lambda>_ (p, buf, frac_part). do {
         let frac_part = store32 (frac_part * flit 10);
         let digit = int_of_float frac_part;
         buf \<leftarrow> arr_set buf p (ucast (48 + digit));
         Some (p + 1, buf, store32 (frac_part - float_of_int (sint digit))) })
         [0..<n] (p, buf, f) = Some (p + n, buf', f') \<and> length buf' = length buf \<and> take p buf' = take p buf"
proof -
  have "\<exists>t. for_each (\<lambda>_ (p, buf, frac_part). do {
         let frac_part = store32 (frac_part * flit 10);
         let digit = int_of_float frac_part;
         buf \<leftarrow> arr_set buf p (ucast (48 + digit));
         Some (p + 1, buf, store32 (frac_part - float_of_int (sint digit))) })
         [0..<n] (p, buf, f) = Some t \<and>
      (fst t = p + n \<and> length (fst (snd t)) = length buf \<and> take p (fst (snd t)) = take p buf)"
    by (rule for_each_upt_inv [where I = "\<lambda>i t. fst t = p + i \<and> length (fst (snd t)) = length buf \<and>
          take p (fst (snd t)) = take p buf"])
       (use assms in \<open>auto simp: Let_def\<close>)
  then show ?thesis by auto
qed

text \<open>The text before the decimal point.\<close>

definition head_text :: "flt \<Rightarrow> u8 list" where
  "head_text val = (if val < Fin 0 then 45 # int_text (int_of_float (- val)) else int_text (int_of_float val))"

lemma ml_float_to_str_run:
  assumes "0 < n" and "length (head_text val) + 1 + n \<le> length buf"
  shows "\<exists>b. ml_float_to_str val buf n = arr_set b (length (head_text val) + 1 + n) 0 \<and>
     length b = length buf \<and> take (length (head_text val) + 1) b = head_text val @ [46]"
proof -
  define v where "v = (if val < Fin 0 then - val else val)"
  define sgn where "sgn = (if val < Fin 0 then [45] else [] :: u8 list)"
  let ?t = "int_text (int_of_float v)"
  define buf1 where "buf1 = (if val < Fin 0 then buf[0 := 45] else buf)"
  have ht: "head_text val = sgn @ ?t" by (simp add: head_text_def v_def sgn_def)
  have len1: "length buf1 = length buf" by (simp add: buf1_def)
  have sg: "take (length sgn) buf1 = sgn" "length sgn + length ?t + 1 + n \<le> length buf"
    using assms(2) ht by (cases buf; auto simp: sgn_def buf1_def)+
  have first: "(if val < flit 0 then do { buf \<leftarrow> arr_set buf 0 45; Some (- val, 1, buf) }
                else Some (val, 0, buf)) = Some (v, length sgn, buf1)"
    using assms(2) by (cases buf) (auto simp: v_def sgn_def buf1_def)
  define buf2 where "buf2 = take (length sgn) buf1 @ ?t @ drop (length sgn + length ?t) buf1"
  have int: "ml_int_to_str (int_of_float v) (length sgn) buf1 = Some (length sgn + length ?t, buf2)"
    unfolding buf2_def using sg(2) len1 by (intro ml_int_to_str_eq) simp
  have b2: "length buf2 = length buf" "take (length sgn + length ?t) buf2 = sgn @ ?t"
    using sg len1 by (simp_all add: buf2_def)
  define q where "q = length sgn + length ?t"
  have q: "q + 1 + n \<le> length buf2" using sg(2) b2(1) by (simp add: q_def)
  let ?f = "store32 (v - float_of_int (sint (int_of_float v)))"
  from frac_loop [of "q + 1" n "buf2[q := 46]" ?f] q obtain b f' where
    fl: "for_each (\<lambda>_ (p, buf, frac_part). do {
         let frac_part = store32 (frac_part * flit 10);
         let digit = int_of_float frac_part;
         buf \<leftarrow> arr_set buf p (ucast (48 + digit));
         Some (p + 1, buf, store32 (frac_part - float_of_int (sint digit))) })
         [0..<n] (q + 1, buf2[q := 46], ?f) = Some (q + 1 + n, b, f')"
      "length b = length buf2" "take (q + 1) b = take (q + 1) (buf2[q := 46])" by auto
  have "take (q + 1) (buf2[q := 46]) = sgn @ ?t @ [46]"
    using b2(2) q by (simp add: take_Suc_conv_app_nth q_def)
  moreover have "ml_float_to_str val buf n = arr_set b (q + 1 + n) 0"
    unfolding ml_float_to_str_def first using int q assms(1) fl(1)
    by (simp add: Let_def flip: q_def)
  ultimately show ?thesis using fl b2(1) ht by (auto simp: q_def)
qed


lemma int_of_float_range:
  assumes "0 \<le> r"
  shows "r < 2 ^ 31 \<Longrightarrow> unat (int_of_float (Fin r)) = nat \<lfloor>r\<rfloor> \<and> \<not> int_of_float (Fin r) <s 0"
    and "2 ^ 31 \<le> r \<Longrightarrow> int_of_float (Fin r) = 0x80000000"
proof -
  have f0: "0 \<le> \<lfloor>r\<rfloor>" using assms by simp
  {
    assume "r < 2 ^ 31"
    then have f: "\<lfloor>r\<rfloor> < 2 ^ 31" by (simp add: floor_less_iff)
    then have i: "int_of_float (Fin r) = of_int \<lfloor>r\<rfloor>" using assms f0 by (simp add: int_of_float_def)
    have u: "uint (of_int \<lfloor>r\<rfloor> :: u32) = \<lfloor>r\<rfloor>" using f0 f by (simp add: uint_word_of_int)
    then have "\<not> (of_int \<lfloor>r\<rfloor> :: u32) <s 0" using f f0 by (simp add: word_sless_alt sint_u32)
    with u i show "unat (int_of_float (Fin r)) = nat \<lfloor>r\<rfloor> \<and> \<not> int_of_float (Fin r) <s 0"
      by (simp add: unat_eq_nat_uint)
  next
    assume "2 ^ 31 \<le> r"
    then have "2 ^ 31 \<le> \<lfloor>r\<rfloor>" by (simp add: le_floor_iff)
    then show "int_of_float (Fin r) = 0x80000000" using assms by (simp add: int_of_float_def)
  }
qed

lemma int_text_indefinite: "int_text 0x80000000 = [45]"
  by (simp add: int_text_def word_sless_alt sint_u32)

lemma int_text_nonneg:
  assumes "\<not> v < Fin 0"
  shows "length (int_text (int_of_float v)) \<le> 10"
proof (cases v)
  case (Fin r)
  then have "0 \<le> r" using assms by simp
  then show ?thesis
    using int_of_float_range [of r] length_int_text(3) [of "int_of_float (Fin r)"] Fin int_text_indefinite
    by (cases "r < 2 ^ 31") auto
qed (simp_all add: int_of_float_def int_text_indefinite)

lemma length_head_text: "length (head_text v) \<le> 11"
proof (cases "v < Fin 0")
  case True
  then have "\<not> - v < Fin 0" by (cases v) (auto simp: uminus_flt_def)
  from int_text_nonneg [OF this] show ?thesis using True by (simp add: head_text_def)
next
  case False
  from int_text_nonneg [OF False] show ?thesis using False by (simp add: head_text_def)
qed

text \<open>
  \<open>ml_float_to_str\<close> with \<open>n\<close> fraction digits never writes past a buffer of \<open>13 + n\<close> bytes, for
  any float (infinities and NaN included); the text starts with the exact decimal of the integer
  part and a point, and is terminated after \<open>n\<close> more characters.  The 16 bytes \<open>ml_print_vec\<close>
  provides for 4 digits are one too few: -1000000000 overruns them.
\<close>

theorem ml_float_to_str_fits:
  assumes "0 < n" and "13 + n \<le> length buf"
  shows "(\<exists>b. ml_float_to_str val buf n = Some b \<and> length b = length buf \<and>
       take (length (head_text val) + 1) b = head_text val @ [46] \<and>
       b ! (length (head_text val) + 1 + n) = 0) \<and>
     (\<forall>r. val = Fin r \<and> 0 \<le> r \<and> r < 2 ^ 31 \<longrightarrow> head_text val = decimal (nat \<lfloor>r\<rfloor>)) \<and>
     ml_float_to_str (Fin (- 1000000000)) (replicate 16 0) 4 = None"
proof (intro conjI allI impI)
  have fit: "length (head_text val) + 1 + n < length buf" using length_head_text [of val] assms(2) by simp
  obtain b where b: "ml_float_to_str val buf n = arr_set b (length (head_text val) + 1 + n) 0"
    "length b = length buf" "take (length (head_text val) + 1) b = head_text val @ [46]"
    using ml_float_to_str_run [OF assms(1), of val buf] fit by auto
  then show "\<exists>b. ml_float_to_str val buf n = Some b \<and> length b = length buf \<and>
       take (length (head_text val) + 1) b = head_text val @ [46] \<and>
       b ! (length (head_text val) + 1 + n) = 0"
    using fit by (intro exI [of _ "b[length (head_text val) + 1 + n := 0]"]) simp
next
  fix r assume "val = Fin r \<and> 0 \<le> r \<and> r < 2 ^ 31"
  then show "head_text val = decimal (nat \<lfloor>r\<rfloor>)"
    using int_of_float_range(1) [of r] by (simp add: head_text_def int_text_def)
next
  have u: "unat (int_of_float (Fin 1000000000)) = 1000000000" "\<not> int_of_float (Fin 1000000000) <s 0"
    using int_of_float_range(1) [of 1000000000] by simp_all
  have "length (decimal 1000000000) = 10" by (simp add: decimal.simps)
  then have "length (head_text (Fin (- 1000000000))) = 11"
    using u by (simp add: head_text_def uminus_flt_def int_text_def)
  then show "ml_float_to_str (Fin (- 1000000000)) (replicate 16 0) 4 = None"
    using ml_float_to_str_run [of 4 "Fin (- 1000000000)" "replicate 16 0"] by (auto simp: arr_set_def)
qed

lemma ml_float_to_str_fits_witness:
  "\<exists>b. ml_float_to_str (Fin 3) (replicate 16 0) 3 = Some b \<and> take 2 b = [51, 46] \<and> b ! 5 = 0"
proof -
  note fits = ml_float_to_str_fits [of 3 "replicate 16 0" "Fin 3"]
  have "decimal 3 = [51]" by (subst decimal.simps) simp
  then have "head_text (Fin 3) = [51]" using fits by simp
  then show ?thesis using fits by (auto simp: numeral_2_eq_2)
qed

text \<open>One affine layer on bounded data.\<close>

lemma affine_layer:
  assumes "length A = rows * cols" and "length B = cols" and "length bias = rows"
    and "\<forall>v \<in> set A. bnd x v" and "\<forall>v \<in> set B. bnd y v" and "\<forall>v \<in> set bias. bnd c v"
    and "x * y = 2 ^ m" and "cols < 2 ^ 20" and "m < 100"
    and "of_nat cols * 2 ^ m + c \<le> 2 ^ k" and "k < 128"
  shows "\<exists>C D. ml_multiply A B (replicate rows (Fin 0)) rows cols = Some C \<and>
     ml_add_bias C bias rows = Some D \<and> length D = rows \<and> (\<forall>v \<in> set D. bnd (2 ^ k) v)"
proof -
  have dot: "\<exists>s. ml_dot (take cols (drop (r * cols) A)) B cols = Some s \<and> bnd (of_nat cols * 2 ^ m) s"
    if "r < rows" for r
  proof -
    have "r * cols + cols \<le> rows * cols" using that by (metis add.commute mult_Suc mult_le_mono1 Suc_leI)
    then have "length (take cols (drop (r * cols) A)) = cols" using assms(1) by simp
    moreover have "set (take cols (drop (r * cols) A)) \<subseteq> set A" by (metis set_drop_subset set_take_subset subset_trans)
    ultimately show ?thesis using assms(2,4,5,7-9)
      by (intro ml_dot_bounded [where x = x and y = y]) (auto simp: subset_iff)
  qed
  obtain C where C: "ml_multiply A B (replicate rows (Fin 0)) rows cols = Some C" "length C = rows"
    "\<forall>r < rows. bnd (of_nat cols * 2 ^ m) (C ! r)"
    using ml_multiply_inv [of rows cols A "replicate rows (Fin 0)" B "bnd (of_nat cols * 2 ^ m)"] dot assms(1)
    by auto
  obtain D where D: "ml_add_bias C bias rows = Some D" "length D = rows"
    "\<forall>i < rows. D ! i = store32 (C ! i + bias ! i)"
    using ml_add_bias_inv [of rows C bias] C(2) assms(3) by auto
  have "bnd (2 ^ k) (D ! i)" if "i < rows" for i
  proof -
    have "bnd (2 ^ k) (store32 (C ! i + bias ! i))"
      by (rule bnd_add [OF _ _ assms(10)]) (use C(3) assms(3,6) that b32_power power_strict_increasing [OF assms(11), of "2 :: rat"] in auto)
    then show ?thesis using D(3) that by simp
  qed
  then show ?thesis using C(1) D by (auto simp: in_set_conv_nth)
qed

lemma relu_layer:
  assumes "\<forall>v \<in> set D. bnd b v"
  shows "\<exists>E. ml_relu D (length D) = Some E \<and> length E = length D \<and> (\<forall>v \<in> set E. bnd b v \<and> \<not> v < Fin 0)"
proof -
  obtain E where E: "ml_relu D (length D) = Some E" "length E = length D"
    "\<forall>i < length D. E ! i = ml_relu_scalar (D ! i)" using ml_relu_inv [of "length D" D] by auto
  have "bnd b v \<and> \<not> v < Fin 0" if "v \<in> set E" for v
  proof -
    obtain i where i: "i < length D" "v = ml_relu_scalar (D ! i)" using \<open>v \<in> set E\<close> E by (auto simp: in_set_conv_nth)
    then have "bnd b (D ! i)" using assms by simp
    from bnd_relu [OF this] i(2) show ?thesis by simp
  qed
  with E show ?thesis by blast
qed

definition net_ok :: "net \<Rightarrow> bool" where
  "net_ok w \<longleftrightarrow> length (weights_l1 w) = 32 \<and> length (bias_l1 w) = 8 \<and> length (weights_l2 w) = 32 \<and>
     length (bias_l2 w) = 4 \<and> length (weights_l3 w) = 4 \<and> length (bias_l3 w) = 1"

definition net_bounded :: "net \<Rightarrow> bool" where
  "net_bounded w \<longleftrightarrow> (\<forall>v \<in> set (weights_l1 w @ bias_l1 w @ weights_l2 w @ bias_l2 w @ weights_l3 w @ bias_l3 w).
     bnd (2 ^ 20) v)"

lemma ml_infer_in_range:
  assumes "net_ok w" and "net_bounded w" and "length input = 4" and "\<forall>v \<in> set input. bnd 1 v"
  shows "\<exists>r. ml_infer w input = Some (Fin r) \<and> 0 \<le> r \<and> r \<le> 1"
proof -
  note dims = L1_IN_def L1_OUT_def L2_IN_def L2_OUT_def L3_IN_def L3_OUT_def
  obtain C1 D1 where l1: "ml_multiply (weights_l1 w) input (replicate 8 (Fin 0)) 8 4 = Some C1"
    "ml_add_bias C1 (bias_l1 w) 8 = Some D1" "length D1 = 8" "\<forall>v \<in> set D1. bnd (2 ^ 23) v"
    using affine_layer [of "weights_l1 w" 8 4 input "bias_l1 w" "2 ^ 20" 1 "2 ^ 20" 20 23] assms
    by (auto simp: net_ok_def net_bounded_def)
  obtain E1 where e1: "ml_relu D1 8 = Some E1" "length E1 = 8" "\<forall>v \<in> set E1. bnd (2 ^ 23) v \<and> \<not> v < Fin 0"
    using relu_layer [OF l1(4)] l1(3) by auto
  obtain t where t: "ml_float_to_str (E1 ! 0) (replicate 16 0) 3 = Some t"
  proof -
    have "\<not> E1 ! 0 < Fin 0" using e1(2,3) by simp
    then have "length (head_text (E1 ! 0)) \<le> 10" using int_text_nonneg by (simp add: head_text_def)
    then show ?thesis using ml_float_to_str_run [of 3 "E1 ! 0" "replicate 16 0"] that by auto
  qed
  obtain C2 D2 where l2: "ml_multiply (weights_l2 w) E1 (replicate 4 (Fin 0)) 4 8 = Some C2"
    "ml_add_bias C2 (bias_l2 w) 4 = Some D2" "length D2 = 4" "\<forall>v \<in> set D2. bnd (2 ^ 47) v"
    using affine_layer [of "weights_l2 w" 4 8 E1 "bias_l2 w" "2 ^ 20" "2 ^ 23" "2 ^ 20" 43 47] assms e1
    by (auto simp: net_ok_def net_bounded_def)
  obtain E2 where e2: "ml_relu D2 4 = Some E2" "length E2 = 4" "\<forall>v \<in> set E2. bnd (2 ^ 47) v"
    using relu_layer [OF l2(4)] l2(3) by auto
  obtain C3 D3 where l3: "ml_multiply (weights_l3 w) E2 (replicate 1 (Fin 0)) 1 4 = Some C3"
    "ml_add_bias C3 (bias_l3 w) 1 = Some D3" "length D3 = 1" "\<forall>v \<in> set D3. bnd (2 ^ 70) v"
    using affine_layer [of "weights_l3 w" 1 4 E2 "bias_l3 w" "2 ^ 20" "2 ^ 47" "2 ^ 20" 67 70] assms e2
    by (auto simp: net_ok_def net_bounded_def)
  have "bnd (2 ^ 70) (D3 ! 0)" using l3(3,4) by simp
  then have "D3 ! 0 \<noteq> NaN" by (auto simp: bnd_def)
  moreover have "ml_infer w input = Some (ml_sigmoid (D3 ! 0))"
    using l1 e1 t l2 e2 l3 by (simp add: ml_infer_def dims)
  ultimately show ?thesis using ml_sigmoid_range by auto
qed

text \<open>
  C28: With finite weights of magnitude at most 2^20 and the four inputs between -1 and 1 (the
  scheduler passes normalised ones), \<open>ml_infer\<close> performs no out-of-bounds access, never meets an
  infinity or NaN, and returns a score between 0 and 1.
\<close>

theorem ml_infer_score_in_range:
  assumes "net_ok w" and "net_bounded w" and "length input = 4" and "\<forall>v \<in> set input. bnd 1 v"
  shows "\<exists>r. ml_infer w input = Some (Fin r) \<and> 0 \<le> r \<and> r \<le> 1"
  using assms by (rule ml_infer_in_range)

lemma ml_infer_score_in_range_witness:
  "\<exists>r. ml_infer \<lparr>weights_l1 = replicate 32 (Fin 1), bias_l1 = replicate 8 (Fin (- 1)),
       weights_l2 = replicate 32 (Fin (1 / 2)), bias_l2 = replicate 4 (Fin 0),
       weights_l3 = replicate 4 (Fin 2), bias_l3 = [Fin (- 3)]\<rparr> [Fin 1, Fin 0, Fin (1 / 2), Fin 1] = Some (Fin r) \<and>
     0 \<le> r \<and> r \<le> 1"
  by (rule ml_infer_score_in_range) (auto simp: net_ok_def net_bounded_def)

end
