(* ===== verification/Kernel_State.thy ===== *)
theory Kernel_State
  imports Pmm Heap Console Ml
begin

text \<open>
  The global state the interrupt handlers, the scheduler, Prajna and the shell share: the console
  record of \<open>Console\<close>, extended by the tick counter of \<^verbatim>\<open>pit.c\<close>, the page bitmap, the task table of
  \<^verbatim>\<open>scheduler.c\<close>, the static variables of \<^verbatim>\<open>ai_kernel.c\<close>, the network weights and the memory the
  task stacks live in.  The record is extensible (the disk is added by later theories).
\<close>

section \<open>Tasks\<close>

definition MAX_TASKS :: nat where "MAX_TASKS = 8"

definition TASK_DEAD :: u8 where "TASK_DEAD = 0"
definition TASK_READY :: u8 where "TASK_READY = 1"
definition TASK_RUNNING :: u8 where "TASK_RUNNING = 2"
definition SHELL_TASK_ID :: nat where "SHELL_TASK_ID = 0"

record task =
  esp :: u32
  stack :: u32
  state :: u8
  run_ticks :: u8
  cpu_usage :: flt
  mem_usage :: flt
  wait_time :: flt
  priority :: flt
  ml_score :: flt
  wait_ticks :: u32

record sched =
  current_task :: u32
  task_count :: u32
  prajna_fallback :: u8
  switch_pending :: u8
  pending_target :: u32

section \<open>Prajna\<close>

definition HISTORY_LEN :: nat where "HISTORY_LEN = 8"
definition EVENT_LOG_SIZE :: nat where "EVENT_LOG_SIZE = 20"

datatype sys_state = STATE_CALM | STATE_NORMAL | STATE_ALERT

record prajna_event =
  ev_tick :: u32
  ev_state :: sys_state
  ev_perm :: "u8 list"
  ev_priority :: "u8 list"
  ev_anomaly :: "u8 list"
  free_pages_at_decision :: u8
  starvation_task_id :: u8
  anomaly_task_id :: u8

record ai_permission =
  allowed :: u8
  perm_priority :: u8

record mem_history =
  mh_free_pages :: "u32 list"
  mh_index :: u8
  mh_filled :: u8
  mh_ticks :: "u32 list"

record mem_trend =
  oldest_pages :: u32
  newest_pages :: u32
  oldest_tick :: u32
  newest_tick :: u32

record ai_history =
  cpu_history :: "flt list"
  mem_use_history :: "flt list"
  h_index :: u8
  h_filled :: u8

record ai_vars =
  last_ai_tick :: u32
  ai_online :: u8
  current_state :: sys_state
  starvation_warned :: u8
  event_log :: "prajna_event list"
  event_index :: u8
  event_filled :: u8
  trend :: mem_trend
  memhist :: mem_history
  task_history :: "ai_history list"
  perm_table :: "ai_permission list"

section \<open>The whole state\<close>

text \<open>
  Physical memory (there is no paging), the part the task stacks live in: 32-bit words at
  addresses that are multiples of 4.  The kernel keeps its stack pointers aligned; an unaligned
  access is not modelled and is \<open>None\<close>.
\<close>

type_synonym mem = "u32 \<Rightarrow> u32"

definition load_word :: "u32 \<Rightarrow> mem \<Rightarrow> u32 option" where
  "load_word a m = (if a AND 3 = 0 then Some (m a) else None)"

definition store_word :: "u32 \<Rightarrow> u32 \<Rightarrow> mem \<Rightarrow> mem option" where
  "store_word a v m = (if a AND 3 = 0 then Some (m(a := v)) else None)"

text \<open>\<open>outs\<close> is the sequence of bytes written to the ports of the interrupt controller and the timer.\<close>

record kernel = console +
  ticks :: u32
  pages :: bitmap
  tasks :: "task list"
  sch :: sched
  ai :: ai_vars
  weights :: net
  stackmem :: mem
  outs :: "(u16 \<times> u8) list"

text \<open>Printing to the screen memory of the state.\<close>

definition print_at :: "u8 list \<Rightarrow> nat \<Rightarrow> nat \<Rightarrow> u8 \<Rightarrow> 'a console_scheme \<Rightarrow> 'a console_scheme option" where
  "print_at msg row col color s = do {
     v \<leftarrow> kprint msg row col color (vga s);
     Some (s\<lparr>vga := v\<rparr>) }"

definition outb :: "u16 \<Rightarrow> u8 \<Rightarrow> 'a kernel_scheme \<Rightarrow> 'a kernel_scheme" where
  "outb port val s = s\<lparr>outs := outs s @ [(port, val)]\<rparr>"

definition pit_get_ticks :: "'a kernel_scheme \<Rightarrow> u32" where
  "pit_get_ticks s = ticks s"

section \<open>The state at entry\<close>

text \<open>Every static variable of the C files with its initialiser (zero where it has none).\<close>

definition zero_task :: task where
  "zero_task = \<lparr>esp = 0, stack = 0, state = 0, run_ticks = 0, cpu_usage = flit 0, mem_usage = flit 0,
     wait_time = flit 0, priority = flit 0, ml_score = flit 0, wait_ticks = 0\<rparr>"

definition ai_init :: ai_vars where
  "ai_init = \<lparr>last_ai_tick = 0, ai_online = 1, current_state = STATE_CALM, starvation_warned = 0,
     event_log = replicate EVENT_LOG_SIZE \<lparr>ev_tick = 0, ev_state = STATE_CALM, ev_perm = replicate MAX_TASKS 0,
       ev_priority = replicate MAX_TASKS 0, ev_anomaly = replicate MAX_TASKS 0, free_pages_at_decision = 0,
       starvation_task_id = 0, anomaly_task_id = 0\<rparr>,
     event_index = 0, event_filled = 0,
     trend = \<lparr>oldest_pages = 0, newest_pages = 0, oldest_tick = 0, newest_tick = 0\<rparr>,
     memhist = \<lparr>mh_free_pages = replicate HISTORY_LEN 0, mh_index = 0, mh_filled = 0, mh_ticks = replicate HISTORY_LEN 0\<rparr>,
     task_history = replicate MAX_TASKS \<lparr>cpu_history = replicate HISTORY_LEN (flit 0),
       mem_use_history = replicate HISTORY_LEN (flit 0), h_index = 0, h_filled = 0\<rparr>,
     perm_table = replicate MAX_TASKS \<lparr>allowed = 0, perm_priority = 0\<rparr>\<rparr>"

definition bss_kernel :: kernel where
  "bss_kernel = \<lparr>vga = (\<lambda>_. 0), cur_row = 2, cur_col = 10, shift_held = False, cursor_visible = False,
     input_buf = replicate BUF_SIZE 0, buf_pos = 0, scancode_buffer = replicate 16 0, scancode_head = 0, scancode_tail = 0,
     ticks = 0, pages = replicate (TOTAL_PAGES div 8) 0, tasks = replicate MAX_TASKS zero_task,
     sch = \<lparr>current_task = 0, task_count = 0, prajna_fallback = 0, switch_pending = 0, pending_target = 0\<rparr>,
     ai = ai_init,
     weights = \<lparr>weights_l1 = replicate 32 (flit 0), bias_l1 = replicate 8 (flit 0), weights_l2 = replicate 32 (flit 0),
       bias_l2 = replicate 4 (flit 0), weights_l3 = replicate 4 (flit 0), bias_l3 = replicate 1 (flit 0)\<rparr>,
     stackmem = (\<lambda>_. 0), outs = []\<rparr>"

section \<open>Well-formedness\<close>

definition ai_ok :: "ai_vars \<Rightarrow> bool" where
  "ai_ok a \<longleftrightarrow> length (event_log a) = 20 \<and> event_index a < 20 \<and>
     length (mh_free_pages (memhist a)) = 8 \<and> length (mh_ticks (memhist a)) = 8 \<and> mh_index (memhist a) < 8 \<and>
     length (task_history a) = 8 \<and> length (perm_table a) = 8 \<and>
     (\<forall>h \<in> set (task_history a). length (cpu_history h) = 8 \<and> length (mem_use_history h) = 8 \<and> h_index h < 8) \<and>
     (\<forall>e \<in> set (event_log a). length (ev_perm e) = 8 \<and> length (ev_priority e) = 8 \<and> length (ev_anomaly e) = 8)"

definition kernel_ok :: "'a kernel_scheme \<Rightarrow> bool" where
  "kernel_ok s \<longleftrightarrow> length (tasks s) = 8 \<and> current_task (sch s) < 8 \<and> bitmap_ok (pages s) \<and> ai_ok (ai s)"

lemma kernel_ok_bss: "kernel_ok bss_kernel"
  by (simp add: kernel_ok_def bss_kernel_def ai_ok_def ai_init_def bitmap_ok_def MAX_TASKS_def HISTORY_LEN_def
      EVENT_LOG_SIZE_def)

text \<open>What \<open>print\<close> does to a literal without newline or tab.\<close>

fun put_cells :: "u8 list \<Rightarrow> nat \<Rightarrow> u8 \<Rightarrow> vgamem \<Rightarrow> vgamem" where
  "put_cells [] p color v = v"
| "put_cells (c # cs) p color v = put_cells cs (p + 1) color (v(p := cell color c))"

lemma kprint_plain:
  "\<forall>c \<in> set cs. c \<notin> {0, 9, 10} \<Longrightarrow> kprint (cs @ 0 # rest) row col color v = Some (put_cells cs (row * 80 + col) color v)"
  by (induction cs arbitrary: col v) auto

lemma put_cells_at:
  "put_cells cs p color v n = (if p \<le> n \<and> n < p + length cs then cell color (cs ! (n - p)) else v n)"
proof (induction cs arbitrary: p v)
  case (Cons c cs)
  then show ?case by (cases "n = p") (auto simp: nth_Cons' Suc_le_eq)
qed auto

lemma print_at_plain:
  assumes "\<forall>c \<in> set cs. c \<notin> {0, 9, 10}"
  shows "print_at (cs @ 0 # rest) row col color s = Some (s\<lparr>vga := put_cells cs (row * 80 + col) color (vga s)\<rparr>)"
  using kprint_plain [OF assms] by (simp add: print_at_def)

definition printable :: "string \<Rightarrow> bool" where
  "printable t \<longleftrightarrow> (\<forall>c \<in> set (lit t). c \<notin> {0, 9, 10})"

lemma print_at_lit:
  "printable t \<Longrightarrow>
   print_at (cstr t) row col color s = Some (s\<lparr>vga := put_cells (lit t) (row * 80 + col) color (vga s)\<rparr>)"
  using print_at_plain [of "lit t" "[]"] by (simp add: cstr_def printable_def)

end
