(* ===== verification/Prajna.thy ===== *)
theory Prajna
  imports Kernel_State
begin

text \<open>
  Prajna, the decision engine of the kernel (\<^verbatim>\<open>kernel/ai_kernel.c\<close>): it senses the task table and
  the free memory, keeps ring buffers of what it saw, decides per task whether it may run and with
  which priority, and writes that decision to a log and to the permission table the scheduler
  reads.
\<close>

definition AI_TICK_INTERVAL :: u32 where "AI_TICK_INTERVAL = 50"
definition PMM_ALERT_THRESHOLD :: u32 where "PMM_ALERT_THRESHOLD = 64"
definition STARVATION_THRESHOLD :: u32 where "STARVATION_THRESHOLD = 5"

section \<open>Anomaly helpers\<close>

definition avg_history :: "flt list \<Rightarrow> u8 \<Rightarrow> u8 \<Rightarrow> u8 \<Rightarrow> flt option" where
  "avg_history hist filled len index = do {
     let count = (if filled \<noteq> 0 then len else index);
     if count = 0 then Some (flit 0)
     else do {
       sum \<leftarrow> for_each (\<lambda>i sum. do { v \<leftarrow> arr_get hist i; Some (store32 (sum + v)) }) [0..<unat count] (flit 0);
       Some (store32 (sum / float_of_int (uint count))) } }"

definition is_anomalous :: "flt \<Rightarrow> flt \<Rightarrow> u8" where
  "is_anomalous current avg =
     (if avg < flit 1 then 0
      else let diff = store32 (current - avg);
               diff = (if diff < flit 0 then store32 (- diff) else diff);
               ratio = store32 (diff / avg)
           in if flit (6 / 10) < ratio then 1 else 0)"

section \<open>The memory trend\<close>

definition ai_predict_memory :: "'a kernel_scheme \<Rightarrow> 'a kernel_scheme option" where
  "ai_predict_memory s =
     (let t = trend (ai s) in
      if mh_filled (memhist (ai s)) = 0 then Some s
      else if oldest_pages t \<le> newest_pages t then Some s
      else let pages_lost = oldest_pages t - newest_pages t;
               ticks_elapsed = newest_tick t - oldest_tick t in
        if ticks_elapsed = 0 then Some s
        else if newest_pages t \<le> PMM_ALERT_THRESHOLD then Some s
        else let remaining = newest_pages t - PMM_ALERT_THRESHOLD;
                 ticks_to_alert = (remaining * ticks_elapsed) div pages_lost in
          if ticks_to_alert \<le> 4000
          then print_at (cstr ''[PRAJNA] Warning: memory depleting fast, act fast'') 22 0 0x0E s
          else print_at (cstr ''[PRAJNA] Debug: trend ok, not urgent'') 22 0 0x0A s)"

text \<open>The three ring buffers; \<open>(index + 1) % n\<close> wraps and sets the filled flag.\<close>

definition mem_history_push :: "u32 \<times> u32 \<Rightarrow> mem_history \<Rightarrow> mem_history option" where
  "mem_history_push e h = do {
     fp \<leftarrow> arr_set (mh_free_pages h) (unat (mh_index h)) (fst e);
     tk \<leftarrow> arr_set (mh_ticks h) (unat (mh_index h)) (snd e);
     let h = h\<lparr>mh_free_pages := fp, mh_ticks := tk, mh_index := (mh_index h + 1) mod 8\<rparr>;
     Some (if mh_index h = 0 then h\<lparr>mh_filled := 1\<rparr> else h) }"

definition update_mem_trend :: "u32 \<Rightarrow> u32 \<Rightarrow> 'a kernel_scheme \<Rightarrow> 'a kernel_scheme option" where
  "update_mem_trend free_pages tk s = do {
     h \<leftarrow> mem_history_push (free_pages, tk) (memhist (ai s));
     op \<leftarrow> arr_get (mh_free_pages h) (unat (mh_index h));
     ot \<leftarrow> arr_get (mh_ticks h) (unat (mh_index h));
     let t = \<lparr>oldest_pages = op, newest_pages = free_pages, oldest_tick = ot, newest_tick = tk\<rparr>;
     ai_predict_memory (s\<lparr>ai := (ai s)\<lparr>memhist := h, trend := t\<rparr>\<rparr>) }"

definition ai_history_push :: "flt \<times> flt \<Rightarrow> ai_history \<Rightarrow> ai_history option" where
  "ai_history_push e h = do {
     c \<leftarrow> arr_set (cpu_history h) (unat (h_index h)) (fst e);
     m \<leftarrow> arr_set (mem_use_history h) (unat (h_index h)) (snd e);
     let h = h\<lparr>cpu_history := c, mem_use_history := m, h_index := (h_index h + 1) mod 8\<rparr>;
     Some (if h_index h = 0 then h\<lparr>h_filled := 1\<rparr> else h) }"

section \<open>Sense\<close>

record ai_input =
  in_ticks :: u32
  in_free_pages :: u32
  ready_count :: u32
  dead_count :: u32
  sensor_a :: flt
  sensor_b :: flt
  ml_scores :: "flt list"
  anomaly :: "u8 list"

text \<open>
  The anomaly test of one task.  \<open>avg_history\<close> is declared \<open>(history, filled, len, index)\<close>; the calls
  pass index and length in the other order.
\<close>

definition anomaly_check :: "nat \<Rightarrow> task \<Rightarrow> ai_history \<Rightarrow> ai_input \<Rightarrow> ai_input option" where
  "anomaly_check i t h inp =
     (if h_filled h \<noteq> 0 then do {
        cpu_avg \<leftarrow> avg_history (cpu_history h) (h_filled h) (h_index h) (of_nat HISTORY_LEN);
        mem_avg \<leftarrow> avg_history (mem_use_history h) (h_filled h) (h_index h) (of_nat HISTORY_LEN);
        let cpu_anom = is_anomalous (cpu_usage t) cpu_avg;
        let mem_anom = is_anomalous (mem_usage t) mem_avg;
        an \<leftarrow> arr_set (anomaly inp) i (if cpu_anom \<noteq> 0 \<or> mem_anom \<noteq> 0 then 1 else 0);
        Some (inp\<lparr>anomaly := an\<rparr>) }
      else Some inp)"

text \<open>The body of the loop over the tasks.\<close>

definition ai_sense_task ::
    "u32 \<Rightarrow> nat \<Rightarrow> ai_input \<times> 'a kernel_scheme \<Rightarrow> (ai_input \<times> 'a kernel_scheme) option" where
  "ai_sense_task elapsed i = (\<lambda>(inp, s). do {
     t \<leftarrow> arr_get (tasks s) i;
     let inp = (if state t = TASK_READY then inp\<lparr>ready_count := ready_count inp + 1\<rparr> else inp);
     let inp = (if state t = TASK_DEAD then inp\<lparr>dead_count := dead_count inp + 1\<rparr> else inp);
     let t = (if state t \<noteq> TASK_DEAD then
                let usage = store32 (float_of_int (uint (run_ticks t)) / float_of_int (uint elapsed) * flit 100);
                    usage = (if flit 100 < usage then flit 100 else usage)
                in t\<lparr>cpu_usage := usage, run_ticks := 0\<rparr>
              else t);
     ts \<leftarrow> arr_set (tasks s) i t;
     let s = s\<lparr>tasks := ts\<rparr>;
     ms \<leftarrow> arr_set (ml_scores inp) i (ml_score t);
     an \<leftarrow> arr_set (anomaly inp) i 0;
     let inp = inp\<lparr>ml_scores := ms, anomaly := an\<rparr>;
     if state t = TASK_DEAD then Some (inp, s)
     else do {
       h \<leftarrow> arr_get (task_history (ai s)) i;
       inp \<leftarrow> anomaly_check i t h inp;
       h \<leftarrow> ai_history_push (cpu_usage t, mem_usage t) h;
       hs \<leftarrow> arr_set (task_history (ai s)) i h;
       Some (inp, s\<lparr>ai := (ai s)\<lparr>task_history := hs\<rparr>\<rparr>) } })"

definition ai_sense :: "u32 \<Rightarrow> 'a kernel_scheme \<Rightarrow> (ai_input \<times> 'a kernel_scheme) option" where
  "ai_sense elapsed s = do {
     fp \<leftarrow> pmm_free_pages (pages s);
     let inp = \<lparr>in_ticks = pit_get_ticks s, in_free_pages = fp, ready_count = 0, dead_count = 0,
                sensor_a = flit (14 / 10), sensor_b = flit (2 / 10),
                ml_scores = replicate MAX_TASKS (flit 0), anomaly = replicate MAX_TASKS 0\<rparr>;
     let elapsed = (if elapsed = 0 then 1 else elapsed);
     (inp, s) \<leftarrow> for_each (ai_sense_task elapsed) [0..<MAX_TASKS] (inp, s);
     s \<leftarrow> update_mem_trend (in_free_pages inp) (in_ticks inp) s;
     Some (inp, s) }"

section \<open>Think\<close>

record ai_decision =
  dec_state :: sys_state
  dec_perm :: "u8 list"
  dec_priority :: "u8 list"

text \<open>The loop body of \<open>ai_think\<close>: permission and priority of one task.\<close>

definition think_task :: "sys_state \<Rightarrow> nat \<Rightarrow> task \<Rightarrow> flt \<Rightarrow> u8 \<Rightarrow> u8 \<times> u8" where
  "think_task st i t score anom =
     (if state t = TASK_DEAD then (0, 0)
      else if st = STATE_ALERT \<and> i \<noteq> SHELL_TASK_ID then (0, 0)
      else let p = (if flit (7 / 10) < score then 2 else if flit (4 / 10) < score then 1 else 0);
               p = (if anom \<noteq> 0 \<and> 1 < p then 1 else p)
           in if STARVATION_THRESHOLD < wait_ticks t then (1, 2) else (1, p))"

definition ai_think :: "ai_input \<Rightarrow> 'a kernel_scheme \<Rightarrow> (ai_decision \<times> 'a kernel_scheme) option" where
  "ai_think inp s = do {
     let st = (if in_free_pages inp < PMM_ALERT_THRESHOLD then STATE_ALERT
               else if 4 < ready_count inp then STATE_NORMAL else STATE_CALM);
     dec \<leftarrow> for_each (\<lambda>i dec. do {
              t \<leftarrow> arr_get (tasks s) i;
              sc \<leftarrow> arr_get (ml_scores inp) i;
              an \<leftarrow> arr_get (anomaly inp) i;
              let (pm, pr) = think_task st i t sc an;
              pms \<leftarrow> arr_set (dec_perm dec) i pm;
              prs \<leftarrow> arr_set (dec_priority dec) i pr;
              Some (dec\<lparr>dec_perm := pms, dec_priority := prs\<rparr>) }) [0..<MAX_TASKS]
            \<lparr>dec_state = st, dec_perm = replicate MAX_TASKS 0, dec_priority = replicate MAX_TASKS 0\<rparr>;
     t0 \<leftarrow> arr_get (tasks s) SHELL_TASK_ID;
     dec \<leftarrow> (if state t0 \<noteq> TASK_DEAD then do {
              pms \<leftarrow> arr_set (dec_perm dec) SHELL_TASK_ID 1;
              p0 \<leftarrow> arr_get (dec_priority dec) SHELL_TASK_ID;
              prs \<leftarrow> (if p0 < 1 then arr_set (dec_priority dec) SHELL_TASK_ID 1 else Some (dec_priority dec));
              Some (dec\<lparr>dec_perm := pms, dec_priority := prs\<rparr>) }
            else Some dec);
     Some (dec, s\<lparr>ai := (ai s)\<lparr>current_state := dec_state dec\<rparr>\<rparr>) }"

section \<open>Act\<close>

text \<open>The log entry, and its slot in the ring.\<close>

definition log_entry :: "ai_input \<Rightarrow> ai_decision \<Rightarrow> 'a kernel_scheme \<Rightarrow> prajna_event \<Rightarrow> prajna_event option" where
  "log_entry inp dec s ev = do {
     fp \<leftarrow> pmm_free_pages (pages s);
     let ev = ev\<lparr>ev_tick := pit_get_ticks s, ev_state := dec_state dec, free_pages_at_decision := ucast fp,
                starvation_task_id := 0xFF, anomaly_task_id := 0xFF\<rparr>;
     for_each (\<lambda>i ev. do {
       p \<leftarrow> arr_get (dec_perm dec) i;
       q \<leftarrow> arr_get (dec_priority dec) i;
       pms \<leftarrow> arr_set (ev_perm ev) i p;
       prs \<leftarrow> arr_set (ev_priority ev) i q;
       let ev = ev\<lparr>ev_perm := pms, ev_priority := prs\<rparr>;
       t \<leftarrow> arr_get (tasks s) i;
       let ev = (if STARVATION_THRESHOLD < wait_ticks t \<and> starvation_task_id ev = 0xFF
                 then ev\<lparr>starvation_task_id := of_nat i\<rparr> else ev);
       an \<leftarrow> arr_get (anomaly inp) i;
       Some (if an \<noteq> 0 \<and> anomaly_task_id ev = 0xFF then ev\<lparr>anomaly_task_id := of_nat i\<rparr> else ev) })
       [0..<MAX_TASKS] ev }"

definition event_log_push :: "prajna_event \<Rightarrow> ai_vars \<Rightarrow> ai_vars option" where
  "event_log_push ev a = do {
     el \<leftarrow> arr_set (event_log a) (unat (event_index a)) ev;
     let a = a\<lparr>event_log := el, event_index := (event_index a + 1) mod 20\<rparr>;
     Some (if event_index a = 0 then a\<lparr>event_filled := 1\<rparr> else a) }"

definition write_perms :: "ai_decision \<Rightarrow> ai_permission list \<Rightarrow> ai_permission list option" where
  "write_perms dec pt = for_each (\<lambda>i pt. do {
     p \<leftarrow> arr_get (dec_perm dec) i;
     q \<leftarrow> arr_get (dec_priority dec) i;
     arr_set pt i \<lparr>allowed = p, perm_priority = q\<rparr> }) [0..<MAX_TASKS] pt"

definition starvation_alert :: "prajna_event \<Rightarrow> 'a kernel_scheme \<Rightarrow> 'a kernel_scheme option" where
  "starvation_alert ev s = do {
     r \<leftarrow> for_until (\<lambda>i s. do {
            t \<leftarrow> arr_get (tasks s) i;
            if state t = TASK_DEAD then Some (Inr s)
            else if starvation_task_id ev \<noteq> 0xFF \<and> starvation_warned (ai s) = 0 then do {
              s \<leftarrow> print_at (cstr ''[PRAJNA] Warning: task starvation detected'') 23 0 0x0E s;
              Some (Inl (s\<lparr>ai := (ai s)\<lparr>starvation_warned := 1\<rparr>\<rparr>)) }
            else Some (Inr s) }) [0..<MAX_TASKS] s;
     case r of Inl s \<Rightarrow> Some s | Inr s \<Rightarrow> Some s }"

definition starvation_reset :: "'a kernel_scheme \<Rightarrow> 'a kernel_scheme option" where
  "starvation_reset s =
     (if starvation_warned (ai s) \<noteq> 0 then do {
        r \<leftarrow> for_until (\<lambda>i any. do {
               t \<leftarrow> arr_get (tasks s) i;
               if state t = TASK_DEAD then Some (Inr any)
               else if STARVATION_THRESHOLD < wait_ticks t then Some (Inl (1 :: u8))
               else Some (Inr any) }) [0..<MAX_TASKS] 0;
        let any = (case r of Inl x \<Rightarrow> x | Inr x \<Rightarrow> x);
        Some (if any = 0 then s\<lparr>ai := (ai s)\<lparr>starvation_warned := 0\<rparr>\<rparr> else s) }
      else Some s)"

definition anomaly_alert :: "ai_input \<Rightarrow> 'a kernel_scheme \<Rightarrow> 'a kernel_scheme option" where
  "anomaly_alert inp s = do {
     r \<leftarrow> for_until (\<lambda>i s. do {
            t \<leftarrow> arr_get (tasks s) i;
            if state t = TASK_DEAD then Some (Inr s)
            else do {
              an \<leftarrow> arr_get (anomaly inp) i;
              if an \<noteq> 0 then do {
                s \<leftarrow> print_at (cstr ''[PRAJNA] Warning: anomaly detected in task'') 23 0 0x0C s;
                Some (Inl s) }
              else Some (Inr s) } }) [0..<MAX_TASKS] s;
     case r of Inl s \<Rightarrow> Some s | Inr s \<Rightarrow> Some s }"

definition ai_act :: "ai_input \<Rightarrow> ai_decision \<Rightarrow> 'a kernel_scheme \<Rightarrow> 'a kernel_scheme option" where
  "ai_act inp dec s = do {
     ev \<leftarrow> arr_get (event_log (ai s)) (unat (event_index (ai s)));
     ev \<leftarrow> log_entry inp dec s ev;
     a \<leftarrow> event_log_push ev (ai s);
     let s = s\<lparr>ai := a\<rparr>;
     pt \<leftarrow> write_perms dec (perm_table (ai s));
     let s = s\<lparr>ai := (ai s)\<lparr>perm_table := pt\<rparr>\<rparr>;
     s \<leftarrow> print_at (replicate 50 32 @ [0]) 23 0 0x07 s;
     free_pages \<leftarrow> pmm_free_pages (pages s);
     s \<leftarrow> (if free_pages < PMM_ALERT_THRESHOLD * 2
           then print_at (cstr ''[PRAJNA] Warning: memory low, act fast'') 23 0 0x0E s else Some s);
     s \<leftarrow> starvation_alert ev s;
     s \<leftarrow> starvation_reset s;
     anomaly_alert inp s }"

section \<open>The cycle and the public interface\<close>

definition ai_kernel_tick :: "'a kernel_scheme \<Rightarrow> 'a kernel_scheme option" where
  "ai_kernel_tick s =
     (if ai_online (ai s) = 0 then Some s
      else let now = pit_get_ticks s in
        if now - last_ai_tick (ai s) < AI_TICK_INTERVAL then Some s
        else do {
          let elapsed = now - last_ai_tick (ai s);
          let s = s\<lparr>ai := (ai s)\<lparr>last_ai_tick := now\<rparr>\<rparr>;
          (inp, s) \<leftarrow> ai_sense elapsed s;
          (dec, s) \<leftarrow> ai_think inp s;
          ai_act inp dec s })"

definition ai_kernel_offline :: "'a kernel_scheme \<Rightarrow> 'a kernel_scheme option" where
  "ai_kernel_offline s =
     print_at (cstr ''[PRAJNA] offline -- manual mode'') 14 0 0x04 (s\<lparr>ai := (ai s)\<lparr>ai_online := 0\<rparr>\<rparr>)"

definition ai_is_blocked :: "u32 \<Rightarrow> 'a kernel_scheme \<Rightarrow> u8 option" where
  "ai_is_blocked task_id s =
     (if of_nat MAX_TASKS \<le> task_id then Some 0
      else do { p \<leftarrow> arr_get (perm_table (ai s)) (unat task_id); Some (if allowed p = 0 then 1 else 0) })"

definition ai_get_state :: "'a kernel_scheme \<Rightarrow> sys_state" where
  "ai_get_state s = current_state (ai s)"

definition ai_get_priority :: "u32 \<Rightarrow> 'a kernel_scheme \<Rightarrow> u8 option" where
  "ai_get_priority task_id s =
     (if of_nat MAX_TASKS \<le> task_id then Some 1
      else do { p \<leftarrow> arr_get (perm_table (ai s)) (unat task_id); Some (perm_priority p) })"

definition ai_get_log :: "prajna_event list \<Rightarrow> u8 \<Rightarrow> ai_vars \<Rightarrow> (u8 \<times> prajna_event list) option" where
  "ai_get_log out count a = do {
     let total = (if event_filled a \<noteq> 0 then of_nat EVENT_LOG_SIZE else event_index a);
     let count = (if total < count then total else count);
     out \<leftarrow> for_each (\<lambda>i out. do {
              let idx = nat ((uint (event_index a) - 1 - int i + int EVENT_LOG_SIZE) mod int EVENT_LOG_SIZE);
              e \<leftarrow> arr_get (event_log a) idx;
              arr_set out i e }) [0..<unat count] out;
     Some (count, out) }"

definition ai_get_memory_history ::
    "u32 list \<Rightarrow> u32 list \<Rightarrow> ai_vars \<Rightarrow> (u8 \<times> u32 list \<times> u32 list) option" where
  "ai_get_memory_history pgs tks a = do {
     let h = memhist a;
     let count = (if mh_filled h \<noteq> 0 then of_nat HISTORY_LEN else mh_index h);
     if count = 0 then Some (0, pgs, tks)
     else do {
       (pgs, tks) \<leftarrow> for_each (\<lambda>i (pgs, tks). do {
         let idx = (if mh_filled h \<noteq> 0 then (unat (mh_index h) + i) mod HISTORY_LEN else i);
         p \<leftarrow> arr_get (mh_free_pages h) idx;
         t \<leftarrow> arr_get (mh_ticks h) idx;
         pgs \<leftarrow> arr_set pgs i p;
         tks \<leftarrow> arr_set tks i t;
         Some (pgs, tks) }) [0..<unat count] (pgs, tks);
       Some (count, pgs, tks) } }"


section \<open>Ring buffers as logs\<close>

text \<open>
  The contract of the three ring buffers: \<open>entries\<close> (oldest first) are the last \<open>cap\<close> values pushed.
\<close>

locale ring_log =
  fixes push :: "'e \<Rightarrow> 's \<Rightarrow> 's option"
    and entries :: "'s \<Rightarrow> 'e list"
    and ok :: "'s \<Rightarrow> bool"
    and cap :: nat
  assumes bounded: "ok s \<Longrightarrow> length (entries s) \<le> cap"
    and push_law: "ok s \<Longrightarrow> \<exists>s'. push e s = Some s' \<and> ok s' \<and>
      entries s' = drop (Suc (length (entries s)) - cap) (entries s @ [e])"
begin

lemma push_all:
  assumes "ok s"
  shows "\<exists>s'. for_each push es s = Some s' \<and> ok s' \<and>
    entries s' = drop (length (entries s) + length es - cap) (entries s @ es)"
  using assms
proof (induction es arbitrary: s)
  case Nil
  then show ?case using bounded [of s] by simp
next
  case (Cons e es)
  obtain s1 where s1: "push e s = Some s1" "ok s1"
    "entries s1 = drop (Suc (length (entries s)) - cap) (entries s @ [e])"
    using push_law [OF Cons.prems] by blast
  from Cons.IH [OF s1(2)] obtain s' where s': "for_each push es s1 = Some s'" "ok s'"
    "entries s' = drop (length (entries s1) + length es - cap) (entries s1 @ es)" by blast
  let ?k = "Suc (length (entries s)) - cap"
  have k: "?k \<le> 1" using bounded [OF Cons.prems] by simp
  have len: "length (entries s1) = Suc (length (entries s)) - ?k" by (simp add: s1(3))
  have "drop ?k ((entries s @ [e]) @ es) = drop ?k (entries s @ [e]) @ es"
    by (subst drop_append) simp
  then have "entries s1 @ es = drop ?k (entries s @ e # es)" by (simp add: s1(3) del: drop_append)
  then have "entries s' = drop (length (entries s1) + length es - cap + ?k) (entries s @ e # es)"
    by (simp only: s'(3) drop_drop)
  moreover have "length (entries s1) + length es - cap + ?k = length (entries s) + length (e # es) - cap"
    using len k bounded [OF Cons.prems] by (cases "?k") auto
  ultimately show ?case using s1(1) s'(1,2) by simp
qed

lemma push_newest: "ok s \<Longrightarrow> push e s = Some s' \<Longrightarrow> 0 < cap \<Longrightarrow> entries s' \<noteq> [] \<and> last (entries s') = e"
  using push_law [of s e] bounded [of s] by (auto simp: last_drop)

end

text \<open>The C representation: a cyclic array, the next write position and the wrapped flag.\<close>

definition circ :: "nat \<Rightarrow> bool \<Rightarrow> 'e list \<Rightarrow> 'e list" where
  "circ idx filled buf = (if filled then drop idx buf @ take idx buf else take idx buf)"

lemma length_circ: "idx \<le> length buf \<Longrightarrow> length (circ idx filled buf) = (if filled then length buf else idx)"
  by (simp add: circ_def)

lemma circ_push:
  assumes "idx < length buf"
  shows "circ ((idx + 1) mod length buf) (filled \<or> (idx + 1) mod length buf = 0) (buf[idx := e]) =
    drop (Suc (length (circ idx filled buf)) - length buf) (circ idx filled buf @ [e])"
proof (cases "idx + 1 < length buf")
  case True
  then have "(idx + 1) mod length buf = idx + 1" by simp
  moreover have "take (idx + 1) (buf[idx := e]) = take idx buf @ [e]"
    using assms by (simp add: take_Suc_conv_app_nth)
  moreover have "drop idx buf = buf ! idx # drop (idx + 1) buf" using assms by (simp add: Cons_nth_drop_Suc)
  moreover have "Suc (length (circ idx filled buf)) - length buf = (if filled then 1 else 0)"
    using True by (simp add: length_circ)
  ultimately show ?thesis unfolding \<open>Suc _ - _ = _\<close> using True by (simp add: circ_def)
next
  case False
  then have n: "length buf = Suc idx" using assms by simp
  then have "buf[idx := e] = take idx buf @ [e]"
    using take_Suc_conv_app_nth [of idx "buf[idx := e]"] by simp
  moreover have "drop idx buf = [buf ! idx]" using n Cons_nth_drop_Suc [of idx buf] by simp
  ultimately show ?thesis using n by (simp add: circ_def)
qed

definition events :: "ai_vars \<Rightarrow> prajna_event list" where
  "events a = circ (unat (event_index a)) (event_filled a \<noteq> 0) (event_log a)"

definition events_ok :: "ai_vars \<Rightarrow> bool" where
  "events_ok a \<longleftrightarrow> length (event_log a) = 20 \<and> event_index a < 20"

definition mem_entries :: "mem_history \<Rightarrow> (u32 \<times> u32) list" where
  "mem_entries h = circ (unat (mh_index h)) (mh_filled h \<noteq> 0) (zip (mh_free_pages h) (mh_ticks h))"

definition mem_history_ok :: "mem_history \<Rightarrow> bool" where
  "mem_history_ok h \<longleftrightarrow> length (mh_free_pages h) = 8 \<and> length (mh_ticks h) = 8 \<and> mh_index h < 8"

definition task_entries :: "ai_history \<Rightarrow> (flt \<times> flt) list" where
  "task_entries h = circ (unat (h_index h)) (h_filled h \<noteq> 0) (zip (cpu_history h) (mem_use_history h))"

definition task_history_ok :: "ai_history \<Rightarrow> bool" where
  "task_history_ok h \<longleftrightarrow> length (cpu_history h) = 8 \<and> length (mem_use_history h) = 8 \<and> h_index h < 8"

lemma u8_mod_next:
  "(i :: u8) < 20 \<Longrightarrow> unat ((i + 1) mod 20) = (unat i + 1) mod 20 \<and> (i + 1) mod 20 < 20 \<and>
     ((i + 1) mod 20 = 0 \<longleftrightarrow> (unat i + 1) mod 20 = 0)"
  "(i :: u8) < 8 \<Longrightarrow> unat ((i + 1) mod 8) = (unat i + 1) mod 8 \<and> (i + 1) mod 8 < 8 \<and>
     ((i + 1) mod 8 = 0 \<longleftrightarrow> (unat i + 1) mod 8 = 0)"
  by (simp_all add: unat_mod unat_word_ariths word_less_nat_alt word_unat_eq_iff)

lemma zip_update: "length xs = length ys \<Longrightarrow> zip (xs[i := x]) (ys[i := y]) = (zip xs ys)[i := (x, y)]"
  by (simp add: update_zip)

interpretation evlog: ring_log event_log_push events events_ok 20
proof (unfold_locales, goal_cases)
  case (1 s)
  then show ?case by (auto simp: events_def events_ok_def length_circ word_less_nat_alt)
next
  case (2 s e)
  let ?i = "unat (event_index s)"
  have i: "?i < length (event_log s)" and n: "length (event_log s) = 20"
    using 2 by (auto simp: events_ok_def word_less_nat_alt)
  note nx = u8_mod_next(1) [of "event_index s"]
  have "events_ok s" by (rule 2)
  then obtain s' where s': "event_log_push e s = Some s'" "events_ok s'"
    "event_log s' = (event_log s)[?i := e]" "unat (event_index s') = (?i + 1) mod 20"
    "(event_filled s' \<noteq> 0) = (event_filled s \<noteq> 0 \<or> (?i + 1) mod 20 = 0)"
    using i nx by (auto simp: event_log_push_def Let_def events_ok_def)
  then show ?case using circ_push [OF i, of "event_filled s \<noteq> 0" e] n by (auto simp: events_def)
qed

interpretation memh: ring_log mem_history_push mem_entries mem_history_ok 8
proof (unfold_locales, goal_cases)
  case (1 s)
  then show ?case by (auto simp: mem_entries_def mem_history_ok_def length_circ word_less_nat_alt)
next
  case (2 s e)
  let ?z = "zip (mh_free_pages s) (mh_ticks s)" let ?i = "unat (mh_index s)"
  have i: "?i < length ?z" and n: "length ?z = 8"
    using 2 by (auto simp: mem_history_ok_def word_less_nat_alt)
  note nx = u8_mod_next(2) [of "mh_index s"]
  have "mem_history_ok s" by (rule 2)
  then obtain s' where s': "mem_history_push e s = Some s'" "mem_history_ok s'"
    "zip (mh_free_pages s') (mh_ticks s') = ?z[?i := e]" "unat (mh_index s') = (?i + 1) mod 8"
    "(mh_filled s' \<noteq> 0) = (mh_filled s \<noteq> 0 \<or> (?i + 1) mod 8 = 0)"
    using i nx by (auto simp: mem_history_push_def Let_def mem_history_ok_def zip_update)
  then show ?case using circ_push [OF i, of "mh_filled s \<noteq> 0" e] n by (auto simp: mem_entries_def)
qed

interpretation taskh: ring_log ai_history_push task_entries task_history_ok 8
proof (unfold_locales, goal_cases)
  case (1 s)
  then show ?case by (auto simp: task_entries_def task_history_ok_def length_circ word_less_nat_alt)
next
  case (2 s e)
  let ?z = "zip (cpu_history s) (mem_use_history s)" let ?i = "unat (h_index s)"
  have i: "?i < length ?z" and n: "length ?z = 8"
    using 2 by (auto simp: task_history_ok_def word_less_nat_alt)
  note nx = u8_mod_next(2) [of "h_index s"]
  have "task_history_ok s" by (rule 2)
  then obtain s' where s': "ai_history_push e s = Some s'" "task_history_ok s'"
    "zip (cpu_history s') (mem_use_history s') = ?z[?i := e]" "unat (h_index s') = (?i + 1) mod 8"
    "(h_filled s' \<noteq> 0) = (h_filled s \<noteq> 0 \<or> (?i + 1) mod 8 = 0)"
    using i nx by (auto simp: ai_history_push_def Let_def task_history_ok_def zip_update)
  then show ?case using circ_push [OF i, of "h_filled s \<noteq> 0" e] n by (auto simp: task_entries_def)
qed

section \<open>Reading the logs back\<close>

lemma circ_read:
  assumes "idx < length buf" and "i < length (circ idx filled buf)"
  shows "circ idx filled buf ! i = buf ! (if filled then (idx + i) mod length buf else i)"
proof (cases filled)
  case True
  then have i: "i < length buf" using assms by (simp add: length_circ)
  show ?thesis
  proof (cases "i < length buf - idx")
    case True
    then show ?thesis using \<open>filled\<close> assms by (simp add: circ_def nth_append)
  next
    case False
    then have "idx + i - length buf < length buf" "(idx + i) mod length buf = idx + i - length buf"
      using i assms(1) by (simp_all add: le_mod_geq)
    then show ?thesis using \<open>filled\<close> False assms by (simp add: circ_def nth_append add.commute)
  qed
next
  case False
  then show ?thesis using assms by (simp add: circ_def)
qed

text \<open>The backward index of \<open>ai_get_log\<close>.\<close>

lemma circ_read_back:
  assumes "idx < length buf" and "i < length (circ idx filled buf)"
  shows "nat ((int idx - 1 - int i + int (length buf)) mod int (length buf)) < length buf"
    and "rev (circ idx filled buf) ! i = buf ! nat ((int idx - 1 - int i + int (length buf)) mod int (length buf))"
proof -
  let ?n = "length buf" let ?l = "length (circ idx filled buf)"
  let ?e = "int idx - 1 - int i + int ?n"
  have "?e mod int ?n < int ?n" by (rule pos_mod_bound) (use assms(1) in linarith)
  then show "nat (?e mod int ?n) < ?n" using assms(1) by linarith
  have l: "?l = (if filled then ?n else idx)" using assms(1) by (simp add: length_circ)
  have ge: "0 \<le> ?e" using assms l by (auto split: if_splits)
  define j where "j = ?l - Suc i"
  have j: "j < ?l" "rev (circ idx filled buf) ! i = circ idx filled buf ! j"
    using assms(2) by (simp_all add: j_def rev_nth)
  have "nat (?e mod int ?n) = (if filled then (idx + j) mod ?n else j)"
  proof (cases filled)
    case True
    have "int (idx + j) = ?e" using assms(2) l True by (simp add: j_def)
    then show ?thesis using True by (metis nat_int zmod_int)
  next
    case False
    have "?e = int j + int ?n" "j < ?n" using assms l False by (auto simp: j_def)
    then show ?thesis using False by simp
  qed
  with j circ_read [OF assms(1) j(1)]
  show "rev (circ idx filled buf) ! i = buf ! nat (?e mod int ?n)" by simp
qed

lemma copy_loop:
  assumes "\<And>i out. i < n \<Longrightarrow> length out = length out0 \<Longrightarrow> f i out = arr_set out i (xs ! i)"
    and "n \<le> length out0" and "n \<le> length xs"
  shows "for_each f [0..<n] out0 = Some (take n xs @ drop n out0)"
proof -
  have "for_each f [0..<n] (take 0 xs @ drop 0 out0) = Some (take n xs @ drop n out0)"
  proof (rule for_each_upt [where g = "\<lambda>i. take i xs @ drop i out0"])
    fix i assume "i < n"
    then show "f i (take i xs @ drop i out0) = Some (take (Suc i) xs @ drop (Suc i) out0)"
      using assms by (simp add: take_Suc_conv_app_nth list_update_append Cons_nth_drop_Suc [symmetric])
  qed
  then show ?thesis by simp
qed

lemma ai_get_log_eq:
  assumes "events_ok a" and "unat count \<le> length out"
  shows "ai_get_log out count a =
    (let n = min (unat count) (length (events a)) in Some (of_nat n, take n (rev (events a)) @ drop n out))"
proof -
  let ?i = "unat (event_index a)" let ?l = "length (events a)"
  have ok: "?i < length (event_log a)" "length (event_log a) = 20" "?i < 20"
    using assms(1) by (auto simp: events_ok_def word_less_nat_alt)
  have l: "?l = (if event_filled a \<noteq> 0 then 20 else ?i)" using ok by (simp add: events_def length_circ)
  define total :: u8 where "total = (if event_filled a \<noteq> 0 then of_nat EVENT_LOG_SIZE else event_index a)"
  have t: "unat total = ?l" using l by (simp add: total_def EVENT_LOG_SIZE_def)
  define c where "c = (if total < count then total else count)"
  define n where "n = min (unat count) ?l"
  have c: "unat c = n" using t by (auto simp: c_def n_def word_less_nat_alt)
  have c': "c = of_nat n" by (simp flip: c)
  have ui: "uint (event_index a) = int ?i" by simp
  have "for_each (\<lambda>i out. do {
              let idx = nat ((uint (event_index a) - 1 - int i + int EVENT_LOG_SIZE) mod int EVENT_LOG_SIZE);
              e \<leftarrow> arr_get (event_log a) idx;
              arr_set out i e }) [0..<unat c] out = Some (take n (rev (events a)) @ drop n out)"
    unfolding c
  proof (rule copy_loop)
    fix i out' assume "i < n"
    then have "i < length (circ ?i (event_filled a \<noteq> 0) (event_log a))" by (simp add: n_def events_def)
    from circ_read_back [OF ok(1) this]
    show "do { let idx = nat ((uint (event_index a) - 1 - int i + int EVENT_LOG_SIZE) mod int EVENT_LOG_SIZE);
              e \<leftarrow> arr_get (event_log a) idx;
              arr_set out' i e } = arr_set out' i (rev (events a) ! i)"
      by (simp add: ok(2) EVENT_LOG_SIZE_def Let_def events_def)
  qed (use assms in \<open>simp_all add: n_def\<close>)
  then show ?thesis
    unfolding ai_get_log_def Let_def total_def [symmetric] c_def [symmetric] n_def [symmetric]
    by (simp add: c' Let_def)
qed

lemma ai_get_memory_history_eq:
  assumes "mem_history_ok (memhist a)" and "8 \<le> length pgs" and "8 \<le> length tks"
  shows "ai_get_memory_history pgs tks a =
    (let es = mem_entries (memhist a); n = length es in
     Some (of_nat n, map fst es @ drop n pgs, map snd es @ drop n tks))"
proof -
  let ?h = "memhist a" let ?i = "unat (mh_index (memhist a))" let ?f = "mh_filled (memhist a) \<noteq> 0"
  let ?z = "zip (mh_free_pages ?h) (mh_ticks ?h)"
  have ok: "?i < length ?z" "length (mh_free_pages ?h) = 8" "length (mh_ticks ?h) = 8" "?i < 8"
    using assms(1) by (auto simp: mem_history_ok_def word_less_nat_alt)
  define es where "es = mem_entries ?h"
  have l: "length es = (if ?f then 8 else ?i)" using ok by (simp add: es_def mem_entries_def length_circ)
  have nth: "es ! i = ?z ! (if ?f then (?i + i) mod 8 else i)" if "i < length es" for i
    using circ_read [OF ok(1), of i ?f] that ok by (simp add: es_def mem_entries_def)
  define c :: u8 where "c = (if ?f then of_nat HISTORY_LEN else mh_index ?h)"
  have c: "unat c = length es" using l by (simp add: c_def HISTORY_LEN_def)
  have c': "c = of_nat (length es)" by (simp flip: c)
  define f where "f = (\<lambda>i (pgs, tks). do {
         let idx = (if ?f then (?i + i) mod HISTORY_LEN else i);
         p \<leftarrow> arr_get (mh_free_pages ?h) idx;
         t \<leftarrow> arr_get (mh_ticks ?h) idx;
         pgs \<leftarrow> arr_set pgs i p;
         tks \<leftarrow> arr_set tks i t;
         Some (pgs, tks) })"
  let ?g = "\<lambda>i. (map fst (take i es) @ drop i pgs, map snd (take i es) @ drop i tks)"
  have "for_each f [0..<length es] (?g 0) = Some (?g (length es))"
  proof (rule for_each_upt)
    fix i assume i: "i < length es"
    then have "i < 8" using l ok(4) by (simp split: if_splits)
    then have "i < length pgs" "i < length tks" using assms(2,3) by linarith+
    let ?j = "if ?f then (?i + i) mod HISTORY_LEN else i"
    have "?j < 8" using \<open>i < 8\<close> by (simp add: HISTORY_LEN_def)
    moreover have "es ! i = (mh_free_pages ?h ! ?j, mh_ticks ?h ! ?j)"
      using nth [OF i] \<open>?j < 8\<close> \<open>i < 8\<close> ok by (simp add: HISTORY_LEN_def)
    ultimately show "f i (?g i) = Some (?g (Suc i))"
      using i ok \<open>i < length pgs\<close> \<open>i < length tks\<close>
      unfolding f_def by (simp add: Let_def take_Suc_conv_app_nth list_update_append Cons_nth_drop_Suc [symmetric])
  qed
  then have loop: "for_each f [0..<unat c] (pgs, tks) = Some (?g (length es))" by (simp add: c)
  show ?thesis
  proof (cases "c = 0")
    case True
    then have "es = []" using c by simp
    then show ?thesis using True unfolding ai_get_memory_history_def Let_def c_def [symmetric] es_def [symmetric]
      by simp
  next
    case False
    then show ?thesis using loop
      unfolding ai_get_memory_history_def Let_def c_def [symmetric] es_def [symmetric] f_def
      by (simp add: c')
  qed
qed

section \<open>What one cycle may change\<close>

text \<open>A task up to the two fields \<open>ai_sense\<close> writes.\<close>

definition task_core :: "task \<Rightarrow> task" where
  "task_core t = t\<lparr>cpu_usage := flit 0, run_ticks := 0\<rparr>"

definition ai_frame :: "'a kernel_scheme \<Rightarrow> 'a kernel_scheme \<Rightarrow> bool" where
  "ai_frame s s' \<longleftrightarrow> s' = s\<lparr>vga := vga s', tasks := tasks s', ai := ai s'\<rparr> \<and>
     map task_core (tasks s') = map task_core (tasks s)"

lemma ai_frame_refl [simp]: "ai_frame s s"
  by (simp add: ai_frame_def)

lemma ai_frame_trans: "ai_frame s t \<Longrightarrow> ai_frame t u \<Longrightarrow> ai_frame s u"
proof -
  assume a: "ai_frame s t" and b: "ai_frame t u"
  have t: "t = s\<lparr>vga := vga t, tasks := tasks t, ai := ai t\<rparr>" using a by (simp add: ai_frame_def)
  have u: "u = t\<lparr>vga := vga u, tasks := tasks u, ai := ai u\<rparr>" using b by (simp add: ai_frame_def)
  have "u = s\<lparr>vga := vga u, tasks := tasks u, ai := ai u\<rparr>"
    by (subst u, subst t) simp
  then show ?thesis using a b by (simp add: ai_frame_def)
qed

lemma ai_frame_upd [simp]:
  "ai_frame s (s\<lparr>ai := a\<rparr>)" "ai_frame s (s\<lparr>vga := v\<rparr>)"
  by (simp_all add: ai_frame_def)

lemma ai_frame_fields:
  assumes "ai_frame s s'"
  shows "ticks s' = ticks s" "pages s' = pages s" "sch s' = sch s" "weights s' = weights s"
    "stackmem s' = stackmem s" "length (tasks s') = length (tasks s)"
proof -
  have s': "s' = s\<lparr>vga := vga s', tasks := tasks s', ai := ai s'\<rparr>" using assms by (simp add: ai_frame_def)
  show "ticks s' = ticks s" by (subst s') simp
  show "pages s' = pages s" by (subst s') simp
  show "sch s' = sch s" by (subst s') simp
  show "weights s' = weights s" by (subst s') simp
  show "stackmem s' = stackmem s" by (subst s') simp
  show "length (tasks s') = length (tasks s)" using assms unfolding ai_frame_def by (metis length_map)
qed

lemma ai_frame_task:
  assumes "ai_frame s s'" and "i < length (tasks s)"
  shows "state (tasks s' ! i) = state (tasks s ! i)" "wait_ticks (tasks s' ! i) = wait_ticks (tasks s ! i)"
    "esp (tasks s' ! i) = esp (tasks s ! i)" "ml_score (tasks s' ! i) = ml_score (tasks s ! i)"
proof -
  have "map task_core (tasks s') ! i = map task_core (tasks s) ! i" using assms by (simp add: ai_frame_def)
  then have c: "task_core (tasks s' ! i) = task_core (tasks s ! i)"
    using assms(2) ai_frame_fields(6) [OF assms(1)] by simp
  show "state (tasks s' ! i) = state (tasks s ! i)" using arg_cong [OF c, of state] by (simp add: task_core_def)
  show "wait_ticks (tasks s' ! i) = wait_ticks (tasks s ! i)" using arg_cong [OF c, of wait_ticks] by (simp add: task_core_def)
  show "esp (tasks s' ! i) = esp (tasks s ! i)" using arg_cong [OF c, of esp] by (simp add: task_core_def)
  show "ml_score (tasks s' ! i) = ml_score (tasks s ! i)" using arg_cong [OF c, of ml_score] by (simp add: task_core_def)
qed

text \<open>The messages of the engine hold no newline and no tab.\<close>

lemma printable_msgs [simp]:
  "printable ''[PRAJNA] Warning: memory depleting fast, act fast''"
  "printable ''[PRAJNA] Debug: trend ok, not urgent''"
  "printable ''[PRAJNA] Warning: task starvation detected''"
  "printable ''[PRAJNA] Warning: anomaly detected in task''"
  "printable ''[PRAJNA] Warning: memory low, act fast''"
  "printable ''[PRAJNA] offline -- manual mode''"
  by (simp_all add: printable_def lit_def)

lemma print_at_total:
  "printable t \<Longrightarrow> \<exists>v. print_at (cstr t) row col color s = Some (s\<lparr>vga := v\<rparr>)"
  using print_at_lit [of t] by blast

lemma print_at_blank:
  "\<exists>v. print_at (replicate n 32 @ [0]) row col color s = Some (s\<lparr>vga := v\<rparr>)"
  using print_at_plain [of "replicate n 32" "[]"] by (simp, blast)

section \<open>The history averages\<close>

lemma avg_history_total:
  assumes "unat (if filled \<noteq> 0 then n else index) \<le> length hist"
  shows "\<exists>v. avg_history hist filled n index = Some v"
proof -
  let ?c = "if filled \<noteq> 0 then n else index"
  have "\<exists>t. for_each (\<lambda>i sum. do { v \<leftarrow> arr_get hist i; Some (store32 (sum + v)) }) [0..<unat ?c] (flit 0)
     = Some t \<and> True"
    by (rule for_each_upt_inv) (use assms in auto)
  then show ?thesis unfolding avg_history_def Let_def by (cases "?c = 0") auto
qed

text \<open>
  \<open>avg_history\<close> is declared \<open>(history, filled, len, index)\<close> and called with the last two swapped:
  once a history has wrapped, only its first \<open>index\<close> slots are averaged.
\<close>

lemma avg_history_prefix:
  assumes "filled \<noteq> 0" and "take (unat idx) hist = take (unat idx) hist'"
    and "length hist = length hist'"
  shows "avg_history hist filled idx n = avg_history hist' filled idx n"
proof -
  have "arr_get hist i = arr_get hist' i" if "i < unat idx" for i
    using that assms(2,3) by (metis arr_get_def nth_take)
  then have "for_each (\<lambda>i sum. do { v \<leftarrow> arr_get hist i; Some (store32 (sum + v)) }) [0..<unat idx] z =
      for_each (\<lambda>i sum. do { v \<leftarrow> arr_get hist' i; Some (store32 (sum + v)) }) [0..<unat idx] z" for z
    by (intro for_each_cong) simp
  then show ?thesis using assms(1) by (simp add: avg_history_def)
qed

section \<open>Sense\<close>

definition input_ok :: "ai_input \<Rightarrow> bool" where
  "input_ok inp \<longleftrightarrow> length (ml_scores inp) = 8 \<and> length (anomaly inp) = 8"

lemma ai_ok_set_history:
  assumes "ai_ok a" and "task_history_ok h"
  shows "ai_ok (a\<lparr>task_history := (task_history a)[i := h]\<rparr>)"
  using assms set_update_subset_insert [of "task_history a" i h] unfolding ai_ok_def task_history_ok_def by auto

lemma ai_ok_history: "ai_ok a \<Longrightarrow> i < 8 \<Longrightarrow> task_history_ok (task_history a ! i)"
  by (auto simp: ai_ok_def task_history_ok_def)

lemma ai_history_push_ok: "task_history_ok h \<Longrightarrow> \<exists>h'. ai_history_push e h = Some h' \<and> task_history_ok h'"
  using taskh.push_law by blast

lemma anomaly_check_total:
  assumes "task_history_ok h" and "input_ok inp" and "i < 8"
  shows "\<exists>inp'. anomaly_check i t h inp = Some inp' \<and> input_ok inp' \<and>
    in_ticks inp' = in_ticks inp \<and> in_free_pages inp' = in_free_pages inp"
proof (cases "h_filled h = 0")
  case True
  then show ?thesis using assms by (simp add: anomaly_check_def)
next
  case False
  have hb: "unat (h_index h) \<le> length (cpu_history h)" "unat (h_index h) \<le> length (mem_use_history h)"
    using assms(1) by (auto simp: task_history_ok_def word_less_nat_alt)
  obtain v where "avg_history (cpu_history h) (h_filled h) (h_index h) (of_nat HISTORY_LEN) = Some v"
    using avg_history_total [of "h_filled h" "h_index h" "of_nat HISTORY_LEN"] hb(1) False by auto
  moreover obtain w where "avg_history (mem_use_history h) (h_filled h) (h_index h) (of_nat HISTORY_LEN) = Some w"
    using avg_history_total [of "h_filled h" "h_index h" "of_nat HISTORY_LEN"] hb(2) False by auto
  ultimately show ?thesis using False assms(2,3) by (simp add: anomaly_check_def input_ok_def Let_def)
qed

lemma ai_sense_task_step:
  assumes "kernel_ok s" and "input_ok inp" and "i < 8"
  shows "\<exists>inp' s'. ai_sense_task el i (inp, s) = Some (inp', s') \<and> kernel_ok s' \<and> input_ok inp' \<and> ai_frame s s' \<and>
    in_ticks inp' = in_ticks inp \<and> in_free_pages inp' = in_free_pages inp \<and>
    last_ai_tick (ai s') = last_ai_tick (ai s) \<and> ai_online (ai s') = ai_online (ai s)"
proof -
  let ?t = "tasks s ! i"
  have ok: "i < length (tasks s)" "i < length (ml_scores inp)" "i < length (anomaly inp)" "length (tasks s) = 8"
    "length (task_history (ai s)) = 8" "ai_ok (ai s)"
    using assms by (auto simp: kernel_ok_def input_ok_def ai_ok_def)
  define t' where "t' = (if state ?t \<noteq> TASK_DEAD then
                let usage = store32 (float_of_int (uint (run_ticks ?t)) / float_of_int (uint el) * flit 100);
                    usage = (if flit 100 < usage then flit 100 else usage)
                in ?t\<lparr>cpu_usage := usage, run_ticks := 0\<rparr>
              else ?t)"
  have core: "task_core t' = task_core ?t" by (simp add: t'_def task_core_def Let_def)
  define s1 where "s1 = s\<lparr>tasks := (tasks s)[i := t']\<rparr>"
  have s1: "ai_frame s s1" "ai s1 = ai s" "tasks s1 = (tasks s)[i := t']"
    using core ok by (simp_all add: s1_def ai_frame_def map_update list_update_same_conv)
  have k1: "kernel_ok s1" using assms(1) by (simp add: s1_def kernel_ok_def)
  define inp1 where "inp1 = (let inp = (if state ?t = TASK_READY then inp\<lparr>ready_count := ready_count inp + 1\<rparr> else inp);
      inp = (if state ?t = TASK_DEAD then inp\<lparr>dead_count := dead_count inp + 1\<rparr> else inp)
     in inp\<lparr>ml_scores := (ml_scores inp)[i := ml_score t'], anomaly := (anomaly inp)[i := 0]\<rparr>)"
  have inp1: "input_ok inp1" "in_ticks inp1 = in_ticks inp" "in_free_pages inp1 = in_free_pages inp"
    "length (anomaly inp1) = 8"
    using assms(2) by (simp_all add: inp1_def input_ok_def Let_def)
  have body: "ai_sense_task el i (inp, s) =
    (if state t' = TASK_DEAD then Some (inp1, s1)
     else do {
       h \<leftarrow> arr_get (task_history (ai s)) i;
       inp \<leftarrow> anomaly_check i t' h inp1;
       h \<leftarrow> ai_history_push (cpu_usage t', mem_usage t') h;
       hs \<leftarrow> arr_set (task_history (ai s)) i h;
       Some (inp, s1\<lparr>ai := (ai s)\<lparr>task_history := hs\<rparr>\<rparr>) })"
    using ok unfolding ai_sense_task_def s1_def inp1_def t'_def [symmetric] prod.case
    by (simp add: Let_def t'_def [symmetric])
  show ?thesis
  proof (cases "state t' = TASK_DEAD")
    case True
    then show ?thesis using body s1 k1 inp1 by auto
  next
    case False
    let ?h = "task_history (ai s) ! i"
    have h: "task_history_ok ?h" using ai_ok_history [OF ok(6) assms(3)] .
    obtain h' where h': "ai_history_push (cpu_usage t', mem_usage t') ?h = Some h'" "task_history_ok h'"
      using ai_history_push_ok [OF h] by blast
    obtain inp2 where inp2: "anomaly_check i t' ?h inp1 = Some inp2" "input_ok inp2"
      "in_ticks inp2 = in_ticks inp" "in_free_pages inp2 = in_free_pages inp"
      using anomaly_check_total [OF h inp1(1) assms(3), of t'] inp1(2,3) by auto
    define s2 where "s2 = s1\<lparr>ai := (ai s)\<lparr>task_history := (task_history (ai s))[i := h']\<rparr>\<rparr>"
    have "ai_sense_task el i (inp, s) = Some (inp2, s2)"
      using body False ok h'(1) inp2(1) assms(3) by (simp add: s2_def del: bind_assoc)
    moreover have "ai_frame s s2" using ai_frame_trans [OF s1(1) ai_frame_upd(1)] by (simp add: s2_def)
    moreover have "kernel_ok s2" using k1 ai_ok_set_history [OF ok(6) h'(2)] by (simp add: s2_def kernel_ok_def)
    moreover have "last_ai_tick (ai s2) = last_ai_tick (ai s)" "ai_online (ai s2) = ai_online (ai s)" by (simp_all add: s2_def)
    ultimately show ?thesis using inp2 by blast
  qed
qed

lemma update_mem_trend_total:
  assumes "kernel_ok s"
  shows "\<exists>s'. update_mem_trend fp tk s = Some s' \<and> kernel_ok s' \<and> ai_frame s s' \<and>
    last_ai_tick (ai s') = last_ai_tick (ai s) \<and> ai_online (ai s') = ai_online (ai s)"
proof -
  have ok: "mem_history_ok (memhist (ai s))" "ai_ok (ai s)"
    using assms by (auto simp: kernel_ok_def ai_ok_def mem_history_ok_def)
  obtain h where h: "mem_history_push (fp, tk) (memhist (ai s)) = Some h" "mem_history_ok h"
    using memh.push_law [OF ok(1)] by blast
  then have i: "unat (mh_index h) < length (mh_free_pages h)" "unat (mh_index h) < length (mh_ticks h)"
    by (auto simp: mem_history_ok_def word_less_nat_alt)
  define s1 where "s1 = s\<lparr>ai := (ai s)\<lparr>memhist := h, trend := \<lparr>oldest_pages = mh_free_pages h ! unat (mh_index h),
    newest_pages = fp, oldest_tick = mh_ticks h ! unat (mh_index h), newest_tick = tk\<rparr>\<rparr>\<rparr>"
  have eq: "update_mem_trend fp tk s = ai_predict_memory s1"
    using h(1) i by (simp add: update_mem_trend_def s1_def Let_def)
  have "\<exists>v. ai_predict_memory s1 = Some (s1\<lparr>vga := v\<rparr>)"
  proof -
    have same: "\<exists>v. s1 = s1\<lparr>vga := v\<rparr>" by (intro exI [of _ "vga s1"]) simp
    show ?thesis unfolding ai_predict_memory_def Let_def
      by (simp only: split: if_split) (simp add: print_at_total same)
  qed
  then obtain v where v: "ai_predict_memory s1 = Some (s1\<lparr>vga := v\<rparr>)" by blast
  have "ai_ok (ai s1)" using ok(2) h(2) by (auto simp: s1_def ai_ok_def mem_history_ok_def)
  then have "kernel_ok (s1\<lparr>vga := v\<rparr>)" using assms by (simp add: s1_def kernel_ok_def)
  moreover have "ai_frame s (s1\<lparr>vga := v\<rparr>)" by (simp add: s1_def ai_frame_def)
  moreover have "last_ai_tick (ai (s1\<lparr>vga := v\<rparr>)) = last_ai_tick (ai s)" "ai_online (ai (s1\<lparr>vga := v\<rparr>)) = ai_online (ai s)"
    by (simp_all add: s1_def)
  ultimately show ?thesis using eq v by (intro exI [of _ "s1\<lparr>vga := v\<rparr>"] conjI) simp_all
qed

lemma ai_sense_total:
  assumes "kernel_ok s"
  shows "\<exists>inp s'. ai_sense el s = Some (inp, s') \<and> kernel_ok s' \<and> input_ok inp \<and> ai_frame s s' \<and>
    in_ticks inp = ticks s \<and> in_free_pages inp = of_nat (card (free_set (pages s))) \<and>
    last_ai_tick (ai s') = last_ai_tick (ai s) \<and> ai_online (ai s') = ai_online (ai s)"
proof -
  let ?fp = "of_nat (card (free_set (pages s))) :: u32"
  define el' where "el' = (if el = 0 then 1 else el)"
  define inp0 where "inp0 = \<lparr>in_ticks = pit_get_ticks s, in_free_pages = ?fp, ready_count = 0, dead_count = 0,
                sensor_a = flit (14 / 10), sensor_b = flit (2 / 10),
                ml_scores = replicate MAX_TASKS (flit 0), anomaly = replicate MAX_TASKS 0\<rparr>"
  define I where "I = (\<lambda>(i :: nat) (inp, s'). kernel_ok s' \<and> input_ok inp \<and> ai_frame s s' \<and>
    in_ticks inp = ticks s \<and> in_free_pages inp = ?fp \<and>
    last_ai_tick (ai s') = last_ai_tick (ai s) \<and> ai_online (ai s') = ai_online (ai s))"
  have "\<exists>t. for_each (ai_sense_task el') [0..<MAX_TASKS] (inp0, s) = Some t \<and> I MAX_TASKS t"
  proof (rule for_each_upt_inv [where I = I])
    show "I 0 (inp0, s)" using assms by (simp add: I_def inp0_def pit_get_ticks_def input_ok_def MAX_TASKS_def)
  next
    fix i and r :: "ai_input \<times> 'a kernel_scheme" assume i: "i < MAX_TASKS" and r: "I i r"
    obtain inp s1 where rr: "r = (inp, s1)" by (cases r)
    have i8: "i < 8" using i by (simp add: MAX_TASKS_def)
    have k: "kernel_ok s1" and "input_ok inp" and f: "ai_frame s s1" using r by (simp_all add: rr I_def)
    from ai_sense_task_step [OF this(1,2) i8, of el'] obtain inp2 s2 where
      st: "ai_sense_task el' i (inp, s1) = Some (inp2, s2)" and rest: "kernel_ok s2 \<and> input_ok inp2 \<and> ai_frame s1 s2 \<and>
    in_ticks inp2 = in_ticks inp \<and> in_free_pages inp2 = in_free_pages inp \<and>
    last_ai_tick (ai s2) = last_ai_tick (ai s1) \<and> ai_online (ai s2) = ai_online (ai s1)" by blast
    have "ai_frame s s2" using ai_frame_trans [OF f] rest by blast
    then have "I (Suc i) (inp2, s2)" using r rest by (simp add: rr I_def)
    with st show "\<exists>t. ai_sense_task el' i r = Some t \<and> I (Suc i) t" by (auto simp: rr)
  qed
  then obtain inp s1 where loop: "for_each (ai_sense_task el') [0..<MAX_TASKS] (inp0, s) = Some (inp, s1)"
    and inv: "I MAX_TASKS (inp, s1)" by (metis surj_pair)
  have k: "kernel_ok s1" using inv by (simp add: I_def)
  obtain s2 where s2: "update_mem_trend (in_free_pages inp) (in_ticks inp) s1 = Some s2" "kernel_ok s2" "ai_frame s1 s2"
    "last_ai_tick (ai s2) = last_ai_tick (ai s1)" "ai_online (ai s2) = ai_online (ai s1)"
    using update_mem_trend_total [OF k] by blast
  have "pmm_free_pages (pages s) = Some ?fp" using assms pmm_free_pages_eq by (auto simp: kernel_ok_def)
  then have "ai_sense el s = Some (inp, s2)"
    unfolding ai_sense_def Let_def el'_def [symmetric] inp0_def [symmetric] using loop s2(1)
    by (simp add: inp0_def)
  then show ?thesis using inv s2 ai_frame_trans [OF _ s2(3)] by (auto simp: I_def)
qed

section \<open>Think\<close>

definition think_result :: "ai_input \<Rightarrow> 'a kernel_scheme \<Rightarrow> sys_state \<Rightarrow> nat \<Rightarrow> u8 \<times> u8" where
  "think_result inp s st i =
     (let (pm, pr) = think_task st i (tasks s ! i) (ml_scores inp ! i) (anomaly inp ! i)
      in if i = SHELL_TASK_ID \<and> state (tasks s ! i) \<noteq> TASK_DEAD then (1, if pr < 1 then 1 else pr) else (pm, pr))"

definition think_state :: "ai_input \<Rightarrow> sys_state" where
  "think_state inp = (if in_free_pages inp < PMM_ALERT_THRESHOLD then STATE_ALERT
      else if 4 < ready_count inp then STATE_NORMAL else STATE_CALM)"

lemma ai_think_eq:
  assumes "length (tasks s) = 8" and "input_ok inp"
  shows "ai_think inp s =
    (let st = think_state inp; r = think_result inp s st in
     Some (\<lparr>dec_state = st, dec_perm = map (fst \<circ> r) [0..<8], dec_priority = map (snd \<circ> r) [0..<8]\<rparr>,
           s\<lparr>ai := (ai s)\<lparr>current_state := st\<rparr>\<rparr>))"
proof -
  let ?st = "think_state inp"
  define tt where "tt = (\<lambda>i. think_task ?st i (tasks s ! i) (ml_scores inp ! i) (anomaly inp ! i))"
  have l: "length (ml_scores inp) = 8" "length (anomaly inp) = 8" using assms(2) by (auto simp: input_ok_def)
  define g where "g = (\<lambda>i. \<lparr>dec_state = ?st, dec_perm = map (fst \<circ> tt) [0..<i] @ replicate (8 - i) 0,
    dec_priority = map (snd \<circ> tt) [0..<i] @ replicate (8 - i) 0\<rparr>)"
  define body where "body = (\<lambda>i (dec :: ai_decision). do {
              t \<leftarrow> arr_get (tasks s) i;
              sc \<leftarrow> arr_get (ml_scores inp) i;
              an \<leftarrow> arr_get (anomaly inp) i;
              let (pm, pr) = think_task ?st i t sc an;
              pms \<leftarrow> arr_set (dec_perm dec) i pm;
              prs \<leftarrow> arr_set (dec_priority dec) i pr;
              Some (dec\<lparr>dec_perm := pms, dec_priority := prs\<rparr>) })"
  have upd: "(map f [0..<i] @ replicate (8 - i) 0)[i := f i] = map f [0..<Suc i] @ replicate (8 - Suc i) (0 :: u8)"
    if "i < 8" for f i
  proof -
    have "8 - i = Suc (8 - Suc i)" using that by simp
    then show ?thesis by (simp add: list_update_append)
  qed
  have "for_each body [0..<8] (g 0) = Some (g 8)"
  proof (rule for_each_upt)
    fix i :: nat assume i: "i < 8"
    obtain pm pr where p: "tt i = (pm, pr)" by (cases "tt i")
    then have p': "think_task ?st i (tasks s ! i) (ml_scores inp ! i) (anomaly inp ! i) = (pm, pr)" by (simp add: tt_def)
    show "body i (g i) = Some (g (Suc i))"
      using i assms(1) l upd [OF i, of "fst \<circ> tt"] upd [OF i, of "snd \<circ> tt"]
      by (simp add: body_def g_def p p')
  qed
  moreover have "g 0 = \<lparr>dec_state = ?st, dec_perm = replicate MAX_TASKS 0, dec_priority = replicate MAX_TASKS 0\<rparr>"
    by (simp add: g_def MAX_TASKS_def)
  ultimately have loop: "for_each body [0..<MAX_TASKS]
      \<lparr>dec_state = ?st, dec_perm = replicate MAX_TASKS 0, dec_priority = replicate MAX_TASKS 0\<rparr> = Some (g 8)"
    by (simp add: MAX_TASKS_def)
  have g8: "g 8 = \<lparr>dec_state = ?st, dec_perm = map (fst \<circ> tt) [0..<8], dec_priority = map (snd \<circ> tt) [0..<8]\<rparr>"
    by (simp add: g_def)
  have r: "think_result inp s ?st i = (if i = 0 \<and> state (tasks s ! i) \<noteq> TASK_DEAD
      then (1, if snd (tt i) < 1 then 1 else snd (tt i)) else tt i)" for i
    by (cases "i = 0 \<and> state (tasks s ! i) \<noteq> TASK_DEAD")
       (auto simp: think_result_def tt_def SHELL_TASK_ID_def split: prod.splits)
  have up0: "[0..<8] = 0 # [Suc 0..<8]" by (simp add: upt_rec)
  have tl: "map (f \<circ> think_result inp s ?st) [Suc 0..<8] = map (f \<circ> tt) [Suc 0..<8]" for f :: "u8 \<times> u8 \<Rightarrow> u8"
    by (simp add: r)
  show ?thesis
    unfolding ai_think_def Let_def think_state_def [symmetric] body_def [unfolded Let_def, symmetric] loop
    using assms(1) unfolding g8 up0 list.map tl by (simp add: SHELL_TASK_ID_def r)
qed

section \<open>Act\<close>

definition event_shape :: "prajna_event \<Rightarrow> bool" where
  "event_shape e \<longleftrightarrow> length (ev_perm e) = 8 \<and> length (ev_priority e) = 8 \<and> length (ev_anomaly e) = 8"

lemma log_entry_total:
  assumes "kernel_ok s" and "input_ok inp" and "length (dec_perm dec) = 8" and "length (dec_priority dec) = 8"
    and "event_shape ev"
  shows "\<exists>ev'. log_entry inp dec s ev = Some ev' \<and> event_shape ev' \<and> ev_tick ev' = ticks s \<and>
    ev_state ev' = dec_state dec \<and> ev_perm ev' = dec_perm dec \<and> ev_priority ev' = dec_priority dec"
proof -
  have fp: "pmm_free_pages (pages s) = Some (of_nat (card (free_set (pages s))))"
    using assms pmm_free_pages_eq by (auto simp: kernel_ok_def)
  define I where "I = (\<lambda>i e. event_shape e \<and> ev_tick e = ticks s \<and> ev_state e = dec_state dec \<and>
     take i (ev_perm e) = take i (dec_perm dec) \<and> take i (ev_priority e) = take i (dec_priority dec))"
  define ev0 where "ev0 = ev\<lparr>ev_tick := pit_get_ticks s, ev_state := dec_state dec,
      free_pages_at_decision := ucast (of_nat (card (free_set (pages s))) :: u32),
      starvation_task_id := 0xFF, anomaly_task_id := 0xFF\<rparr>"
  define body where "body = (\<lambda>i (ev :: prajna_event). do {
       p \<leftarrow> arr_get (dec_perm dec) i;
       q \<leftarrow> arr_get (dec_priority dec) i;
       pms \<leftarrow> arr_set (ev_perm ev) i p;
       prs \<leftarrow> arr_set (ev_priority ev) i q;
       let ev = ev\<lparr>ev_perm := pms, ev_priority := prs\<rparr>;
       t \<leftarrow> arr_get (tasks s) i;
       let ev = (if STARVATION_THRESHOLD < wait_ticks t \<and> starvation_task_id ev = 0xFF
                 then ev\<lparr>starvation_task_id := of_nat i\<rparr> else ev);
       an \<leftarrow> arr_get (anomaly inp) i;
       Some (if an \<noteq> 0 \<and> anomaly_task_id ev = 0xFF then ev\<lparr>anomaly_task_id := of_nat i\<rparr> else ev) })"
  have "\<exists>t. for_each body [0..<8] ev0 = Some t \<and> I 8 t"
  proof (rule for_each_upt_inv [where I = I])
    show "I 0 ev0" using assms(5) by (simp add: I_def ev0_def event_shape_def pit_get_ticks_def)
  next
    fix i :: nat and e :: prajna_event assume i: "i < 8" and e: "I i e"
    have tk: "take (Suc i) ((ev_perm e)[i := dec_perm dec ! i]) = take (Suc i) (dec_perm dec)"
      "take (Suc i) ((ev_priority e)[i := dec_priority dec ! i]) = take (Suc i) (dec_priority dec)"
      using i e assms(3,4) by (simp_all add: I_def event_shape_def take_Suc_conv_app_nth)
    have l: "length (tasks s) = 8" "length (anomaly inp) = 8" "length (ev_perm e) = 8" "length (ev_priority e) = 8"
      using assms(1,2) e by (auto simp: kernel_ok_def input_ok_def I_def event_shape_def)
    show "\<exists>t. body i e = Some t \<and> I (Suc i) t"
      using i e assms(3,4) tk l by (simp add: body_def Let_def I_def event_shape_def)
  qed
  then obtain ev' where ev': "for_each body [0..<8] ev0 = Some ev'" "I 8 ev'" by blast
  have "log_entry inp dec s ev = for_each body [0..<8] ev0"
    unfolding log_entry_def fp ev0_def body_def Let_def by (simp add: MAX_TASKS_def)
  then show ?thesis using ev' assms(3,4) by (auto simp: I_def event_shape_def)
qed

lemma write_perms_eq:
  assumes "length (dec_perm dec) = 8" and "length (dec_priority dec) = 8" and "length pt = 8"
  shows "write_perms dec pt = Some (map (\<lambda>i. \<lparr>allowed = dec_perm dec ! i, perm_priority = dec_priority dec ! i\<rparr>) [0..<8])"
proof -
  let ?new = "map (\<lambda>i. \<lparr>allowed = dec_perm dec ! i, perm_priority = dec_priority dec ! i\<rparr>) [0..<8]"
  have "write_perms dec pt = Some (take 8 ?new @ drop 8 pt)"
    unfolding write_perms_def MAX_TASKS_def
    by (rule copy_loop) (use assms in simp_all)
  then show ?thesis using assms(3) by simp
qed

text \<open>The alerts print and keep the warned flag; nothing else.\<close>

lemma starvation_alert_total:
  assumes "length (tasks s) = 8"
  shows "\<exists>v w. starvation_alert ev s = Some (s\<lparr>vga := v, ai := (ai s)\<lparr>starvation_warned := w\<rparr>\<rparr>)"
proof -
  obtain v where v: "print_at (cstr ''[PRAJNA] Warning: task starvation detected'') 23 0 0x0E s = Some (s\<lparr>vga := v\<rparr>)"
    using print_at_total [OF printable_msgs(3)] by blast
  let ?P = "\<lambda>i. state (tasks s ! i) \<noteq> TASK_DEAD \<and> starvation_task_id ev \<noteq> 0xFF \<and> starvation_warned (ai s) = 0"
  let ?x = "s\<lparr>vga := v, ai := (ai s)\<lparr>starvation_warned := 1\<rparr>\<rparr>"
  have "starvation_alert ev s = Some (case find ?P [0..<MAX_TASKS] of Some i \<Rightarrow> ?x | None \<Rightarrow> s)"
    unfolding starvation_alert_def
    by (subst for_until_find [where P = ?P and g = "\<lambda>_. ?x"])
       (use assms v in \<open>auto simp: MAX_TASKS_def split: option.splits\<close>)
  then have "starvation_alert ev s = Some (s\<lparr>vga := vga s, ai := (ai s)\<lparr>starvation_warned := starvation_warned (ai s)\<rparr>\<rparr>) \<or>
      starvation_alert ev s = Some ?x" by (cases "find ?P [0..<MAX_TASKS]") simp_all
  then show ?thesis by blast
qed

lemma starvation_reset_total:
  assumes "length (tasks s) = 8"
  shows "\<exists>w. starvation_reset s = Some (s\<lparr>ai := (ai s)\<lparr>starvation_warned := w\<rparr>\<rparr>)"
proof (cases "starvation_warned (ai s) = 0")
  case True
  then have "starvation_reset s = Some (s\<lparr>ai := (ai s)\<lparr>starvation_warned := starvation_warned (ai s)\<rparr>\<rparr>)"
    by (simp add: starvation_reset_def)
  then show ?thesis by blast
next
  case False
  let ?P = "\<lambda>i. state (tasks s ! i) \<noteq> TASK_DEAD \<and> STARVATION_THRESHOLD < wait_ticks (tasks s ! i)"
  have "starvation_reset s = Some (if find ?P [0..<MAX_TASKS] = None
      then s\<lparr>ai := (ai s)\<lparr>starvation_warned := 0\<rparr>\<rparr> else s)"
    unfolding starvation_reset_def
    by (subst for_until_find [where P = ?P and g = "\<lambda>_. 1"])
       (use assms False in \<open>auto simp: MAX_TASKS_def split: option.splits\<close>)
  then have "starvation_reset s = Some (s\<lparr>ai := (ai s)\<lparr>starvation_warned := starvation_warned (ai s)\<rparr>\<rparr>) \<or>
      starvation_reset s = Some (s\<lparr>ai := (ai s)\<lparr>starvation_warned := 0\<rparr>\<rparr>)"
    by (cases "find ?P [0..<MAX_TASKS] = None") simp_all
  then show ?thesis by blast
qed

lemma anomaly_alert_total:
  assumes "length (tasks s) = 8" and "input_ok inp"
  shows "\<exists>v. anomaly_alert inp s = Some (s\<lparr>vga := v\<rparr>)"
proof -
  obtain v where v: "print_at (cstr ''[PRAJNA] Warning: anomaly detected in task'') 23 0 0x0C s = Some (s\<lparr>vga := v\<rparr>)"
    using print_at_total [OF printable_msgs(4)] by blast
  let ?P = "\<lambda>i. state (tasks s ! i) \<noteq> TASK_DEAD \<and> anomaly inp ! i \<noteq> 0"
  have "anomaly_alert inp s = Some (case find ?P [0..<MAX_TASKS] of Some i \<Rightarrow> s\<lparr>vga := v\<rparr> | None \<Rightarrow> s)"
    unfolding anomaly_alert_def
    by (subst for_until_find [where P = ?P and g = "\<lambda>_. s\<lparr>vga := v\<rparr>"])
       (use assms v in \<open>auto simp: MAX_TASKS_def input_ok_def split: option.splits\<close>)
  then have "anomaly_alert inp s = Some (s\<lparr>vga := vga s\<rparr>) \<or> anomaly_alert inp s = Some (s\<lparr>vga := v\<rparr>)"
    by (cases "find ?P [0..<MAX_TASKS]") simp_all
  then show ?thesis by blast
qed

lemma ai_act_total:
  assumes "kernel_ok s" and "input_ok inp" and "length (dec_perm dec) = 8" and "length (dec_priority dec) = 8"
  shows "\<exists>s'. ai_act inp dec s = Some s' \<and> kernel_ok s' \<and> ai_frame s s' \<and>
    perm_table (ai s') = map (\<lambda>i. \<lparr>allowed = dec_perm dec ! i, perm_priority = dec_priority dec ! i\<rparr>) [0..<8] \<and>
    current_state (ai s') = current_state (ai s) \<and> last_ai_tick (ai s') = last_ai_tick (ai s) \<and>
    ai_online (ai s') = ai_online (ai s) \<and> tasks s' = tasks s \<and>
    (let e = last (events (ai s')) in events (ai s') \<noteq> [] \<and> ev_tick e = ticks s \<and> ev_state e = dec_state dec \<and>
       ev_perm e = dec_perm dec \<and> ev_priority e = dec_priority dec)"
proof -
  have ok: "ai_ok (ai s)" "events_ok (ai s)" "length (tasks s) = 8" "bitmap_ok (pages s)"
    using assms(1) by (auto simp: kernel_ok_def ai_ok_def events_ok_def)
  have i: "unat (event_index (ai s)) < length (event_log (ai s))" using ok(2) by (auto simp: events_ok_def word_less_nat_alt)
  have shape: "event_shape (event_log (ai s) ! unat (event_index (ai s)))"
    using ok(1) nth_mem [OF i] by (auto simp: ai_ok_def event_shape_def)
  obtain ev where ev: "log_entry inp dec s (event_log (ai s) ! unat (event_index (ai s))) = Some ev" "event_shape ev"
    "ev_tick ev = ticks s" "ev_state ev = dec_state dec" "ev_perm ev = dec_perm dec" "ev_priority ev = dec_priority dec"
    using log_entry_total [OF assms shape] by blast
  obtain a where a: "event_log_push ev (ai s) = Some a" "events_ok a" using evlog.push_law [OF ok(2)] by blast
  have nw: "events a \<noteq> []" "last (events a) = ev" using evlog.push_newest [OF ok(2) a(1)] by simp_all
  have af: "a = (ai s)\<lparr>event_log := (event_log (ai s))[unat (event_index (ai s)) := ev],
      event_index := event_index a, event_filled := event_filled a\<rparr>"
    using a(1) i by (auto simp: event_log_push_def Let_def split: if_splits)
  have fld: "memhist a = memhist (ai s)" "task_history a = task_history (ai s)" "perm_table a = perm_table (ai s)"
    "event_log a = (event_log (ai s))[unat (event_index (ai s)) := ev]" "current_state a = current_state (ai s)"
    "last_ai_tick a = last_ai_tick (ai s)" "ai_online a = ai_online (ai s)"
    by (subst af, simp)+
  define pt where "pt = map (\<lambda>i. \<lparr>allowed = dec_perm dec ! i, perm_priority = dec_priority dec ! i\<rparr>) [0..<8]"
  have "length (perm_table a) = 8" using ok(1) fld(3) by (simp add: ai_ok_def)
  then have pt: "write_perms dec (perm_table a) = Some pt" using write_perms_eq [OF assms(3,4)] by (simp add: pt_def)
  define b where "b = a\<lparr>perm_table := pt\<rparr>"
  have comm: "s\<lparr>ai := x, vga := y\<rparr> = s\<lparr>vga := y, ai := x\<rparr>" for x y by simp
  obtain v1 where v1: "print_at (replicate 50 32 @ [0]) 23 0 0x07 (s\<lparr>ai := b\<rparr>) = Some (s\<lparr>vga := v1, ai := b\<rparr>)"
    using print_at_blank [of 50 23 0 7 "s\<lparr>ai := b\<rparr>"] unfolding comm by blast
  have fp: "pmm_free_pages (pages s) = Some (of_nat (card (free_set (pages s))))" using pmm_free_pages_eq [OF ok(4)] .
  obtain v2 where v2: "print_at (cstr ''[PRAJNA] Warning: memory low, act fast'') 23 0 0x0E (s\<lparr>vga := v1, ai := b\<rparr>) = Some (s\<lparr>vga := v2, ai := b\<rparr>)"
    using print_at_total [OF printable_msgs(5), of 23 0 14 "s\<lparr>vga := v1, ai := b\<rparr>"] by (auto simp: comm)
  define v3 where "v3 = (if of_nat (card (free_set (pages s))) < PMM_ALERT_THRESHOLD * 2 then v2 else v1)"
  obtain v4 w1 where v4: "starvation_alert ev (s\<lparr>vga := v3, ai := b\<rparr>) = Some (s\<lparr>vga := v4, ai := b\<lparr>starvation_warned := w1\<rparr>\<rparr>)"
    using starvation_alert_total [of "s\<lparr>vga := v3, ai := b\<rparr>" ev] ok(3) by (auto simp: comm)
  obtain w2 where w2: "starvation_reset (s\<lparr>vga := v4, ai := b\<lparr>starvation_warned := w1\<rparr>\<rparr>) = Some (s\<lparr>vga := v4, ai := b\<lparr>starvation_warned := w2\<rparr>\<rparr>)"
    using starvation_reset_total [of "s\<lparr>vga := v4, ai := b\<lparr>starvation_warned := w1\<rparr>\<rparr>"] ok(3) by (auto simp: comm)
  obtain v5 where v5: "anomaly_alert inp (s\<lparr>vga := v4, ai := b\<lparr>starvation_warned := w2\<rparr>\<rparr>) = Some (s\<lparr>vga := v5, ai := b\<lparr>starvation_warned := w2\<rparr>\<rparr>)"
    using anomaly_alert_total [of "s\<lparr>vga := v4, ai := b\<lparr>starvation_warned := w2\<rparr>\<rparr>" inp] ok(3) assms(2) by (auto simp: comm)
  define s' where "s' = s\<lparr>vga := v5, ai := b\<lparr>starvation_warned := w2\<rparr>\<rparr>"
  have "ai_act inp dec s = Some s'"
    unfolding ai_act_def using i ev(1) a(1) pt v1 v2 fp v4 w2 v5
    by (simp add: Let_def b_def [symmetric] s'_def v3_def split: if_splits)
  moreover have "kernel_ok s'"
    using assms(1) ok(1) fld a(2) ev(2) set_update_subset_insert [of "event_log (ai s)" "unat (event_index (ai s))" ev]
    by (auto simp: s'_def kernel_ok_def b_def ai_ok_def pt_def events_ok_def event_shape_def)
  moreover have "ai_frame s s'" by (simp add: ai_frame_def s'_def)
  moreover have "events (ai s') = events a" by (simp add: s'_def b_def events_def)
  ultimately show ?thesis using fld nw ev by (auto simp: s'_def b_def pt_def)
qed

section \<open>The cycle\<close>

lemma ai_kernel_tick_run:
  assumes "kernel_ok s" and "ai_online (ai s) \<noteq> 0" and "AI_TICK_INTERVAL \<le> ticks s - last_ai_tick (ai s)"
  shows "\<exists>s1 inp s'. ai_sense (ticks s - last_ai_tick (ai s)) (s\<lparr>ai := (ai s)\<lparr>last_ai_tick := ticks s\<rparr>\<rparr>) = Some (inp, s1) \<and>
    in_free_pages inp = of_nat (card (free_set (pages s))) \<and>
    ai_kernel_tick s = Some s' \<and> kernel_ok s' \<and> ai_frame s s' \<and> last_ai_tick (ai s') = ticks s \<and>
    ai_online (ai s') = ai_online (ai s) \<and> current_state (ai s') = think_state inp \<and>
    perm_table (ai s') = map (\<lambda>i. \<lparr>allowed = fst (think_result inp s' (think_state inp) i),
       perm_priority = snd (think_result inp s' (think_state inp) i)\<rparr>) [0..<8] \<and>
    (let e = last (events (ai s')) in events (ai s') \<noteq> [] \<and> ev_tick e = ticks s \<and> ev_state e = think_state inp \<and>
       ev_perm e = map allowed (perm_table (ai s')) \<and> ev_priority e = map perm_priority (perm_table (ai s')))"
proof -
  define s0 where "s0 = s\<lparr>ai := (ai s)\<lparr>last_ai_tick := ticks s\<rparr>\<rparr>"
  have k0: "kernel_ok s0" using assms(1) by (simp add: s0_def kernel_ok_def ai_ok_def)
  obtain inp s1 where s1: "ai_sense (ticks s - last_ai_tick (ai s)) s0 = Some (inp, s1)" "kernel_ok s1" "input_ok inp"
    "ai_frame s0 s1" "in_free_pages inp = of_nat (card (free_set (pages s)))" "last_ai_tick (ai s1) = ticks s"
    "ai_online (ai s1) = ai_online (ai s)"
    using ai_sense_total [OF k0, of "ticks s - last_ai_tick (ai s)"] by (auto simp: s0_def)
  let ?st = "think_state inp"
  define r where "r = think_result inp s1 ?st"
  define dec where "dec = \<lparr>dec_state = ?st, dec_perm = map (fst \<circ> r) [0..<8], dec_priority = map (snd \<circ> r) [0..<8]\<rparr>"
  define s2 where "s2 = s1\<lparr>ai := (ai s1)\<lparr>current_state := ?st\<rparr>\<rparr>"
  have think: "ai_think inp s1 = Some (dec, s2)"
    using ai_think_eq [of s1 inp] s1(2,3) by (simp add: kernel_ok_def dec_def r_def s2_def Let_def)
  have k2: "kernel_ok s2" using s1(2) by (simp add: s2_def kernel_ok_def ai_ok_def)
  obtain s' where s': "ai_act inp dec s2 = Some s'" "kernel_ok s'" "ai_frame s2 s'"
    "perm_table (ai s') = map (\<lambda>i. \<lparr>allowed = dec_perm dec ! i, perm_priority = dec_priority dec ! i\<rparr>) [0..<8]"
    "current_state (ai s') = ?st" "last_ai_tick (ai s') = ticks s" "ai_online (ai s') = ai_online (ai s)" "tasks s' = tasks s1"
    "let e = last (events (ai s')) in events (ai s') \<noteq> [] \<and> ev_tick e = ticks s2 \<and> ev_state e = dec_state dec \<and>
       ev_perm e = dec_perm dec \<and> ev_priority e = dec_priority dec"
    using ai_act_total [OF k2 s1(3), of dec] s1(6,7) by (auto simp: dec_def s2_def)
  have f: "ai_frame s s2"
    using ai_frame_trans [OF ai_frame_upd(1) s1(4) [unfolded s0_def]] ai_frame_trans [OF _ ai_frame_upd(1)]
    unfolding s2_def by blast
  have t2: "ticks s2 = ticks s" using ai_frame_fields(1) [OF f] .
  have r': "think_result inp s' ?st = r" using s'(8) by (simp add: r_def think_result_def fun_eq_iff)
  have pt: "perm_table (ai s') = map (\<lambda>i. \<lparr>allowed = fst (r i), perm_priority = snd (r i)\<rparr>) [0..<8]"
    unfolding s'(4) by (rule map_cong) (simp_all add: dec_def)
  have "ai_kernel_tick s = Some s'"
    using assms(2,3) s1(1) think s'(1)
    by (simp add: ai_kernel_tick_def Let_def pit_get_ticks_def s0_def not_less)
  moreover have "ev_perm (last (events (ai s'))) = map allowed (perm_table (ai s'))"
    "ev_priority (last (events (ai s'))) = map perm_priority (perm_table (ai s'))"
    using s'(9) unfolding pt by (simp_all add: Let_def dec_def comp_def)
  ultimately show ?thesis
    using s1(1,5) s'(2,5,6,7,9) pt r' t2 ai_frame_trans [OF f s'(3)] unfolding s0_def
    by (intro exI [of _ s1] exI [of _ inp] exI [of _ s'] conjI) (simp_all add: Let_def dec_def)
qed

section \<open>The properties of the engine\<close>

lemma think_task_cases:
  assumes "think_task st i t sc an = (pm, pr)"
  shows "pm = (if state t = TASK_DEAD \<or> st = STATE_ALERT \<and> i \<noteq> SHELL_TASK_ID then 0 else 1)"
    and "pm = 0 \<Longrightarrow> pr = 0" and "pr \<le> 2"
    and "pm = 1 \<Longrightarrow> STARVATION_THRESHOLD < wait_ticks t \<Longrightarrow> pr = 2"
  using assms by (auto simp: think_task_def Let_def split: if_splits)

lemma pages_low:
  "(of_nat (card (free_set bm)) :: u32) < PMM_ALERT_THRESHOLD \<longleftrightarrow> card (free_set bm) < 64"
proof -
  have "card (free_set bm) < 2 ^ 32" using card_free_set [of bm] by (simp add: TOTAL_PAGES_eq)
  then have "unat (of_nat (card (free_set bm)) :: u32) = card (free_set bm)" by (intro unat_of_nat_small) simp
  then show ?thesis by (simp add: word_less_nat_alt PMM_ALERT_THRESHOLD_def)
qed

definition prajna_verdict :: "bool \<Rightarrow> nat \<Rightarrow> task \<Rightarrow> ai_permission \<Rightarrow> bool" where
  "prajna_verdict alert i t p \<longleftrightarrow>
     allowed p = (if state t = TASK_DEAD \<or> alert \<and> i \<noteq> SHELL_TASK_ID then 0 else 1) \<and>
     (allowed p = 0 \<longrightarrow> perm_priority p = 0) \<and> perm_priority p \<le> 2 \<and>
     (allowed p = 1 \<longrightarrow> STARVATION_THRESHOLD < wait_ticks t \<longrightarrow> perm_priority p = 2) \<and>
     (i = SHELL_TASK_ID \<longrightarrow> state t \<noteq> TASK_DEAD \<longrightarrow> 1 \<le> perm_priority p)"

lemma think_result_verdict:
  "prajna_verdict (think_state inp = STATE_ALERT) i (tasks s ! i)
     \<lparr>allowed = fst (think_result inp s (think_state inp) i), perm_priority = snd (think_result inp s (think_state inp) i)\<rparr>"
proof -
  obtain pm pr where p: "think_task (think_state inp) i (tasks s ! i) (ml_scores inp ! i) (anomaly inp ! i) = (pm, pr)"
    by (metis surj_pair)
  note c = think_task_cases [OF p]
  have ge1: "(1 :: u8) \<le> x \<longleftrightarrow> x \<noteq> 0" for x by (metis linorder_not_less word_less_1)
  have "(1 :: u8) \<le> 2" by simp
  then show ?thesis using c by (auto simp: prajna_verdict_def think_result_def p Let_def ge1)
qed

text \<open>
  C12: A cycle of the engine always completes without an out-of-bounds access, at most every 50
  ticks, touches nothing but the screen, its own variables and the usage fields of the task table,
  and leaves one verdict per task in the permission table: dead tasks and, below 64 free pages, all
  tasks but the shell are blocked (the starvation guard does not lift that, whatever the comment in
  the code says); every other task is allowed; a starving allowed task has priority 2; the live
  shell has at least priority 1.  The verdict is also the newest entry of the event log.
\<close>

theorem prajna_cycle:
  assumes "kernel_ok s" and "ai_online (ai s) \<noteq> 0" and "50 \<le> ticks s - last_ai_tick (ai s)"
  shows "\<exists>s'. ai_kernel_tick s = Some s' \<and> kernel_ok s' \<and> ai_frame s s' \<and> ai_kernel_tick s' = Some s' \<and>
    (ai_get_state s' = STATE_ALERT \<longleftrightarrow> card (free_set (pages s)) < 64) \<and>
    (\<forall>i<8. prajna_verdict (card (free_set (pages s)) < 64) i (tasks s ! i) (perm_table (ai s') ! i)) \<and>
    (let e = last (events (ai s')) in events (ai s') \<noteq> [] \<and> ev_tick e = ticks s \<and> ev_state e = ai_get_state s' \<and>
       ev_perm e = map allowed (perm_table (ai s')) \<and> ev_priority e = map perm_priority (perm_table (ai s')))"
proof -
  from ai_kernel_tick_run [OF assms(1,2)] assms(3) obtain inp s' where
    fp: "in_free_pages inp = of_nat (card (free_set (pages s)))" and
    s': "ai_kernel_tick s = Some s'" "kernel_ok s'" "ai_frame s s'" "last_ai_tick (ai s') = ticks s"
      "current_state (ai s') = think_state inp" and
    pt: "perm_table (ai s') = map (\<lambda>i. \<lparr>allowed = fst (think_result inp s' (think_state inp) i),
       perm_priority = snd (think_result inp s' (think_state inp) i)\<rparr>) [0..<8]" and
    lg: "let e = last (events (ai s')) in events (ai s') \<noteq> [] \<and> ev_tick e = ticks s \<and> ev_state e = think_state inp \<and>
       ev_perm e = map allowed (perm_table (ai s')) \<and> ev_priority e = map perm_priority (perm_table (ai s'))"
    by (auto simp: AI_TICK_INTERVAL_def)
  have st: "think_state inp = STATE_ALERT \<longleftrightarrow> card (free_set (pages s)) < 64"
    using fp pages_low [of "pages s"] by (auto simp: think_state_def)
  have again: "ai_kernel_tick s' = Some s'"
    using s'(4) ai_frame_fields(1) [OF s'(3)] by (simp add: ai_kernel_tick_def pit_get_ticks_def AI_TICK_INTERVAL_def Let_def)
  have v: "prajna_verdict (card (free_set (pages s)) < 64) i (tasks s ! i) (perm_table (ai s') ! i)" if "i < 8" for i
  proof -
    have "i < length (tasks s)" using that assms(1) by (simp add: kernel_ok_def)
    note t = ai_frame_task [OF s'(3) this]
    have "prajna_verdict (card (free_set (pages s)) < 64) i (tasks s' ! i) (perm_table (ai s') ! i)"
      using think_result_verdict [of inp i s'] that pt unfolding st by simp
    then show ?thesis unfolding prajna_verdict_def t .
  qed
  show ?thesis
    by (intro exI [of _ s'] conjI allI impI) (use s' again st v lg in \<open>simp_all add: ai_get_state_def\<close>)
qed

lemma prajna_cycle_witness:
  "\<exists>s'. ai_kernel_tick (bss_kernel\<lparr>ticks := 100\<rparr>) = Some s' \<and> kernel_ok s' \<and> ai_kernel_tick s' = Some s'"
proof -
  have "kernel_ok (bss_kernel\<lparr>ticks := 100\<rparr>)" using kernel_ok_bss by (simp add: kernel_ok_def)
  from prajna_cycle [OF this] show ?thesis by (auto simp: bss_kernel_def ai_init_def)
qed

text \<open>
  C35: The event log read back by the shell: after any sequence of decisions is pushed on a
  well-formed log, \<open>ai_get_log\<close> copies out exactly the newest of them, newest first, never more than
  asked for, than were logged or than the 20 the ring holds.
\<close>

theorem prajna_log_newest_first:
  assumes "events_ok a" and "unat count \<le> length out"
  shows "\<exists>a'. for_each event_log_push es a = Some a' \<and> events_ok a' \<and>
    (let n = min (unat count) (min 20 (length (events a @ es))) in
     ai_get_log out count a' = Some (of_nat n, take n (rev (events a @ es)) @ drop n out))"
proof -
  obtain a' where a': "for_each event_log_push es a = Some a'" "events_ok a'"
    "events a' = drop (length (events a) + length es - 20) (events a @ es)"
    using evlog.push_all [OF assms(1)] by blast
  have l: "length (events a') = min 20 (length (events a @ es))" by (simp add: a'(3))
  have "rev (events a') = take (min 20 (length (events a @ es))) (rev (events a @ es))"
    unfolding a'(3) rev_drop by (intro arg_cong2 [where f = take]) auto
  then have tk: "take n (rev (events a')) = take n (rev (events a @ es))" if "n \<le> min 20 (length (events a @ es))" for n
    using that by (simp only: take_take min.absorb1)
  show ?thesis using ai_get_log_eq [OF a'(2) assms(2)] a'(1,2)
    unfolding l Let_def by (subst (asm) tk) auto
qed

lemma prajna_log_newest_first_witness:
  "\<exists>a'. for_each event_log_push (replicate 30 (hd (event_log ai_init))) ai_init = Some a' \<and>
     ai_get_log (replicate 5 (hd (event_log ai_init))) 5 a' = Some (5, replicate 5 (hd (event_log ai_init)))"
  using prajna_log_newest_first [of ai_init 5 "replicate 5 (hd (event_log ai_init))" "replicate 30 (hd (event_log ai_init))"]
  by (auto simp: events_ok_def ai_init_def events_def circ_def EVENT_LOG_SIZE_def)

text \<open>
  The memory history handed to the trend display is the chronological list of the last (up
  to) eight samples, whatever the ring position.
\<close>

theorem prajna_memory_history_chronological:
  assumes "mem_history_ok (memhist a)" and "8 \<le> length pgs" and "8 \<le> length tks"
  shows "\<exists>h. for_each mem_history_push es (memhist a) = Some h \<and> mem_history_ok h \<and>
    (let hist = mem_entries (memhist a) @ es; recent = drop (length hist - 8) hist; n = length recent in
     ai_get_memory_history pgs tks (a\<lparr>memhist := h\<rparr>) =
       Some (of_nat n, map fst recent @ drop n pgs, map snd recent @ drop n tks))"
proof -
  obtain h where h: "for_each mem_history_push es (memhist a) = Some h" "mem_history_ok h"
    "mem_entries h = drop (length (mem_entries (memhist a)) + length es - 8) (mem_entries (memhist a) @ es)"
    using memh.push_all [OF assms(1)] by blast
  then have m: "mem_entries h = drop (length (mem_entries (memhist a) @ es) - 8) (mem_entries (memhist a) @ es)"
    by (simp only: length_append)
  have "mem_history_ok (memhist (a\<lparr>memhist := h\<rparr>))" using h(2) by simp
  from ai_get_memory_history_eq [OF this assms(2,3)]
  have "ai_get_memory_history pgs tks (a\<lparr>memhist := h\<rparr>) = (let es = mem_entries h; n = length es in
     Some (of_nat n, map fst es @ drop n pgs, map snd es @ drop n tks))" by simp
  then show ?thesis unfolding m Let_def using h(1,2) by blast
qed

lemma prajna_memory_history_chronological_witness:
  "\<exists>h. for_each mem_history_push [(500, 50), (490, 100)] (memhist ai_init) = Some h \<and>
     ai_get_memory_history (replicate 8 0) (replicate 8 0) (ai_init\<lparr>memhist := h\<rparr>) =
       Some (2, [500, 490] @ replicate 6 0, [50, 100] @ replicate 6 0)"
  using prajna_memory_history_chronological [of ai_init "replicate 8 0" "replicate 8 0" "[(500, 50), (490, 100)]"]
  by (auto simp: mem_history_ok_def ai_init_def HISTORY_LEN_def mem_entries_def circ_def Let_def)

text \<open>
  C36: What the anomaly test looks at: once a history has wrapped, only the first \<open>history_index\<close>
  slots of its buffer count (the last two arguments of \<open>avg_history\<close> are swapped at its calls), so
  any other contents of the remaining slots give the same result, and right after a wrap, with the
  index at 0, no task is ever anomalous, whatever its usage is and was.
\<close>

theorem anomaly_check_blind:
  assumes "h_filled h \<noteq> 0" and "length c = length (cpu_history h)" and "length m = length (mem_use_history h)"
    and "take (unat (h_index h)) c = take (unat (h_index h)) (cpu_history h)"
    and "take (unat (h_index h)) m = take (unat (h_index h)) (mem_use_history h)"
  shows "anomaly_check i t (h\<lparr>cpu_history := c, mem_use_history := m\<rparr>) inp = anomaly_check i t h inp \<and>
    (h_index h = 0 \<longrightarrow> i < length (anomaly inp) \<longrightarrow>
       anomaly_check i t h inp = Some (inp\<lparr>anomaly := (anomaly inp)[i := 0]\<rparr>))"
proof (rule conjI)
  have "avg_history c (h_filled h) (h_index h) n = avg_history (cpu_history h) (h_filled h) (h_index h) n"
    "avg_history m (h_filled h) (h_index h) n = avg_history (mem_use_history h) (h_filled h) (h_index h) n" for n
    using avg_history_prefix assms by blast+
  then show "anomaly_check i t (h\<lparr>cpu_history := c, mem_use_history := m\<rparr>) inp = anomaly_check i t h inp"
    by (simp add: anomaly_check_def)
next
  have "flit 0 < flit 1" by (simp add: flit_small less_flt_def)
  then have "is_anomalous v (flit 0) = 0" for v by (simp add: is_anomalous_def)
  then show "h_index h = 0 \<longrightarrow> i < length (anomaly inp) \<longrightarrow>
       anomaly_check i t h inp = Some (inp\<lparr>anomaly := (anomaly inp)[i := 0]\<rparr>)"
    using assms(1) by (simp add: anomaly_check_def avg_history_def)
qed

lemma anomaly_check_blind_witness:
  "anomaly_check 0 (zero_task\<lparr>cpu_usage := flit 100\<rparr>)
     \<lparr>cpu_history = replicate 8 (flit 1), mem_use_history = replicate 8 (flit 0), h_index = 0, h_filled = 1\<rparr>
     \<lparr>in_ticks = 0, in_free_pages = 0, ready_count = 0, dead_count = 0, sensor_a = flit 0, sensor_b = flit 0,
        ml_scores = [], anomaly = [0]\<rparr> =
   Some \<lparr>in_ticks = 0, in_free_pages = 0, ready_count = 0, dead_count = 0, sensor_a = flit 0, sensor_b = flit 0,
        ml_scores = [], anomaly = [0]\<rparr>"
  using anomaly_check_blind [of "\<lparr>cpu_history = replicate 8 (flit 1), mem_use_history = replicate 8 (flit 0), h_index = 0, h_filled = 1\<rparr>"
     "replicate 8 (flit 1)" "replicate 8 (flit 0)" 0 "zero_task\<lparr>cpu_usage := flit 100\<rparr>"
     "\<lparr>in_ticks = 0, in_free_pages = 0, ready_count = 0, dead_count = 0, sensor_a = flit 0, sensor_b = flit 0,
        ml_scores = [], anomaly = [0]\<rparr>"] by simp

end
