(* ===== verification/Scheduler.thy ===== *)
theory Scheduler
  imports Prajna
begin

text \<open>
  The scheduler (\<^verbatim>\<open>kernel/scheduler.c\<close>) and the context switch (\<^verbatim>\<open>kernel/switch.asm\<close>): tasks are
  created with a hand-made stack frame, scored by the neural network once per second, chosen by
  Prajna's tier plus that score, and switched to by exchanging stack pointers.

  The processor state a switch touches is a record of its own.  The two C arguments of
  \<open>context_switch\<close> (the place the old stack pointer goes to, and the new one) are an argument and a
  result here instead of words on the stack.
\<close>

section \<open>The processor\<close>

record cpu =
  r_eax :: u32
  r_ebx :: u32
  r_esi :: u32
  r_edi :: u32
  r_ebp :: u32
  r_esp :: u32
  r_eip :: u32
  if_flag :: bool

definition push :: "u32 \<Rightarrow> u32 \<times> mem \<Rightarrow> (u32 \<times> mem) option" where
  "push v = (\<lambda>(sp, m). do { m \<leftarrow> store_word (sp - 4) v m; Some (sp - 4, m) })"

definition pop :: "u32 \<Rightarrow> mem \<Rightarrow> (u32 \<times> u32) option" where
  "pop sp m = do { v \<leftarrow> load_word sp m; Some (v, sp + 4) }"

definition context_switch :: "u32 \<Rightarrow> cpu \<Rightarrow> mem \<Rightarrow> (u32 \<times> cpu \<times> mem) option" where
  "context_switch new_esp c m = do {
     (sp, m) \<leftarrow> push (r_ebp c) (r_esp c, m);
     (sp, m) \<leftarrow> push (r_ebx c) (sp, m);
     (sp, m) \<leftarrow> push (r_esi c) (sp, m);
     (sp, m) \<leftarrow> push (r_edi c) (sp, m);
     let old_esp = sp;
     let sp = new_esp;
     (edi, sp) \<leftarrow> pop sp m;
     (esi, sp) \<leftarrow> pop sp m;
     (ebx, sp) \<leftarrow> pop sp m;
     (ebp, sp) \<leftarrow> pop sp m;
     (eip, sp) \<leftarrow> pop sp m;
     Some (old_esp, \<lparr>r_eax = new_esp, r_ebx = ebx, r_esi = esi, r_edi = edi, r_ebp = ebp, r_esp = sp,
                      r_eip = eip, if_flag = True\<rparr>, m) }"

section \<open>Tasks\<close>

definition scheduler_init :: "'a kernel_scheme \<Rightarrow> 'a kernel_scheme option" where
  "scheduler_init s = do {
     ts \<leftarrow> for_each (\<lambda>i ts. do {
             t \<leftarrow> arr_get ts i;
             arr_set ts i (t\<lparr>state := TASK_DEAD, stack := 0\<rparr>) }) [0..<MAX_TASKS] (tasks s);
     Some (s\<lparr>tasks := ts, sch := (sch s)\<lparr>task_count := 0, current_task := 0\<rparr>\<rparr>) }"

definition task_create :: "u32 \<Rightarrow> u8 \<Rightarrow> 'a kernel_scheme \<Rightarrow> 'a kernel_scheme option" where
  "task_create entry prio s = do {
     r \<leftarrow> for_until (\<lambda>i u. do {
            t \<leftarrow> arr_get (tasks s) i;
            Some (if state t = TASK_DEAD then Inl i else Inr u) }) [0..<MAX_TASKS] ();
     case r of Inr _ \<Rightarrow> Some s
     | Inl i \<Rightarrow> do {
         (stack_page, bm) \<leftarrow> pmm_alloc (pages s);
         let s = s\<lparr>pages := bm\<rparr>;
         if stack_page = 0 then Some s
         else do {
           let stack_top = stack_page + PAGE_SIZE;
           (sp, m) \<leftarrow> push entry (stack_top, stackmem s);
           (sp, m) \<leftarrow> push 0 (sp, m);
           (sp, m) \<leftarrow> push 0 (sp, m);
           (sp, m) \<leftarrow> push 0 (sp, m);
           (sp, m) \<leftarrow> push 0 (sp, m);
           t \<leftarrow> arr_get (tasks s) i;
           ts \<leftarrow> arr_set (tasks s) i (t\<lparr>esp := sp, stack := stack_page, state := TASK_READY,
                   priority := float_of_int (uint prio)\<rparr>);
           Some (s\<lparr>stackmem := m, tasks := ts, sch := (sch s)\<lparr>task_count := task_count (sch s) + 1\<rparr>\<rparr>) } } }"

section \<open>Scoring\<close>

definition score_input :: "task \<Rightarrow> flt list" where
  "score_input t =
     [ml_normalize (cpu_usage t) (flit 0) (flit 100),
      ml_normalize (mem_usage t) (flit 0) (flit 100),
      ml_normalize (wait_time t) (flit 0) (flit 10000),
      ml_normalize (priority t) (flit 0) (flit 10)]"

definition ml_score_tasks :: "'a kernel_scheme \<Rightarrow> 'a kernel_scheme option" where
  "ml_score_tasks s = do {
     ts \<leftarrow> for_each (\<lambda>i ts. do {
             t \<leftarrow> arr_get ts i;
             if state t = TASK_DEAD then Some ts
             else do { sc \<leftarrow> ml_infer (weights s) (score_input t); arr_set ts i (t\<lparr>ml_score := sc\<rparr>) } })
           [0..<MAX_TASKS] (tasks s);
     Some (s\<lparr>tasks := ts\<rparr>) }"

section \<open>The choice\<close>

text \<open>One more tick of waiting for a ready task that is not running.\<close>

definition age :: "task \<Rightarrow> task" where
  "age t = (let t = t\<lparr>wait_ticks := wait_ticks t + 1\<rparr>
            in t\<lparr>wait_time := store32 (float_of_int (uint (wait_ticks t)) * flit 10)\<rparr>)"

definition combined_score :: "flt \<Rightarrow> u8 \<Rightarrow> flt" where
  "combined_score score tier =
     (let prajna_boost = store32 (float_of_int (uint tier) * flit (3 / 10)) in store32 (score + prajna_boost))"

definition choose_step ::
    "nat \<Rightarrow> nat \<Rightarrow> 'a kernel_scheme \<times> nat \<times> flt \<Rightarrow> ('a kernel_scheme \<times> nat \<times> flt) option" where
  "choose_step prev i = (\<lambda>(s, best, best_score).
     if i = prev then Some (s, best, best_score)
     else do {
       t \<leftarrow> arr_get (tasks s) i;
       if state t \<noteq> TASK_READY then Some (s, best, best_score)
       else do {
         ts \<leftarrow> arr_set (tasks s) i (age t);
         let s = s\<lparr>tasks := ts\<rparr>;
         blocked \<leftarrow> (if prajna_fallback (sch s) = 0 then ai_is_blocked (of_nat i) s else Some 0);
         if blocked \<noteq> 0 then Some (s, best, best_score)
         else do {
           tier \<leftarrow> ai_get_priority (of_nat i) s;
           let combined = combined_score (ml_score (age t)) tier;
           Some (if best_score < combined then (s, i, combined) else (s, best, best_score)) } } })"

definition fallback_pick :: "nat \<Rightarrow> task list \<Rightarrow> nat option" where
  "fallback_pick prev ts = do {
     r \<leftarrow> for_until (\<lambda>i u.
            if i = prev then Some (Inr u)
            else do { t \<leftarrow> arr_get ts i; Some (if state t = TASK_READY then Inl i else Inr u) })
          [0..<MAX_TASKS] ();
     Some (case r of Inl i \<Rightarrow> i | Inr _ \<Rightarrow> MAX_TASKS) }"

definition scheduler_choose :: "nat \<Rightarrow> 'a kernel_scheme \<Rightarrow> 'a kernel_scheme option" where
  "scheduler_choose prev s = do {
     (s, best, _) \<leftarrow> for_each (choose_step prev) [0..<MAX_TASKS] (s, MAX_TASKS, flit (- 1));
     best \<leftarrow> (if best = MAX_TASKS then fallback_pick prev (tasks s) else Some best);
     if best = MAX_TASKS then Some s
     else Some (s\<lparr>sch := (sch s)\<lparr>switch_pending := 1, pending_target := of_nat best\<rparr>\<rparr>) }"

definition scheduler_tick :: "'a kernel_scheme \<Rightarrow> 'a kernel_scheme option" where
  "scheduler_tick s =
     (if task_count (sch s) = 0 then Some s
      else do {
        let prev = unat (current_task (sch s));
        s \<leftarrow> ai_kernel_tick s;
        s \<leftarrow> ml_score_tasks s;
        scheduler_choose prev s })"

section \<open>Switching\<close>

text \<open>\<open>scheduler_start\<close> leaves C: the result is the processor at the first instruction of task 0.\<close>

definition scheduler_start :: "cpu \<Rightarrow> 'a kernel_scheme \<Rightarrow> (cpu \<times> 'a kernel_scheme) option" where
  "scheduler_start c s = do {
     t \<leftarrow> arr_get (tasks s) 0;
     ts \<leftarrow> arr_set (tasks s) 0 (t\<lparr>state := TASK_RUNNING\<rparr>);
     let s = s\<lparr>tasks := ts, sch := (sch s)\<lparr>current_task := 0\<rparr>\<rparr>;
     let sp = esp t;
     (edi, sp) \<leftarrow> pop sp (stackmem s);
     (esi, sp) \<leftarrow> pop sp (stackmem s);
     (ebx, sp) \<leftarrow> pop sp (stackmem s);
     (ebp, sp) \<leftarrow> pop sp (stackmem s);
     (eip, sp) \<leftarrow> pop sp (stackmem s);
     Some (c\<lparr>r_ebx := ebx, r_esi := esi, r_edi := edi, r_ebp := ebp, r_esp := sp, r_eip := eip\<rparr>, s) }"

definition scheduler_prajna_offline :: "'a kernel_scheme \<Rightarrow> 'a kernel_scheme option" where
  "scheduler_prajna_offline s = ai_kernel_offline (s\<lparr>sch := (sch s)\<lparr>prajna_fallback := 1\<rparr>\<rparr>)"

text \<open>
  The processor argument is the state at the call of \<open>context_switch\<close>; the boolean says whether
  control has left for another task, which goes on at the \<open>r_eip\<close> of the new processor state.
\<close>

definition scheduler_do_pending_switch ::
    "cpu \<Rightarrow> 'a kernel_scheme \<Rightarrow> (bool \<times> cpu \<times> 'a kernel_scheme) option" where
  "scheduler_do_pending_switch c s =
     (if switch_pending (sch s) = 0 then Some (False, c, s)
      else do {
        let s = s\<lparr>sch := (sch s)\<lparr>switch_pending := 0\<rparr>\<rparr>;
        let prev = unat (current_task (sch s));
        let best = unat (pending_target (sch s));
        t \<leftarrow> arr_get (tasks s) prev;
        ts \<leftarrow> arr_set (tasks s) prev (t\<lparr>state := TASK_READY\<rparr>);
        t \<leftarrow> arr_get ts best;
        ts \<leftarrow> arr_set ts best (t\<lparr>state := TASK_RUNNING, wait_ticks := 0\<rparr>);
        let s = s\<lparr>sch := (sch s)\<lparr>current_task := pending_target (sch s)\<rparr>\<rparr>;
        b \<leftarrow> arr_get ts best;
        (old_esp, c, m) \<leftarrow> context_switch (esp b) c (stackmem s);
        p \<leftarrow> arr_get ts prev;
        ts \<leftarrow> arr_set ts prev (p\<lparr>esp := old_esp\<rparr>);
        Some (True, c, s\<lparr>tasks := ts, stackmem := m\<rparr>) })"

definition scheduler_get_current_task :: "'a kernel_scheme \<Rightarrow> u32" where
  "scheduler_get_current_task s = current_task (sch s)"

section \<open>Scoring never fails\<close>

lemma ml_dot_total: "n \<le> length a \<Longrightarrow> n \<le> length b \<Longrightarrow> \<exists>s. ml_dot a b n = Some s"
  unfolding ml_dot_def
  using for_each_upt_inv [where I = "\<lambda>_ _. True" and n = n and s = "flit 0" and
     f = "\<lambda>i s. do { x \<leftarrow> arr_get a i; y \<leftarrow> arr_get b i; Some (store32 (s + x * y)) }"] by simp

lemma dense_layer_total:
  assumes "length W = rows * cols" and "length x = cols" and "length bias = rows"
  shows "\<exists>y z. ml_multiply W x (replicate rows (flit 0)) rows cols = Some y \<and> ml_add_bias y bias rows = Some z \<and>
    length z = rows"
proof -
  have "\<exists>s. ml_dot (take cols (drop (r * cols) W)) x cols = Some s \<and> True" if "r < rows" for r
  proof -
    have "(r + 1) * cols \<le> rows * cols" using that by (intro mult_le_mono1) simp
    then show ?thesis using ml_dot_total [of cols] assms by simp
  qed
  with ml_multiply_inv [of rows cols W "replicate rows (flit 0)" x "\<lambda>_. True"] assms(1)
  obtain y where y: "ml_multiply W x (replicate rows (flit 0)) rows cols = Some y" "length y = rows" by auto
  then obtain z where "ml_add_bias y bias rows = Some z" "length z = length y"
    using ml_add_bias_inv [of rows y bias] assms(3) by auto
  with y show ?thesis by auto
qed

lemma relu_total: "length x = n \<Longrightarrow> \<exists>y. ml_relu x n = Some y \<and> length y = n"
  using ml_relu_inv [of n x] by auto

lemma ml_infer_total:
  assumes "net_ok w" and "length input = 4"
  shows "\<exists>v. ml_infer w input = Some v"
proof -
  note dims = L1_IN_def L1_OUT_def L2_IN_def L2_OUT_def L3_IN_def L3_OUT_def
  obtain y1 z1 where 1: "ml_multiply (weights_l1 w) input (replicate 8 (flit 0)) 8 4 = Some y1"
    "ml_add_bias y1 (bias_l1 w) 8 = Some z1" "length z1 = 8"
    using dense_layer_total [of "weights_l1 w" 8 4 input "bias_l1 w"] assms by (auto simp: net_ok_def)
  obtain r1 where r1: "ml_relu z1 8 = Some r1" "length r1 = 8" using relu_total [OF 1(3)] by auto
  have "length (head_text (r1 ! 0)) + 1 + 3 < 16" using length_head_text [of "r1 ! 0"] by simp
  with ml_float_to_str_run [of 3 "r1 ! 0" "replicate 16 0"]
  obtain b where b: "ml_float_to_str (r1 ! 0) (replicate 16 0) 3 = Some b" by fastforce
  obtain y2 z2 where 2: "ml_multiply (weights_l2 w) r1 (replicate 4 (flit 0)) 4 8 = Some y2"
    "ml_add_bias y2 (bias_l2 w) 4 = Some z2" "length z2 = 4"
    using dense_layer_total [of "weights_l2 w" 4 8 r1 "bias_l2 w"] assms r1 by (auto simp: net_ok_def)
  obtain r2 where r2: "ml_relu z2 4 = Some r2" "length r2 = 4" using relu_total [OF 2(3)] by auto
  obtain y3 z3 where 3: "ml_multiply (weights_l3 w) r2 (replicate 1 (flit 0)) 1 4 = Some y3"
    "ml_add_bias y3 (bias_l3 w) 1 = Some z3" "length z3 = 1"
    using dense_layer_total [of "weights_l3 w" 1 4 r2 "bias_l3 w"] assms r2 by (auto simp: net_ok_def)
  show ?thesis unfolding ml_infer_def dims using 1 2 3 r1 r2 b by (simp del: flit_small replicate_Suc replicate.simps)
qed

lemma ml_score_tasks_total:
  assumes "net_ok (weights s)" and "length (tasks s) = 8"
  shows "\<exists>ts. ml_score_tasks s = Some (s\<lparr>tasks := ts\<rparr>) \<and> length ts = 8 \<and>
    (\<forall>i<8. \<exists>sc. ts ! i = (tasks s ! i)\<lparr>ml_score := sc\<rparr> \<and>
       (state (tasks s ! i) \<noteq> TASK_DEAD \<longrightarrow> ml_infer (weights s) (score_input (tasks s ! i)) = Some sc))"
proof -
  define body where "body = (\<lambda>i (ts :: task list). do {
             t \<leftarrow> arr_get ts i;
             if state t = TASK_DEAD then Some ts
             else do { sc \<leftarrow> ml_infer (weights s) (score_input t); arr_set ts i (t\<lparr>ml_score := sc\<rparr>) } })"
  define P where "P = (\<lambda>i t. \<exists>sc. t = (tasks s ! i)\<lparr>ml_score := sc\<rparr> \<and>
       (state (tasks s ! i) \<noteq> TASK_DEAD \<longrightarrow> ml_infer (weights s) (score_input (tasks s ! i)) = Some sc))"
  have "\<exists>ts. for_each body [0..<8] (tasks s) = Some ts \<and>
     (length ts = 8 \<and> (\<forall>i<8. P i (ts ! i)) \<and> (\<forall>i. 8 \<le> i \<longrightarrow> ts ! i = tasks s ! i))"
  proof (rule for_each_upt_inv [where I = "\<lambda>k ts. length ts = 8 \<and> (\<forall>i<k. P i (ts ! i)) \<and> (\<forall>i. k \<le> i \<longrightarrow> ts ! i = tasks s ! i)"])
    show "length (tasks s) = 8 \<and> (\<forall>i<0. P i (tasks s ! i)) \<and> (\<forall>i. 0 \<le> i \<longrightarrow> tasks s ! i = tasks s ! i)"
      using assms(2) by simp
  next
    fix k and ts :: "task list"
    assume k: "k < 8" and ts: "length ts = 8 \<and> (\<forall>i<k. P i (ts ! i)) \<and> (\<forall>i. k \<le> i \<longrightarrow> ts ! i = tasks s ! i)"
    have tk: "ts ! k = tasks s ! k" using ts by simp
    obtain sc where sc: "ml_infer (weights s) (score_input (tasks s ! k)) = Some sc"
      using ml_infer_total [OF assms(1), of "score_input (tasks s ! k)"] by (auto simp: score_input_def)
    have dead: "P k (tasks s ! k)" if "state (tasks s ! k) = TASK_DEAD"
      unfolding P_def by (intro exI [of _ "ml_score (tasks s ! k)"]) (simp add: that)
    have live: "P k ((tasks s ! k)\<lparr>ml_score := sc\<rparr>)" unfolding P_def using sc by blast
    show "\<exists>t. body k ts = Some t \<and> length t = 8 \<and> (\<forall>i<Suc k. P i (t ! i)) \<and> (\<forall>i. Suc k \<le> i \<longrightarrow> t ! i = tasks s ! i)"
    proof (cases "state (tasks s ! k) = TASK_DEAD")
      case True
      then show ?thesis using ts k tk dead by (auto simp: body_def less_Suc_eq)
    next
      case False
      then show ?thesis using ts k tk live sc by (auto simp: body_def less_Suc_eq nth_list_update)
    qed
  qed
  then show ?thesis unfolding ml_score_tasks_def body_def P_def MAX_TASKS_def by auto
qed

section \<open>What the choice loop computes\<close>

lemma flt_less_trans: "x < y \<Longrightarrow> y < z \<Longrightarrow> (x :: flt) < z"
  by (cases x; cases y; cases z) (auto simp: less_flt_def)

lemma flt_less_irrefl: "\<not> (x :: flt) < x"
  by (cases x) (auto simp: less_flt_def)

lemma flt_less_not_NaN: "x < y \<Longrightarrow> (x :: flt) \<noteq> NaN \<and> y \<noteq> NaN"
  by (cases x; cases y) (auto simp: less_flt_def)

lemma flt_not_less_trans: "\<not> y < x \<Longrightarrow> y < z \<Longrightarrow> x \<noteq> NaN \<Longrightarrow> (x :: flt) < z"
  by (cases x; cases y; cases z) (auto simp: less_flt_def)

definition candidate :: "nat \<Rightarrow> 'a kernel_scheme \<Rightarrow> nat \<Rightarrow> bool" where
  "candidate prev s i \<longleftrightarrow> i < 8 \<and> i \<noteq> prev \<and> state (tasks s ! i) = TASK_READY"

definition permitted :: "'a kernel_scheme \<Rightarrow> nat \<Rightarrow> bool" where
  "permitted s i \<longleftrightarrow> prajna_fallback (sch s) \<noteq> 0 \<or> allowed (perm_table (ai s) ! i) \<noteq> 0"

definition offer :: "'a kernel_scheme \<Rightarrow> nat \<Rightarrow> flt" where
  "offer s i = combined_score (ml_score (tasks s ! i)) (perm_priority (perm_table (ai s) ! i))"

definition eligible :: "nat \<Rightarrow> 'a kernel_scheme \<Rightarrow> nat \<Rightarrow> bool" where
  "eligible prev s i \<longleftrightarrow> candidate prev s i \<and> permitted s i \<and> flit (- 1) < offer s i"

text \<open>The reference: the first of the best offers; failing any offer, the first candidate.\<close>

definition choice :: "nat \<Rightarrow> 'a kernel_scheme \<Rightarrow> nat option" where
  "choice prev s =
     (case find (\<lambda>i. eligible prev s i \<and> (\<forall>j<8. eligible prev s j \<longrightarrow> \<not> offer s i < offer s j)) [0..<8] of
        Some i \<Rightarrow> Some i
      | None \<Rightarrow> find (candidate prev s) [0..<8])"

definition aged :: "nat \<Rightarrow> 'a kernel_scheme \<Rightarrow> nat \<Rightarrow> task list" where
  "aged prev s k = map (\<lambda>i. if i < k \<and> candidate prev s i then age (tasks s ! i) else tasks s ! i) [0..<8]"

lemma aged_step:
  assumes "k < 8" and "length (tasks s) = 8"
  shows "length (aged prev s k) = 8" and "aged prev s k ! k = tasks s ! k"
    and "\<not> candidate prev s k \<Longrightarrow> aged prev s (Suc k) = aged prev s k"
    and "candidate prev s k \<Longrightarrow> aged prev s (Suc k) = (aged prev s k)[k := age (tasks s ! k)]"
proof -
  show "length (aged prev s k) = 8" "aged prev s k ! k = tasks s ! k" using assms by (simp_all add: aged_def)
  show "aged prev s (Suc k) = aged prev s k" if "\<not> candidate prev s k"
    using that by (auto simp: aged_def less_Suc_eq intro!: map_cong)
  show "aged prev s (Suc k) = (aged prev s k)[k := age (tasks s ! k)]" if "candidate prev s k"
  proof (rule nth_equalityI)
    fix i assume "i < length (aged prev s (Suc k))"
    then have "i < 8" by (simp add: aged_def)
    then show "aged prev s (Suc k) ! i = (aged prev s k)[k := age (tasks s ! k)] ! i"
      using that by (cases "i = k") (auto simp: aged_def less_Suc_eq)
  qed (simp add: aged_def)
qed

definition leads :: "nat \<Rightarrow> 'a kernel_scheme \<Rightarrow> nat \<Rightarrow> nat \<Rightarrow> flt \<Rightarrow> bool" where
  "leads prev s k best score \<longleftrightarrow>
     best = 8 \<and> score = flit (- 1) \<and> (\<forall>j<k. \<not> eligible prev s j) \<or>
     best < k \<and> eligible prev s best \<and> score = offer s best \<and>
       (\<forall>j<k. eligible prev s j \<longrightarrow> \<not> offer s best < offer s j \<and> (j < best \<longrightarrow> offer s j < offer s best))"

lemma leads_skip: "leads prev s k best score \<Longrightarrow> \<not> eligible prev s k \<Longrightarrow> leads prev s (Suc k) best score"
  by (auto simp: leads_def less_Suc_eq)

lemma leads_keep:
  assumes "leads prev s k best score" and "\<not> score < offer s k"
  shows "leads prev s (Suc k) best score"
  using assms by (auto simp: leads_def less_Suc_eq eligible_def)

lemma leads_take:
  assumes "leads prev s k best score" and "score < offer s k" and "candidate prev s k" and "permitted s k"
  shows "leads prev s (Suc k) k (offer s k)"
proof -
  from assms(1) consider "best = 8" "score = flit (- 1)" "\<forall>j<k. \<not> eligible prev s j"
    | "best < k" "eligible prev s best" "score = offer s best"
      "\<forall>j<k. eligible prev s j \<longrightarrow> \<not> offer s best < offer s j \<and> (j < best \<longrightarrow> offer s j < offer s best)"
    by (auto simp: leads_def)
  then show ?thesis
  proof cases
    case 1
    then show ?thesis using assms(2-4) by (auto simp: leads_def less_Suc_eq eligible_def flt_less_irrefl)
  next
    case 2
    have "flit (- 1) < offer s k" using 2(2,3) assms(2) flt_less_trans by (auto simp: eligible_def)
    moreover have lt: "offer s j < offer s k" if "j < k" "eligible prev s j" for j
    proof (rule flt_not_less_trans [of "offer s best"])
      show "\<not> offer s best < offer s j" using 2(4) that by blast
      show "offer s best < offer s k" using assms(2) 2(3) by simp
      show "offer s j \<noteq> NaN" using that(2) flt_less_not_NaN by (auto simp: eligible_def)
    qed
    moreover have "\<not> offer s k < offer s j" if "j < k" "eligible prev s j" for j
      using lt [OF that] flt_less_trans flt_less_irrefl by blast
    ultimately show ?thesis using assms(3,4) by (auto simp: leads_def less_Suc_eq eligible_def flt_less_irrefl)
  qed
qed

lemma choose_step_eq:
  assumes "length (tasks s) = 8" and "length (perm_table (ai s)) = 8" and "k < 8" and "leads prev s k best score"
  shows "\<exists>best' score'. choose_step prev k (s\<lparr>tasks := aged prev s k\<rparr>, best, score) =
      Some (s\<lparr>tasks := aged prev s (Suc k)\<rparr>, best', score') \<and> leads prev s (Suc k) best' score'"
proof -
  note ag = aged_step [OF assms(3,1), of prev]
  have un: "unat (of_nat k :: u32) = k" using assms(3) by (intro unat_of_nat_small) simp
  have lt: "\<not> (of_nat MAX_TASKS :: u32) \<le> of_nat k" using assms(3) un by (simp add: MAX_TASKS_def word_le_nat_alt)
  show ?thesis
  proof (cases "candidate prev s k")
    case False
    have "\<not> eligible prev s k" using False by (simp add: eligible_def)
    then have "leads prev s (Suc k) best score" using leads_skip assms(4) by blast
    moreover have "choose_step prev k (s\<lparr>tasks := aged prev s k\<rparr>, best, score) = Some (s\<lparr>tasks := aged prev s k\<rparr>, best, score)"
      using False assms ag(1,2) by (auto simp: choose_step_def candidate_def)
    ultimately show ?thesis using ag(3) [OF False] by auto
  next
    case True
    let ?s = "s\<lparr>tasks := aged prev s (Suc k)\<rparr>"
    have score: "ml_score (age (tasks s ! k)) = ml_score (tasks s ! k)" by (simp add: age_def Let_def)
    have "choose_step prev k (s\<lparr>tasks := aged prev s k\<rparr>, best, score) =
      (if \<not> permitted s k then Some (?s, best, score)
       else Some (if score < offer s k then (?s, k, offer s k) else (?s, best, score)))"
      using True assms ag(1,2,4) lt un
      by (auto simp: choose_step_def candidate_def permitted_def offer_def ai_is_blocked_def ai_get_priority_def Let_def score)
    moreover have "\<not> permitted s k \<Longrightarrow> leads prev s (Suc k) best score"
      using leads_skip [OF assms(4)] by (auto simp: eligible_def)
    moreover have "\<not> score < offer s k \<Longrightarrow> leads prev s (Suc k) best score" using leads_keep assms(4) by blast
    moreover have "score < offer s k \<Longrightarrow> permitted s k \<Longrightarrow> leads prev s (Suc k) k (offer s k)"
      using leads_take [OF assms(4)] True by blast
    ultimately show ?thesis by (auto split: if_splits)
  qed
qed

lemma choose_loop:
  assumes "length (tasks s) = 8" and "length (perm_table (ai s)) = 8"
  shows "\<exists>best score. for_each (choose_step prev) [0..<8] (s, 8, flit (- 1)) = Some (s\<lparr>tasks := aged prev s 8\<rparr>, best, score) \<and>
    leads prev s 8 best score"
proof -
  define I where "I = (\<lambda>k (s', best, score). s' = s\<lparr>tasks := aged prev s k\<rparr> \<and> leads prev s k best score)"
  have "aged prev s 0 = tasks s" using assms(1) by (intro nth_equalityI) (auto simp: aged_def)
  then have "I 0 (s, 8, flit (- 1))" by (simp add: I_def leads_def)
  then have "\<exists>r. for_each (choose_step prev) [0..<8] (s, 8, flit (- 1)) = Some r \<and> I 8 r"
  proof (rule for_each_upt_inv)
    fix k and r :: "'a kernel_scheme \<times> nat \<times> flt"
    assume k: "k < 8" and r: "I k r"
    obtain best score where rr: "r = (s\<lparr>tasks := aged prev s k\<rparr>, best, score)" "leads prev s k best score"
      using r by (cases r) (auto simp: I_def)
    from choose_step_eq [OF assms k rr(2)] obtain best' score' where
      "choose_step prev k r = Some (s\<lparr>tasks := aged prev s (Suc k)\<rparr>, best', score')" "leads prev s (Suc k) best' score'"
      unfolding rr(1) by blast
    then show "\<exists>t. choose_step prev k r = Some t \<and> I (Suc k) t" by (auto simp: I_def)
  qed
  then show ?thesis by (auto simp: I_def)
qed

lemma fallback_pick_eq:
  assumes "length ts = 8"
  shows "fallback_pick prev ts =
    Some (case find (\<lambda>i. i \<noteq> prev \<and> state (ts ! i) = TASK_READY) [0..<8] of Some i \<Rightarrow> i | None \<Rightarrow> 8)"
  unfolding fallback_pick_def MAX_TASKS_def
  by (subst for_until_find [where P = "\<lambda>i. i \<noteq> prev \<and> state (ts ! i) = TASK_READY" and g = "\<lambda>i. i"])
     (use assms in \<open>auto split: option.splits\<close>)

lemma leads_choice:
  assumes "leads prev s 8 best score"
  shows "best = 8 \<Longrightarrow> choice prev s = find (candidate prev s) [0..<8]" and "best \<noteq> 8 \<Longrightarrow> choice prev s = Some best"
proof -
  let ?Q = "\<lambda>i. eligible prev s i \<and> (\<forall>j<8. eligible prev s j \<longrightarrow> \<not> offer s i < offer s j)"
  show "choice prev s = find (candidate prev s) [0..<8]" if "best = 8"
  proof -
    have "find ?Q [0..<8] = None" using assms that by (subst find_upt_None) (auto simp: leads_def)
    then show ?thesis by (simp add: choice_def)
  qed
  show "choice prev s = Some best" if "best \<noteq> 8"
  proof -
    have b: "best < 8" "eligible prev s best"
      "\<forall>j<8. eligible prev s j \<longrightarrow> \<not> offer s best < offer s j \<and> (j < best \<longrightarrow> offer s j < offer s best)"
      using assms that by (auto simp: leads_def)
    have "\<not> ?Q j" if "j < best" for j using b that by (meson order.strict_trans)
    then have "find ?Q [0..<8] = Some best" using b by (subst find_upt_Some) blast
    then show ?thesis by (simp add: choice_def)
  qed
qed

lemma scheduler_choose_eq:
  assumes "length (tasks s) = 8" and "length (perm_table (ai s)) = 8"
  shows "scheduler_choose prev s = Some (let s1 = s\<lparr>tasks := aged prev s 8\<rparr> in
     case choice prev s of None \<Rightarrow> s1
     | Some b \<Rightarrow> s1\<lparr>sch := (sch s)\<lparr>switch_pending := 1, pending_target := of_nat b\<rparr>\<rparr>)"
proof -
  obtain best score where lp: "for_each (choose_step prev) [0..<8] (s, 8, flit (- 1)) = Some (s\<lparr>tasks := aged prev s 8\<rparr>, best, score)"
    and ld: "leads prev s 8 best score" using choose_loop [OF assms] by blast
  have len: "length (aged prev s 8) = 8" by (simp add: aged_def)
  have st: "state (aged prev s 8 ! i) = state (tasks s ! i)" if "i < 8" for i
    using that by (simp add: aged_def age_def Let_def)
  have find: "find (\<lambda>i. i \<noteq> prev \<and> state (aged prev s 8 ! i) = TASK_READY) [0..<8] = find (candidate prev s) [0..<8]"
    by (rule find_cong) (auto simp: st candidate_def)
  have bnd: "find (candidate prev s) [0..<8] = Some i \<Longrightarrow> i < 8" for i by (simp only: find_upt_Some)
  show ?thesis
  proof (cases "best = 8")
    case True
    let ?s = "s\<lparr>tasks := aged prev s 8\<rparr>"
    have c: "choice prev s = find (candidate prev s) [0..<8]" using leads_choice(1) [OF ld True] .
    show ?thesis
    proof (cases "find (candidate prev s) [0..<8]")
      case None
      then have "fallback_pick prev (tasks ?s) = Some 8" using fallback_pick_eq [OF len, of prev] find by simp
      then show ?thesis using None c lp True by (simp add: scheduler_choose_def MAX_TASKS_def Let_def)
    next
      case (Some i)
      then have "fallback_pick prev (tasks ?s) = Some i" using fallback_pick_eq [OF len, of prev] find by simp
      then show ?thesis using Some c lp True bnd [OF Some] by (simp add: scheduler_choose_def MAX_TASKS_def Let_def)
    qed
  next
    case False
    then show ?thesis using leads_choice(2) [OF ld] lp by (simp add: scheduler_choose_def MAX_TASKS_def Let_def)
  qed
qed

section \<open>The invariant of the task table\<close>

lemma task_state_distinct [simp]:
  "TASK_READY \<noteq> TASK_DEAD" "TASK_READY \<noteq> TASK_RUNNING" "TASK_RUNNING \<noteq> TASK_DEAD"
  "TASK_DEAD \<noteq> TASK_READY" "TASK_RUNNING \<noteq> TASK_READY" "TASK_DEAD \<noteq> TASK_RUNNING"
  by (simp_all add: TASK_DEAD_def TASK_READY_def TASK_RUNNING_def)

definition sched_ok :: "'a kernel_scheme \<Rightarrow> bool" where
  "sched_ok s \<longleftrightarrow> kernel_ok s \<and> net_ok (weights s) \<and>
     (\<forall>i<8. state (tasks s ! i) = TASK_RUNNING \<longleftrightarrow> i = unat (current_task (sch s))) \<and>
     (switch_pending (sch s) \<noteq> 0 \<longrightarrow>
        pending_target (sch s) < 8 \<and> state (tasks s ! unat (pending_target (sch s))) = TASK_READY)"

text \<open>What a tick leaves alone: memory, stacks, saved stack pointers, run states.\<close>

definition same_stacks :: "'a kernel_scheme \<Rightarrow> 'a kernel_scheme \<Rightarrow> bool" where
  "same_stacks s s' \<longleftrightarrow> stackmem s' = stackmem s \<and> pages s' = pages s \<and> current_task (sch s') = current_task (sch s) \<and>
     task_count (sch s') = task_count (sch s) \<and> length (tasks s') = length (tasks s) \<and>
     (\<forall>i<8. state (tasks s' ! i) = state (tasks s ! i) \<and> esp (tasks s' ! i) = esp (tasks s ! i) \<and>
        stack (tasks s' ! i) = stack (tasks s ! i))"

lemma same_stacks_refl [simp]: "same_stacks s s"
  by (simp add: same_stacks_def)

lemma same_stacks_trans: "same_stacks s t \<Longrightarrow> same_stacks t u \<Longrightarrow> same_stacks s u"
  by (simp add: same_stacks_def)

lemma ai_frame_same_stacks:
  assumes "ai_frame s s'" and "length (tasks s) = 8"
  shows "same_stacks s s'"
proof -
  have "stack (tasks s' ! i) = stack (tasks s ! i)" if "i < 8" for i
  proof -
    have "map task_core (tasks s') ! i = map task_core (tasks s) ! i" using assms by (simp add: ai_frame_def)
    then have "task_core (tasks s' ! i) = task_core (tasks s ! i)"
      using assms(2) ai_frame_fields(6) [OF assms(1)] that by simp
    from arg_cong [OF this, of stack] show ?thesis by (simp add: task_core_def)
  qed
  then show ?thesis using ai_frame_fields [OF assms(1)] ai_frame_task [OF assms(1)] assms(2)
    by (simp add: same_stacks_def)
qed

lemma ai_kernel_tick_total:
  assumes "kernel_ok s"
  shows "\<exists>s'. ai_kernel_tick s = Some s' \<and> kernel_ok s' \<and> ai_frame s s'"
proof (cases "ai_online (ai s) \<noteq> 0 \<and> AI_TICK_INTERVAL \<le> ticks s - last_ai_tick (ai s)")
  case True
  then show ?thesis using ai_kernel_tick_run [OF assms] by blast
next
  case False
  then have "ai_kernel_tick s = Some s"
    by (auto simp: ai_kernel_tick_def pit_get_ticks_def Let_def not_le)
  then show ?thesis using assms by simp
qed

lemma aged_fields:
  assumes "i < 8"
  shows "state (aged prev s k ! i) = state (tasks s ! i)" "esp (aged prev s k ! i) = esp (tasks s ! i)"
    "stack (aged prev s k ! i) = stack (tasks s ! i)"
  using assms by (simp_all add: aged_def age_def Let_def)

lemma choice_candidate: "choice prev s = Some b \<Longrightarrow> candidate prev s b"
  unfolding choice_def by (auto simp: find_upt_Some eligible_def split: option.splits)

lemma choice_None: "choice prev s = None \<longleftrightarrow> (\<forall>i<8. \<not> candidate prev s i)"
  unfolding choice_def
  by (auto simp: find_upt_None find_upt_Some eligible_def split: option.splits)

lemma scheduler_choose_ok:
  assumes "sched_ok s"
  shows "\<exists>s'. scheduler_choose (unat (current_task (sch s))) s = Some s' \<and> sched_ok s' \<and> same_stacks s s' \<and>
    (switch_pending (sch s') \<noteq> 0 \<longleftrightarrow> switch_pending (sch s) \<noteq> 0 \<or> (\<exists>i<8. candidate (unat (current_task (sch s))) s i))"
proof -
  let ?prev = "unat (current_task (sch s))"
  have len: "length (tasks s) = 8" "length (perm_table (ai s)) = 8"
    using assms by (auto simp: sched_ok_def kernel_ok_def ai_ok_def)
  let ?s1 = "s\<lparr>tasks := aged ?prev s 8\<rparr>"
  have la: "length (aged ?prev s 8) = 8" by (simp add: aged_def)
  have k1: "kernel_ok ?s1" using assms la by (simp add: sched_ok_def kernel_ok_def)
  have cur: "unat (current_task (sch s)) < 8" using assms by (auto simp: sched_ok_def kernel_ok_def word_less_nat_alt)
  show ?thesis
  proof (cases "choice ?prev s")
    case None
    have "sched_ok ?s1" using assms k1 by (auto simp: sched_ok_def aged_fields word_less_nat_alt)
    moreover have "same_stacks s ?s1" using len la by (simp add: same_stacks_def aged_fields)
    moreover have "\<not> (\<exists>i<8. candidate ?prev s i)" using None choice_None by blast
    ultimately show ?thesis using scheduler_choose_eq [OF len, of ?prev] None by (auto simp: Let_def)
  next
    case (Some b)
    let ?s2 = "?s1\<lparr>sch := (sch s)\<lparr>switch_pending := 1, pending_target := of_nat b\<rparr>\<rparr>"
    have b: "b < 8" "state (tasks s ! b) = TASK_READY" "candidate ?prev s b"
      using choice_candidate [OF Some] by (auto simp: candidate_def)
    have ub: "unat (of_nat b :: u32) = b" using b(1) by (intro unat_of_nat_small) simp
    have "sched_ok ?s2" using assms k1 b ub by (auto simp: sched_ok_def kernel_ok_def aged_fields word_less_nat_alt)
    moreover have "same_stacks s ?s2" using len la by (simp add: same_stacks_def aged_fields)
    ultimately show ?thesis using scheduler_choose_eq [OF len, of ?prev] Some b by (auto simp: Let_def)
  qed
qed

lemma score_ok:
  assumes "sched_ok s"
  shows "\<exists>s'. ml_score_tasks s = Some s' \<and> sched_ok s' \<and> same_stacks s s' \<and> sch s' = sch s"
proof -
  have pre: "net_ok (weights s)" "length (tasks s) = 8" using assms by (auto simp: sched_ok_def kernel_ok_def)
  from ml_score_tasks_total [OF this] obtain ts where ts: "ml_score_tasks s = Some (s\<lparr>tasks := ts\<rparr>)" "length ts = 8"
    "\<forall>i<8. \<exists>sc. ts ! i = (tasks s ! i)\<lparr>ml_score := sc\<rparr>" by blast
  have f: "state (ts ! i) = state (tasks s ! i)" "esp (ts ! i) = esp (tasks s ! i)" "stack (ts ! i) = stack (tasks s ! i)"
    if "i < 8" for i
  proof -
    obtain sc where "ts ! i = (tasks s ! i)\<lparr>ml_score := sc\<rparr>" using ts(3) \<open>i < 8\<close> by blast
    then show "state (ts ! i) = state (tasks s ! i)" "esp (ts ! i) = esp (tasks s ! i)" "stack (ts ! i) = stack (tasks s ! i)"
      by simp_all
  qed
  have "sched_ok (s\<lparr>tasks := ts\<rparr>)"
    using assms ts(2) f by (auto simp: sched_ok_def kernel_ok_def word_less_nat_alt)
  moreover have "same_stacks s (s\<lparr>tasks := ts\<rparr>)" using f ts(2) pre(2) by (simp add: same_stacks_def)
  ultimately show ?thesis using ts(1) by auto
qed

lemma sched_ok_ai_frame:
  assumes "sched_ok s" and "ai_frame s s'" and "kernel_ok s'"
  shows "sched_ok s'"
proof -
  have "length (tasks s) = 8" using assms(1) by (simp add: sched_ok_def kernel_ok_def)
  note f = ai_frame_fields [OF assms(2)] ai_frame_task(1) [OF assms(2), unfolded this]
  show ?thesis using assms(1,3) f by (auto simp: sched_ok_def word_less_nat_alt)
qed

lemma scheduler_tick_ok:
  assumes "sched_ok s"
  shows "\<exists>s'. scheduler_tick s = Some s' \<and> sched_ok s' \<and> same_stacks s s' \<and>
    (switch_pending (sch s') \<noteq> 0 \<longleftrightarrow> switch_pending (sch s) \<noteq> 0 \<or>
       task_count (sch s) \<noteq> 0 \<and> (\<exists>i<8. candidate (unat (current_task (sch s))) s i))"
proof (cases "task_count (sch s) = 0")
  case True
  then show ?thesis using assms by (simp add: scheduler_tick_def)
next
  case False
  have len: "length (tasks s) = 8" using assms by (simp add: sched_ok_def kernel_ok_def)
  obtain s1 where s1: "ai_kernel_tick s = Some s1" "kernel_ok s1" "ai_frame s s1"
    using ai_kernel_tick_total assms by (auto simp: sched_ok_def)
  have ok1: "sched_ok s1" using sched_ok_ai_frame assms s1 by blast
  have ss1: "same_stacks s s1" using ai_frame_same_stacks [OF s1(3) len] .
  have sch1: "sch s1 = sch s" using ai_frame_fields(3) [OF s1(3)] .
  obtain s2 where s2: "ml_score_tasks s1 = Some s2" "sched_ok s2" "same_stacks s1 s2" "sch s2 = sch s1"
    using score_ok [OF ok1] by blast
  obtain s3 where s3: "scheduler_choose (unat (current_task (sch s2))) s2 = Some s3" "sched_ok s3" "same_stacks s2 s3"
    "switch_pending (sch s3) \<noteq> 0 \<longleftrightarrow> switch_pending (sch s2) \<noteq> 0 \<or> (\<exists>i<8. candidate (unat (current_task (sch s2))) s2 i)"
    using scheduler_choose_ok [OF s2(2)] by blast
  have ss2: "same_stacks s s2" using same_stacks_trans ss1 s2(3) by blast
  have "candidate p s2 i \<longleftrightarrow> candidate p s i" for p i using ss2 by (auto simp: candidate_def same_stacks_def)
  moreover have "scheduler_tick s = Some s3" using False s1(1) s2(1,4) s3(1) sch1 by (simp add: scheduler_tick_def Let_def)
  moreover have "same_stacks s s3" using same_stacks_trans ss2 s3(3) by blast
  ultimately show ?thesis using s3(2,4) s2(4) sch1 False by auto
qed

section \<open>Properties\<close>

text \<open>
  C8: The choice loop of \<open>scheduler_tick\<close> computes its reference: among the ready tasks other
  than the current one that Prajna allows (or all of them once Prajna is offline) and whose combined
  score beats -1, the first with the best combined score; and when there is none, the first ready
  task, blocked or not.  Every ready waiting task ages by one tick, nothing else changes, and nothing
  is pending afterwards that was not before only when no other task is ready.
\<close>

theorem scheduler_picks_best:
  assumes "kernel_ok s"
  shows "scheduler_choose prev s = Some (let s1 = s\<lparr>tasks := aged prev s 8\<rparr> in
     case choice prev s of None \<Rightarrow> s1
     | Some b \<Rightarrow> s1\<lparr>sch := (sch s)\<lparr>switch_pending := 1, pending_target := of_nat b\<rparr>\<rparr>) \<and>
   (choice prev s = None \<longleftrightarrow> \<not> (\<exists>i<8. candidate prev s i)) \<and>
   ((\<forall>i<8. \<not> eligible prev s i) \<longrightarrow> choice prev s = find (candidate prev s) [0..<8])"
proof (intro conjI impI)
  have "length (tasks s) = 8" "length (perm_table (ai s)) = 8" using assms by (auto simp: kernel_ok_def ai_ok_def)
  then show "scheduler_choose prev s = Some (let s1 = s\<lparr>tasks := aged prev s 8\<rparr> in
     case choice prev s of None \<Rightarrow> s1
     | Some b \<Rightarrow> s1\<lparr>sch := (sch s)\<lparr>switch_pending := 1, pending_target := of_nat b\<rparr>\<rparr>)"
    by (rule scheduler_choose_eq)
  show "choice prev s = None \<longleftrightarrow> \<not> (\<exists>i<8. candidate prev s i)" using choice_None by blast
next
  assume "\<forall>i<8. \<not> eligible prev s i"
  then have "leads prev s 8 8 (flit (- 1))" by (simp add: leads_def)
  then show "choice prev s = find (candidate prev s) [0..<8]" using leads_choice(1) by blast
qed

definition two_tasks :: kernel where
  "two_tasks = bss_kernel\<lparr>tasks := [zero_task\<lparr>state := TASK_RUNNING\<rparr>, zero_task\<lparr>state := TASK_READY\<rparr>] @ replicate 6 zero_task\<rparr>"

lemma scheduler_picks_best_witness:
  "\<exists>s'. scheduler_choose 0 two_tasks = Some s' \<and> pending_target (sch s') = 1 \<and> allowed (perm_table (ai s') ! 1) = 0"
proof -
  have ok: "kernel_ok two_tasks" using kernel_ok_bss by (simp add: two_tasks_def kernel_ok_def)
  have st: "state (tasks two_tasks ! Suc i) = (if i = 0 then TASK_READY else TASK_DEAD)" if "i < 7" for i
    using that by (auto simp: two_tasks_def nth_Cons' zero_task_def TASK_DEAD_def)
  have "\<not> permitted two_tasks i" if "i < 8" for i
    using that by (simp add: permitted_def two_tasks_def bss_kernel_def ai_init_def MAX_TASKS_def)
  then have "\<forall>i<8. \<not> eligible 0 two_tasks i" by (auto simp: eligible_def candidate_def)
  moreover have "find (candidate 0 two_tasks) [0..<8] = Some 1"
    using st [of 0] by (subst find_upt_Some) (simp add: candidate_def)
  ultimately have "choice 0 two_tasks = Some 1"
    using scheduler_picks_best [OF ok, of 0, THEN conjunct2, THEN conjunct2] by simp
  moreover have "allowed (perm_table (ai two_tasks) ! 1) = 0"
    by (simp add: two_tasks_def bss_kernel_def ai_init_def MAX_TASKS_def)
  ultimately show ?thesis using scheduler_picks_best [OF ok, of 0] by (auto simp: Let_def)
qed

end
