(* ===== verification/Contexts.thy ===== *)
theory Contexts
  imports Scheduler
begin

text \<open>
  What \<open>context_switch\<close> is for: the frames on the task stacks hold the contexts of the suspended
  tasks.  The task table made at boot, and every sequence of running, ticking and switching,
  keep them apart and intact.
\<close>

section \<open>Saved contexts\<close>

lemma aligned_plus4: "(a + 4 :: u32) AND 3 = a AND 3"
proof -
  have m: "x AND 3 = x mod 4" for x :: u32
    using take_bit_eq_mask [of 2 x] by (simp add: take_bit_eq_mod mask_eq_exp_minus_1)
  have "(unat a + 4) mod 2 ^ 32 mod 4 = (unat a + 4) mod (4 :: nat)" by (rule mod_mod_cancel) simp
  then have "unat ((a + 4) mod 4) = unat (a mod 4)" by (simp add: unat_mod unat_word_ariths)
  then show ?thesis by (simp add: m word_unat_eq_iff)
qed

lemma aligned_minus4: "(a - 4 :: u32) AND 3 = a AND 3"
  using aligned_plus4 [of "a - 4"] by simp

text \<open>The frame at \<open>sp\<close> holds the registers of \<open>c\<close>, in the order \<open>context_switch\<close> pops them.\<close>

definition saved :: "mem \<Rightarrow> u32 \<Rightarrow> cpu \<Rightarrow> bool" where
  "saved m sp c \<longleftrightarrow> sp AND 3 = 0 \<and> m sp = r_edi c \<and> m (sp + 4) = r_esi c \<and> m (sp + 4 + 4) = r_ebx c \<and>
     m (sp + 4 + 4 + 4) = r_ebp c \<and> m (sp + 4 + 4 + 4 + 4) = r_eip c \<and> r_esp c = sp + 4 + 4 + 4 + 4 + 4"

definition pushed :: "cpu \<Rightarrow> mem \<Rightarrow> mem" where
  "pushed c m = (let e = r_esp c in m(e - 4 := r_ebp c, e - 4 - 4 := r_ebx c, e - 4 - 4 - 4 := r_esi c,
     e - 4 - 4 - 4 - 4 := r_edi c))"

text \<open>The context a call of \<open>context_switch\<close> suspends: it goes on at the return address on top of the stack.\<close>

definition return_context :: "cpu \<Rightarrow> mem \<Rightarrow> cpu" where
  "return_context c m = c\<lparr>r_eip := m (r_esp c), r_esp := r_esp c + 4\<rparr>"

definition resumed :: "u32 \<Rightarrow> cpu \<Rightarrow> cpu" where
  "resumed sp d = d\<lparr>r_eax := sp, if_flag := True\<rparr>"

lemma context_switch_eq:
  assumes "r_esp c AND 3 = 0" and "saved (pushed c m) new d"
  shows "context_switch new c m = Some (r_esp c - 16, resumed new d, pushed c m)"
proof -
  have "context_switch new c m = Some (r_esp c - 4 - 4 - 4 - 4, resumed new d, pushed c m)"
    using assms unfolding context_switch_def push_def pop_def load_word_def store_word_def saved_def resumed_def pushed_def Let_def
    by (simp only: prod.case aligned_plus4 aligned_minus4 if_True Option.bind.simps simp_thms) (cases d, simp)
  then show ?thesis by (simp add: diff_diff_eq)
qed

lemma saved_pushed:
  assumes "r_esp c AND 3 = 0"
  shows "saved (pushed c m) (r_esp c - 16) (return_context c m)"
proof -
  have "(r_esp c - 16) AND 3 = 0"
    using assms aligned_minus4 [of "r_esp c"] aligned_minus4 [of "r_esp c - 4"] aligned_minus4 [of "r_esp c - 8"]
      aligned_minus4 [of "r_esp c - 12"] by (simp add: diff_diff_eq)
  then show ?thesis by (simp add: saved_def pushed_def return_context_def Let_def diff_diff_eq add.assoc)
qed

text \<open>The 20 bytes of a frame, and regions of memory, on natural numbers (no region wraps).\<close>

definition region :: "nat \<Rightarrow> nat \<Rightarrow> u32 set" where
  "region lo hi = {a. lo \<le> unat a \<and> unat a < hi}"

lemma unat_plus_small: "unat (a :: u32) + k < 2 ^ 32 \<Longrightarrow> unat (a + of_nat k) = unat a + k"
  by (simp add: unat_word_ariths unat_of_nat)

lemma saved_frame:
  assumes "saved m sp c" and "unat sp + 20 \<le> hi" and "hi < 2 ^ 32" and "lo \<le> unat sp"
    and "\<And>a. a \<in> region lo hi \<Longrightarrow> m' a = m a"
  shows "saved m' sp c"
proof -
  have "unat (sp + of_nat k) = unat sp + k" if "k \<le> 20" for k
    using that assms(2,3) by (intro unat_plus_small) simp
  from this [of 4] this [of 8] this [of 12] this [of 16]
  have "sp \<in> region lo hi" "sp + 4 \<in> region lo hi" "sp + 8 \<in> region lo hi" "sp + 12 \<in> region lo hi" "sp + 16 \<in> region lo hi"
    using assms(2,4) by (simp_all add: region_def)
  then show ?thesis using assms(1,5) by (simp add: saved_def add.assoc)
qed

lemma pushed_outside:
  assumes "lo + 16 \<le> unat (r_esp c)" and "unat (r_esp c) \<le> hi" and "a \<notin> region lo hi"
  shows "pushed c m a = m a"
proof -
  have "r_esp c - of_nat k \<in> region lo hi" if "k \<le> 16" "0 < k" for k
  proof -
    have "unat (of_nat k :: u32) = k" using that by (intro unat_of_nat_small) simp
    moreover have "of_nat k \<le> r_esp c" using calculation that assms(1) by (simp add: word_le_nat_alt)
    ultimately have "unat (r_esp c - of_nat k) = unat (r_esp c) - k" by (simp add: unat_sub)
    then have "lo \<le> unat (r_esp c - of_nat k)" "unat (r_esp c - of_nat k) < hi" using assms(1,2) that by linarith+
    then show ?thesis by (simp add: region_def)
  qed
  from this [of 4] this [of 8] this [of 12] this [of 16] assms(3)
  have "a \<noteq> r_esp c - 4" "a \<noteq> r_esp c - 8" "a \<noteq> r_esp c - 12" "a \<noteq> r_esp c - 16" by auto
  then show ?thesis by (simp add: pushed_def Let_def diff_diff_eq)
qed

section \<open>Stacks\<close>

definition live :: "'a kernel_scheme \<Rightarrow> nat \<Rightarrow> bool" where
  "live s i \<longleftrightarrow> i < 8 \<and> state (tasks s ! i) \<noteq> TASK_DEAD"

text \<open>The stack page of a task, as addresses.\<close>

definition stack_area :: "'a kernel_scheme \<Rightarrow> nat \<Rightarrow> u32 set" where
  "stack_area s i = region (unat (stack (tasks s ! i))) (unat (stack (tasks s ! i)) + 4096)"

lemma same_stacks_live: "same_stacks s t \<Longrightarrow> live t i = live s i"
  by (auto simp: same_stacks_def live_def)

definition stacks_ok :: "'a kernel_scheme \<Rightarrow> bool" where
  "stacks_ok s \<longleftrightarrow>
     (\<forall>i. live s i \<longrightarrow> (\<exists>n<TOTAL_PAGES. n \<notin> free_set (pages s) \<and> stack (tasks s ! i) = of_nat n * PAGE_SIZE)) \<and>
     (\<forall>i j. live s i \<longrightarrow> live s j \<longrightarrow> i \<noteq> j \<longrightarrow> stack (tasks s ! i) \<noteq> stack (tasks s ! j))"

definition suspended :: "'a kernel_scheme \<Rightarrow> nat \<Rightarrow> cpu \<Rightarrow> bool" where
  "suspended s i d \<longleftrightarrow> saved (stackmem s) (esp (tasks s ! i)) d \<and>
     unat (stack (tasks s ! i)) \<le> unat (esp (tasks s ! i)) \<and>
     unat (esp (tasks s ! i)) + 20 \<le> unat (stack (tasks s ! i)) + 4096"

text \<open>At the call of \<open>context_switch\<close>: room for four pushes below, the return address above.\<close>

definition on_stack :: "'a kernel_scheme \<Rightarrow> cpu \<Rightarrow> nat \<Rightarrow> bool" where
  "on_stack s c i \<longleftrightarrow> r_esp c AND 3 = 0 \<and> unat (stack (tasks s ! i)) + 16 \<le> unat (r_esp c) \<and>
     unat (r_esp c) + 4 \<le> unat (stack (tasks s ! i)) + 4096"

definition contexts_ok :: "'a kernel_scheme \<Rightarrow> (nat \<Rightarrow> cpu) \<Rightarrow> bool" where
  "contexts_ok s g \<longleftrightarrow> sched_ok s \<and> stacks_ok s \<and> (\<forall>i<8. state (tasks s ! i) = TASK_READY \<longrightarrow> suspended s i (g i))"

lemma unat_page: "n < TOTAL_PAGES \<Longrightarrow> unat (of_nat n * PAGE_SIZE) = n * 4096"
proof -
  assume "n < TOTAL_PAGES"
  then have "unat (of_nat (n * 4096) :: u32) = n * 4096" by (intro unat_of_nat_small) (simp add: TOTAL_PAGES_eq)
  then show ?thesis by (simp add: PAGE_SIZE_def)
qed

lemma stack_page:
  "stacks_ok s \<Longrightarrow> live s i \<Longrightarrow> \<exists>n<TOTAL_PAGES. n \<notin> free_set (pages s) \<and> stack (tasks s ! i) = of_nat n * PAGE_SIZE"
  by (simp add: stacks_ok_def)

lemma stack_bound: "stacks_ok s \<Longrightarrow> live s i \<Longrightarrow> unat (stack (tasks s ! i)) + 4096 \<le> 2 ^ 29"
  by (auto simp: stacks_ok_def unat_page TOTAL_PAGES_eq)

lemma stacks_disjoint:
  assumes "stacks_ok s" and "live s i" and "live s j" and "i \<noteq> j"
  shows "stack_area s i \<inter> stack_area s j = {}"
proof -
  obtain n k where n: "n < TOTAL_PAGES" "stack (tasks s ! i) = of_nat n * PAGE_SIZE"
    and k: "k < TOTAL_PAGES" "stack (tasks s ! j) = of_nat k * PAGE_SIZE"
    using stack_page [OF assms(1,2)] stack_page [OF assms(1,3)] by blast
  have "n \<noteq> k" using assms n k unfolding stacks_ok_def by metis
  then have "n * 4096 + 4096 \<le> k * 4096 \<or> k * 4096 + 4096 \<le> n * (4096 :: nat)" by linarith
  then show ?thesis using unat_page [OF n(1)] unat_page [OF k(1)] n(2) k(2) by (auto simp: stack_area_def region_def)
qed

lemma suspended_frame:
  assumes "suspended s i d" and "stacks_ok s" and "live s i"
    and "\<And>a. a \<in> stack_area s i \<Longrightarrow> stackmem s' a = stackmem s a"
    and "esp (tasks s' ! i) = esp (tasks s ! i)" and "stack (tasks s' ! i) = stack (tasks s ! i)"
  shows "suspended s' i d"
proof -
  have "saved (stackmem s') (esp (tasks s ! i)) d"
    by (rule saved_frame [where m = "stackmem s" and lo = "unat (stack (tasks s ! i))" and hi = "unat (stack (tasks s ! i)) + 4096"])
       (use assms stack_bound [OF assms(2,3)] in \<open>auto simp: suspended_def stack_area_def\<close>)
  then show ?thesis using assms(1,5,6) by (simp add: suspended_def)
qed

section \<open>Boot: from an empty table to the first task\<close>

definition boot_ok :: "'a kernel_scheme \<Rightarrow> (nat \<Rightarrow> cpu) \<Rightarrow> bool" where
  "boot_ok s g \<longleftrightarrow> kernel_ok s \<and> net_ok (weights s) \<and> pmm_ok (pages s) \<and> stacks_ok s \<and> switch_pending (sch s) = 0 \<and>
     current_task (sch s) = 0 \<and>
     (\<forall>i<8. state (tasks s ! i) = TASK_DEAD \<or> state (tasks s ! i) = TASK_READY \<and> suspended s i (g i))"

definition entry_context :: "u32 \<Rightarrow> u32 \<Rightarrow> cpu" where
  "entry_context entry stack_page = \<lparr>r_eax = 0, r_ebx = 0, r_esi = 0, r_edi = 0, r_ebp = 0,
     r_esp = stack_page + 4096, r_eip = entry, if_flag = False\<rparr>"

lemma scheduler_init_ok:
  assumes "kernel_ok s" and "net_ok (weights s)" and "pmm_ok (pages s)" and "switch_pending (sch s) = 0"
  shows "\<exists>s'. scheduler_init s = Some s' \<and> boot_ok s' g \<and> (\<forall>i<8. state (tasks s' ! i) = TASK_DEAD)"
proof -
  have "\<exists>ts. for_each (\<lambda>i ts. do { t \<leftarrow> arr_get ts i; arr_set ts i (t\<lparr>state := TASK_DEAD, stack := 0\<rparr>) }) [0..<8] (tasks s) = Some ts \<and>
     (length ts = 8 \<and> (\<forall>i<8. state (ts ! i) = TASK_DEAD))"
    by (rule for_each_upt_inv [where I = "\<lambda>k ts. length ts = 8 \<and> (\<forall>i<k. state (ts ! i) = TASK_DEAD)"])
       (use assms(1) in \<open>auto simp: kernel_ok_def less_Suc_eq nth_list_update\<close>)
  then obtain ts where ts: "for_each (\<lambda>i ts. do { t \<leftarrow> arr_get ts i; arr_set ts i (t\<lparr>state := TASK_DEAD, stack := 0\<rparr>) }) [0..<8] (tasks s) = Some ts"
    "length ts = 8" "\<forall>i<8. state (ts ! i) = TASK_DEAD" by blast
  let ?s = "s\<lparr>tasks := ts, sch := (sch s)\<lparr>task_count := 0, current_task := 0\<rparr>\<rparr>"
  have "scheduler_init s = Some ?s" using ts(1) by (simp add: scheduler_init_def MAX_TASKS_def)
  moreover have "boot_ok ?s g" using assms ts by (auto simp: boot_ok_def kernel_ok_def stacks_ok_def live_def)
  ultimately show ?thesis using ts(3) by auto
qed

lemma push_eq: "sp AND 3 = 0 \<Longrightarrow> push v (sp, m) = Some (sp - 4, m(sp - 4 := v))"
  by (simp add: push_def store_word_def aligned_minus4)

lemma page_aligned: "(of_nat n * PAGE_SIZE) AND 3 = 0"
proof -
  have "(of_nat n * 4096 :: u32) = push_bit 12 (of_nat n)" by (simp add: push_bit_eq_mult)
  then have "(of_nat n * PAGE_SIZE) AND 3 = push_bit 12 (of_nat n) AND (3 :: u32)" by (simp add: PAGE_SIZE_def)
  also have "\<dots> = 0"
  proof (rule bit_word_eqI)
    fix k
    have "bit (3 :: u32) k \<Longrightarrow> k < 2" by (cases k) (auto simp: bit_simps numeral_eq_Suc split: nat.splits)
    then show "bit (push_bit 12 (of_nat n) AND (3 :: u32)) k = bit (0 :: u32) k"
      by (auto simp: bit_and_iff bit_push_bit_iff)
  qed
  finally show ?thesis .
qed

definition new_stack :: "u32 \<Rightarrow> u32 \<Rightarrow> mem \<Rightarrow> mem" where
  "new_stack tp entry m = m(tp - 4 := entry, tp - 4 - 4 := 0, tp - 4 - 4 - 4 := 0, tp - 4 - 4 - 4 - 4 := 0,
     tp - 4 - 4 - 4 - 4 - 4 := 0)"

lemma new_stack_saved:
  assumes "page AND 3 = 0"
  shows "saved (new_stack (page + 4096) entry m) (page + 4096 - 20) (entry_context entry page)"
proof -
  have "(page + 4096) AND 3 = 0"
  proof -
    have "(page + 4 * of_nat k) AND 3 = 0" for k
    proof (induction k)
      case (Suc k)
      then show ?case using aligned_plus4 [of "page + 4 * of_nat k"] by (simp add: algebra_simps)
    qed (use assms in simp)
    from this [of 1024] show ?thesis by simp
  qed
  then have "(page + 4096 - 4 - 4 - 4 - 4 - 4) AND 3 = 0" by (simp only: aligned_minus4)
  then have "(page + 4096 - 20) AND 3 = 0" by simp
  then show ?thesis by (simp add: saved_def new_stack_def entry_context_def)
qed

lemma task_create_run:
  assumes "length (tasks s) = 8" and "bitmap_ok (pages s)" and "i < 8" and "state (tasks s ! i) = TASK_DEAD"
    and "\<forall>j<i. state (tasks s ! j) \<noteq> TASK_DEAD" and "first_free (pages s) = Some n" and "0 < n"
  shows "task_create entry prio s = (let page = of_nat n * PAGE_SIZE in
    Some (s\<lparr>pages := mark_used (pages s) n, stackmem := new_stack (page + 4096) entry (stackmem s),
            tasks := (tasks s)[i := (tasks s ! i)\<lparr>esp := page + 4096 - 20, stack := page, state := TASK_READY,
                                       priority := float_of_int (uint prio)\<rparr>],
            sch := (sch s)\<lparr>task_count := task_count (sch s) + 1\<rparr>\<rparr>))"
proof -
  let ?page = "of_nat n * PAGE_SIZE :: u32"
  have n: "n < TOTAL_PAGES" using assms(6) by (auto simp: first_free_Some free_set_def page_free_def)
  then have nz: "?page \<noteq> 0" using unat_page [OF n] assms(7) by auto
  have "find (\<lambda>k. state (tasks s ! k) = TASK_DEAD) [0..<8] = Some i" using assms(3-5) by (simp only: find_upt_Some)
  then have slot: "for_until (\<lambda>i u. do { t \<leftarrow> arr_get (tasks s) i; Some (if state t = TASK_DEAD then Inl i else Inr u) }) [0..<MAX_TASKS] () = Some (Inl i)"
    by (subst for_until_find [where P = "\<lambda>k. state (tasks s ! k) = TASK_DEAD" and g = "\<lambda>k. k"])
       (use assms(1) in \<open>simp_all add: MAX_TASKS_def\<close>)
  have al: "(?page + PAGE_SIZE) AND 3 = 0"
    using page_aligned [of "n + 1"] by (simp add: algebra_simps)
  have al': "(?page + PAGE_SIZE - 4) AND 3 = 0" "(?page + PAGE_SIZE - 4 - 4) AND 3 = 0"
    "(?page + PAGE_SIZE - 4 - 4 - 4) AND 3 = 0" "(?page + PAGE_SIZE - 4 - 4 - 4 - 4) AND 3 = 0"
    using al by (simp_all only: aligned_minus4)
  show ?thesis
    unfolding task_create_def slot pmm_alloc_eq [OF assms(2)] assms(6)
    using nz assms(1,3) al al' by (simp add: push_eq Let_def new_stack_def PAGE_SIZE_def)
qed

lemma task_create_full:
  assumes "length (tasks s) = 8" and "bitmap_ok (pages s)"
    and "(\<forall>j<8. state (tasks s ! j) \<noteq> TASK_DEAD) \<or> first_free (pages s) = None"
  shows "task_create entry prio s = Some s"
proof (cases "find (\<lambda>k. state (tasks s ! k) = TASK_DEAD) [0..<8]")
  case None
  then show ?thesis unfolding task_create_def
    by (subst for_until_find [where P = "\<lambda>k. state (tasks s ! k) = TASK_DEAD" and g = "\<lambda>k. k"])
       (use assms(1) in \<open>simp_all add: MAX_TASKS_def\<close>)
next
  case (Some i)
  then have "first_free (pages s) = None" using assms(3) by (auto simp only: find_upt_Some)
  then show ?thesis using Some unfolding task_create_def pmm_alloc_eq [OF assms(2)]
    by (subst for_until_find [where P = "\<lambda>k. state (tasks s ! k) = TASK_DEAD" and g = "\<lambda>k. k"])
       (use assms(1) in \<open>simp_all add: MAX_TASKS_def\<close>)
qed

text \<open>A free page is no live task's stack, and the frame built in it touches nothing else.\<close>

lemma free_page_no_stack:
  assumes "stacks_ok s" and "live s j" and "n \<in> free_set (pages s)" and "n < TOTAL_PAGES"
  shows "stack (tasks s ! j) \<noteq> of_nat n * PAGE_SIZE"
proof
  assume e: "stack (tasks s ! j) = of_nat n * PAGE_SIZE"
  obtain k where k: "k < TOTAL_PAGES" "k \<notin> free_set (pages s)" "stack (tasks s ! j) = of_nat k * PAGE_SIZE"
    using stack_page [OF assms(1,2)] by blast
  have "unat (of_nat k * PAGE_SIZE) = unat (of_nat n * PAGE_SIZE)" using e k(3) by (simp only:)
  then have "k = n" using unat_page [OF assms(4)] unat_page [OF k(1)] by linarith
  then show False using k(2) assms(3) by blast
qed

lemma unat_in_page:
  assumes "n < TOTAL_PAGES" and "k < 4096"
  shows "unat (of_nat n * PAGE_SIZE + of_nat k) = n * 4096 + k"
  using unat_page [OF assms(1)] assms by (subst unat_plus_small) (simp_all add: TOTAL_PAGES_eq)

lemma new_stack_outside:
  assumes "n < TOTAL_PAGES" and "unat a < n * 4096 \<or> n * 4096 + 4096 \<le> unat a"
  shows "new_stack (of_nat n * PAGE_SIZE + 4096) entry m a = m a"
proof -
  have "a \<noteq> of_nat n * PAGE_SIZE + of_nat k" if "k < 4096" for k
    using unat_in_page [OF assms(1) that] assms(2) that by auto
  from this [of 4092] this [of 4088] this [of 4084] this [of 4080] this [of 4076]
  show ?thesis by (simp add: new_stack_def algebra_simps)
qed

lemma new_stack_keeps:
  assumes "stacks_ok s" and "live s j" and "n \<in> free_set (pages s)" and "n < TOTAL_PAGES" and "a \<in> stack_area s j"
  shows "new_stack (of_nat n * PAGE_SIZE + 4096) entry m a = m a"
proof (rule new_stack_outside [OF assms(4)])
  obtain k where k: "k < TOTAL_PAGES" "stack (tasks s ! j) = of_nat k * PAGE_SIZE"
    using stack_page [OF assms(1,2)] by blast
  have "k \<noteq> n" using free_page_no_stack [OF assms(1-4)] k(2) by blast
  moreover have "k * 4096 \<le> unat a" "unat a < k * 4096 + 4096"
    using assms(5) unat_page [OF k(1)] k(2) by (simp_all add: stack_area_def region_def)
  ultimately show "unat a < n * 4096 \<or> n * 4096 + 4096 \<le> unat a" by (cases "k < n") linarith+
qed

lemma task_create_ok:
  assumes "boot_ok s g" and "i < 8" and "state (tasks s ! i) = TASK_DEAD" and "\<forall>j<i. state (tasks s ! j) \<noteq> TASK_DEAD"
    and "free_set (pages s) \<noteq> {}"
  shows "\<exists>s' page. task_create entry prio s = Some s' \<and> boot_ok s' (g(i := entry_context entry page)) \<and>
    state (tasks s' ! i) = TASK_READY \<and> stack (tasks s' ! i) = page \<and> (\<forall>j<8. j \<noteq> i \<longrightarrow> tasks s' ! j = tasks s ! j) \<and>
    task_count (sch s') = task_count (sch s) + 1"
proof -
  have ok: "length (tasks s) = 8" "bitmap_ok (pages s)" "0 \<notin> free_set (pages s)" "stacks_ok s"
    using assms(1) by (auto simp: boot_ok_def kernel_ok_def pmm_ok_def)
  obtain n where n: "first_free (pages s) = Some n" using assms(5) by (cases "first_free (pages s)") (auto simp: first_free_None)
  then have nf: "n \<in> free_set (pages s)" "n < TOTAL_PAGES"
    by (auto simp: first_free_Some free_set_def page_free_def)
  then have n0: "0 < n" using ok(3) by (metis gr0I)
  let ?page = "of_nat n * PAGE_SIZE :: u32"
  let ?t = "(tasks s ! i)\<lparr>esp := ?page + 4096 - 20, stack := ?page, state := TASK_READY, priority := float_of_int (uint prio)\<rparr>"
  define s' where "s' = s\<lparr>pages := mark_used (pages s) n, stackmem := new_stack (?page + 4096) entry (stackmem s),
            tasks := (tasks s)[i := ?t], sch := (sch s)\<lparr>task_count := task_count (sch s) + 1\<rparr>\<rparr>"
  have run: "task_create entry prio s = Some s'"
    using task_create_run [OF ok(1,2) assms(2-4) n n0] by (simp add: s'_def Let_def)
  have fs: "free_set (pages s') = free_set (pages s) - {n}" using ok(2) nf(2) by (simp add: s'_def)
  have tj: "tasks s' ! j = (if j = i then ?t else tasks s ! j)" for j using ok(1) assms(2) by (simp add: s'_def nth_list_update)
  have lv: "live s' j \<longleftrightarrow> live s j \<or> j = i" for j using assms(2) by (auto simp: live_def tj TASK_READY_def TASK_DEAD_def)
  note other = free_page_no_stack [OF ok(4) _ nf]
  have nlive: "\<not> live s i" using assms(3) by (simp add: live_def)
  have st: "stacks_ok s'" unfolding stacks_ok_def
  proof (rule conjI; intro allI impI)
    fix j assume "live s' j"
    then show "\<exists>k<TOTAL_PAGES. k \<notin> free_set (pages s') \<and> stack (tasks s' ! j) = of_nat k * PAGE_SIZE"
      using ok(4) nf(2) fs lv nlive unfolding stacks_ok_def by (cases "j = i") (auto simp: tj)
  next
    fix j k assume "live s' j" "live s' k" "j \<noteq> k"
    then show "stack (tasks s' ! j) \<noteq> stack (tasks s' ! k)"
      using ok(4) other [of j] other [of k] lv unfolding stacks_ok_def
      by (cases "j = i"; cases "k = i") (auto simp: tj)
  qed
  have pal: "?page AND 3 = 0" by (rule page_aligned)
  have ue: "unat (?page + 4096 - 20) = n * 4096 + 4076" using unat_in_page [OF nf(2), of 4076] by (simp add: algebra_simps)
  have own: "suspended s' i (entry_context entry ?page)"
    using new_stack_saved [OF pal, of entry "stackmem s"] ue unat_page [OF nf(2)]
    by (simp add: suspended_def tj) (simp add: s'_def)
  have old: "suspended s' j d" if lj: "live s j" "suspended s j d" for j d
  proof (rule suspended_frame [OF lj(2) ok(4) lj(1)])
    fix a assume "a \<in> stack_area s j"
    then show "stackmem s' a = stackmem s a" using new_stack_keeps [OF ok(4) lj(1) nf] by (simp add: s'_def)
  qed (use lj(1) nlive in \<open>auto simp: tj\<close>)
  have "kernel_ok s'" using assms(1) ok(2) by (simp add: s'_def boot_ok_def kernel_ok_def)
  moreover have "pmm_ok (pages s')" using fs ok(2,3) by (simp add: pmm_ok_def) (simp add: s'_def)
  moreover have "state (tasks s' ! j) = TASK_DEAD \<or> state (tasks s' ! j) = TASK_READY \<and>
      suspended s' j ((g(i := entry_context entry ?page)) j)" if "j < 8" for j
  proof (cases "j = i")
    case True
    then show ?thesis using own by (simp add: tj)
  next
    case False
    then have "state (tasks s ! j) = TASK_DEAD \<or> state (tasks s ! j) = TASK_READY \<and> suspended s j (g j)"
      using assms(1) that by (simp add: boot_ok_def)
    then show ?thesis using old [of j "g j"] False that by (auto simp: tj live_def TASK_READY_def TASK_DEAD_def)
  qed
  moreover have "net_ok (weights s')" "switch_pending (sch s') = 0" "current_task (sch s') = 0"
    using assms(1) by (simp_all add: s'_def boot_ok_def)
  ultimately have "boot_ok s' (g(i := entry_context entry ?page))" using st by (simp add: boot_ok_def)
  then show ?thesis using run by (intro exI [of _ s'] exI [of _ ?page]) (simp add: tj, simp add: s'_def)
qed

lemma scheduler_start_ok:
  assumes "boot_ok s g" and "state (tasks s ! 0) = TASK_READY"
  shows "\<exists>s'. scheduler_start c s = Some ((g 0)\<lparr>r_eax := r_eax c, if_flag := if_flag c\<rparr>, s') \<and> contexts_ok s' g"
proof -
  have len: "length (tasks s) = 8" using assms(1) by (simp add: boot_ok_def kernel_ok_def)
  have sv: "saved (stackmem s) (esp (tasks s ! 0)) (g 0)"
    using assms by (auto simp: boot_ok_def suspended_def dest: spec [of _ 0])
  define s' where "s' = s\<lparr>tasks := (tasks s)[0 := (tasks s ! 0)\<lparr>state := TASK_RUNNING\<rparr>], sch := (sch s)\<lparr>current_task := 0\<rparr>\<rparr>"
  have "scheduler_start c s = Some ((g 0)\<lparr>r_eax := r_eax c, if_flag := if_flag c\<rparr>, s')"
    using sv len unfolding scheduler_start_def saved_def pop_def load_word_def Let_def s'_def
    by (simp add: aligned_plus4)
  moreover have "contexts_ok s' g"
  proof -
    have t: "tasks s' ! i = (if i = 0 then (tasks s ! 0)\<lparr>state := TASK_RUNNING\<rparr> else tasks s ! i)" for i
      using len by (simp add: s'_def nth_list_update)
    have lv: "live s' i \<longleftrightarrow> live s i" for i
      using assms(2) by (auto simp: live_def t)
    have stk: "stack (tasks s' ! i) = stack (tasks s ! i)" for i by (simp add: t)
    have pg: "pages s' = pages s" "stackmem s' = stackmem s" by (simp_all add: s'_def)
    have "stacks_ok s'" using assms(1) by (simp add: boot_ok_def stacks_ok_def lv stk pg)
    moreover have "suspended s' i (g i)" if "i < 8" "state (tasks s' ! i) = TASK_READY" for i
    proof -
      have "i \<noteq> 0" using that(2) by (auto simp: t split: if_splits)
      then show ?thesis using that assms(1) by (auto simp: boot_ok_def suspended_def t pg)
    qed
    moreover have "sched_ok s'"
    proof -
      have "state (tasks s ! i) \<noteq> TASK_RUNNING" if "i < 8" for i
        using assms(1) that by (auto simp: boot_ok_def)
      moreover have "kernel_ok s'" using assms(1) len by (simp add: boot_ok_def kernel_ok_def s'_def)
      moreover have "net_ok (weights s')" "switch_pending (sch s') = 0" "current_task (sch s') = 0"
        using assms(1) by (simp_all add: boot_ok_def s'_def)
      ultimately show ?thesis by (auto simp: sched_ok_def t)
    qed
    ultimately show ?thesis by (simp add: contexts_ok_def)
  qed
  ultimately show ?thesis by blast
qed

section \<open>Running, ticking and switching\<close>

text \<open>
  A machine state is the processor, the kernel state and, as a ghost, the context each task was
  last suspended with.  While a task runs it may do anything to the registers, and to the kernel
  state and memory except to the task table, the scheduler's variables and the stacks of the other
  tasks; it may allocate pages.  A switch happens at a call of \<open>context_switch\<close> on the task's own
  stack.
\<close>

type_synonym 'a machine = "cpu \<times> 'a kernel_scheme \<times> (nat \<Rightarrow> cpu)"

definition task_runs :: "'a kernel_scheme \<Rightarrow> 'a kernel_scheme \<Rightarrow> bool" where
  "task_runs s s' \<longleftrightarrow> kernel_ok s' \<and> tasks s' = tasks s \<and> sch s' = sch s \<and> weights s' = weights s \<and>
     free_set (pages s') \<subseteq> free_set (pages s) \<and>
     (\<forall>i a. live s i \<longrightarrow> i \<noteq> unat (current_task (sch s)) \<longrightarrow> a \<in> stack_area s i \<longrightarrow> stackmem s' a = stackmem s a)"

inductive exec :: "'a machine \<Rightarrow> 'a machine \<Rightarrow> bool" where
  run: "task_runs s s' \<Longrightarrow> exec (c, s, g) (c', s', g)"
| tick: "scheduler_tick s = Some s' \<Longrightarrow> exec (c, s, g) (c, s', g)"
| switch: "on_stack s c (unat (current_task (sch s))) \<Longrightarrow> scheduler_do_pending_switch c s = Some (True, c', s') \<Longrightarrow>
    exec (c, s, g) (c', s', g(unat (current_task (sch s)) := return_context c (stackmem s)))"

inductive_cases execE: "exec (c, s, g) (c', s', g')"

lemma contexts_ok_run:
  assumes "contexts_ok s g" and "task_runs s s'"
  shows "contexts_ok s' g"
proof -
  have ok: "sched_ok s" "stacks_ok s" using assms(1) by (simp_all add: contexts_ok_def)
  have t: "tasks s' = tasks s" "sch s' = sch s" "weights s' = weights s" "kernel_ok s'"
    using assms(2) by (simp_all add: task_runs_def)
  have lv: "live s' i \<longleftrightarrow> live s i" for i by (simp add: live_def t)
  have "sched_ok s'" using ok(1) t by (simp add: sched_ok_def)
  moreover have "stacks_ok s'" using ok(2) assms(2) unfolding stacks_ok_def lv t(1) by (fastforce simp: task_runs_def)
  moreover have "suspended s' i (g i)" if i: "i < 8" "state (tasks s' ! i) = TASK_READY" for i
  proof (rule suspended_frame [of s])
    show "live s i" using i by (simp add: live_def t)
    have "i \<noteq> unat (current_task (sch s))" using ok(1) i t(1) by (auto simp: sched_ok_def)
    then show "stackmem s' a = stackmem s a" if "a \<in> stack_area s i" for a
      using assms(2) \<open>live s i\<close> that unfolding task_runs_def by blast
    show "suspended s i (g i)" using assms(1) i t(1) by (simp add: contexts_ok_def)
  qed (use ok t in simp_all)
  ultimately show ?thesis by (simp add: contexts_ok_def)
qed

lemma contexts_ok_tick:
  assumes "contexts_ok s g"
  shows "\<exists>s'. scheduler_tick s = Some s' \<and> contexts_ok s' g \<and> same_stacks s s'"
proof -
  have ok: "sched_ok s" "stacks_ok s" using assms by (simp_all add: contexts_ok_def)
  obtain s' where s': "scheduler_tick s = Some s'" "sched_ok s'" "same_stacks s s'"
    using scheduler_tick_ok [OF ok(1)] by blast
  have lv: "live s' i \<longleftrightarrow> live s i" for i using s'(3) by (auto simp: live_def same_stacks_def)
  have stk: "i < 8 \<Longrightarrow> stack (tasks s' ! i) = stack (tasks s ! i)" for i using s'(3) by (simp add: same_stacks_def)
  have "stacks_ok s'" using ok(2) s'(3) unfolding stacks_ok_def lv
    by (simp add: same_stacks_def live_def)
  moreover have "suspended s' i (g i)" if i: "i < 8" "state (tasks s' ! i) = TASK_READY" for i
    using assms s'(3) i by (auto simp: contexts_ok_def suspended_def same_stacks_def)
  ultimately show ?thesis using s' by (auto simp: contexts_ok_def)
qed

text \<open>The task switched away from is suspended at the return address of the call.\<close>

lemma suspended_pushed:
  assumes "on_stack s c p" and "stackmem s' = pushed c (stackmem s)" and "stack (tasks s' ! p) = stack (tasks s ! p)"
    and "esp (tasks s' ! p) = r_esp c - 16"
  shows "suspended s' p (return_context c (stackmem s))"
proof -
  have al: "r_esp c AND 3 = 0" and rng: "unat (stack (tasks s ! p)) + 16 \<le> unat (r_esp c)"
    "unat (r_esp c) + 4 \<le> unat (stack (tasks s ! p)) + 4096"
    using assms(1) by (simp_all add: on_stack_def)
  have "(16 :: u32) \<le> r_esp c" using rng by (simp add: word_le_nat_alt)
  then have "unat (r_esp c - 16) = unat (r_esp c) - 16" by (simp add: unat_sub)
  then show ?thesis using saved_pushed [OF al, of "stackmem s"] rng assms(2-4) by (simp add: suspended_def)
qed

text \<open>What a switch does when the frame of its target is intact.\<close>

definition switched :: "cpu \<Rightarrow> 'a kernel_scheme \<Rightarrow> 'a kernel_scheme" where
  "switched c s = (let p = unat (current_task (sch s)); b = unat (pending_target (sch s)) in
     s\<lparr>sch := (sch s)\<lparr>switch_pending := 0, current_task := pending_target (sch s)\<rparr>,
       tasks := (tasks s)[p := (tasks s ! p)\<lparr>state := TASK_READY, esp := r_esp c - 16\<rparr>,
         b := (tasks s ! b)\<lparr>state := TASK_RUNNING, wait_ticks := 0\<rparr>],
       stackmem := pushed c (stackmem s)\<rparr>)"

lemma switch_run:
  assumes "switch_pending (sch s) \<noteq> 0" and "p = unat (current_task (sch s))" and "b = unat (pending_target (sch s))"
    and "p < length (tasks s)" and "b < length (tasks s)" and "p \<noteq> b" and "r_esp c AND 3 = 0"
    and "saved (pushed c (stackmem s)) (esp (tasks s ! b)) d"
  shows "scheduler_do_pending_switch c s = Some (True, resumed (esp (tasks s ! b)) d, switched c s)"
proof -
  have swap: "(tasks s)[p := x, b := y, p := z] = (tasks s)[p := z, b := y]" for x y z
    using assms(6) by (simp add: list_update_swap)
  show ?thesis using assms(1-6) context_switch_eq [OF assms(7,8)]
    by (simp add: scheduler_do_pending_switch_def Let_def switched_def nth_list_update swap [unfolded assms(2,3)])
qed

lemma contexts_ok_switched:
  assumes "contexts_ok s g" and "switch_pending (sch s) \<noteq> 0" and "on_stack s c (unat (current_task (sch s)))"
  shows "scheduler_do_pending_switch c s =
      Some (True, resumed (esp (tasks s ! unat (pending_target (sch s)))) (g (unat (pending_target (sch s)))), switched c s) \<and>
    contexts_ok (switched c s) (g(unat (current_task (sch s)) := return_context c (stackmem s))) \<and>
    (\<forall>i a. live s i \<longrightarrow> i \<noteq> unat (current_task (sch s)) \<longrightarrow> a \<in> stack_area s i \<longrightarrow> stackmem (switched c s) a = stackmem s a)"
proof -
  let ?p = "unat (current_task (sch s))" and ?b = "unat (pending_target (sch s))"
  have ok: "sched_ok s" "stacks_ok s" using assms(1) by (simp_all add: contexts_ok_def)
  have len: "length (tasks s) = 8" using ok by (simp add: sched_ok_def kernel_ok_def)
  have b: "?b < 8" "state (tasks s ! ?b) = TASK_READY" using ok assms(2) by (auto simp: sched_ok_def word_less_nat_alt)
  have p: "?p < 8" "state (tasks s ! ?p) = TASK_RUNNING" using ok by (auto simp: sched_ok_def kernel_ok_def word_less_nat_alt)
  have ne: "?p \<noteq> ?b" using b p by auto
  have lp: "live s ?p" and lb: "live s ?b" using p b by (simp_all add: live_def)
  let ?m = "pushed c (stackmem s)"
  have out: "?m a = stackmem s a" if "a \<notin> stack_area s ?p" for a
    by (rule pushed_outside) (use assms(3) that in \<open>auto simp: on_stack_def stack_area_def\<close>)
  have frame: "?m a = stackmem s a" if "live s i" "i \<noteq> ?p" "a \<in> stack_area s i" for i a
    using stacks_disjoint [OF ok(2) that(1) lp that(2)] that(3) out by blast
  have sb: "suspended s ?b (g ?b)" using assms(1) b by (simp add: contexts_ok_def)
  have "suspended (s\<lparr>stackmem := ?m\<rparr>) ?b (g ?b)"
    by (rule suspended_frame [OF sb ok(2) lb]) (use frame [OF lb] ne in auto)
  then have svb: "saved ?m (esp (tasks s ! ?b)) (g ?b)" by (simp add: suspended_def)
  define s' where "s' = switched c s"
  have al: "r_esp c AND 3 = 0" using assms(3) by (simp add: on_stack_def)
  have run: "scheduler_do_pending_switch c s = Some (True, resumed (esp (tasks s ! ?b)) (g ?b), s')"
    unfolding s'_def by (rule switch_run [OF assms(2) refl refl _ _ ne al svb]) (use len p b in simp_all)
  note s'_folded = s'_def and s'_def = s'_def [unfolded switched_def Let_def]
  have t: "tasks s' ! i = (if i = ?p then (tasks s ! ?p)\<lparr>state := TASK_READY, esp := r_esp c - 16\<rparr>
      else if i = ?b then (tasks s ! ?b)\<lparr>state := TASK_RUNNING, wait_ticks := 0\<rparr> else tasks s ! i)" for i
    using len p b ne by (simp add: s'_def nth_list_update)
  have stk: "stack (tasks s' ! i) = stack (tasks s ! i)" for i by (simp add: t)
  have lv: "live s' i \<longleftrightarrow> live s i" for i using p b by (auto simp: live_def t)
  have pg: "pages s' = pages s" "stackmem s' = ?m" "weights s' = weights s" by (simp_all add: s'_def)
  have st: "stacks_ok s'" using ok(2) by (simp add: stacks_ok_def lv stk pg)
  have so: "sched_ok s'"
  proof -
    have "kernel_ok s'" using ok(1) len b by (simp add: sched_ok_def kernel_ok_def s'_def word_less_nat_alt)
    moreover have "state (tasks s' ! i) = TASK_RUNNING \<longleftrightarrow> i = ?b" if "i < 8" for i
      using ok(1) that ne p b by (auto simp: t sched_ok_def)
    ultimately show ?thesis using ok(1) by (simp add: sched_ok_def) (simp add: s'_def)
  qed
  have sus: "suspended s' i ((g(?p := return_context c (stackmem s))) i)" if i: "i < 8" "state (tasks s' ! i) = TASK_READY" for i
  proof (cases "i = ?p")
    case True
    then show ?thesis using suspended_pushed [OF assms(3), of s'] by (simp add: t pg)
  next
    case False
    have ib: "i \<noteq> ?b" using i(2) False by (auto simp: t split: if_splits)
    then have r: "state (tasks s ! i) = TASK_READY" "live s i" using i False by (auto simp: t live_def)
    then have "suspended s i (g i)" using assms(1) i(1) by (simp add: contexts_ok_def)
    then have "suspended s' i (g i)"
      by (rule suspended_frame [OF _ ok(2) r(2)]) (use frame [OF r(2) False] False ib in \<open>simp_all add: t pg\<close>)
    then show ?thesis using False by simp
  qed
  have "contexts_ok s' (g(?p := return_context c (stackmem s)))" using so st sus by (simp add: contexts_ok_def)
  then show ?thesis using run frame pg(2) unfolding s'_folded by auto
qed

lemma switched_fields:
  "sch (switched c s) = (sch s)\<lparr>switch_pending := 0, current_task := pending_target (sch s)\<rparr>" "stackmem (switched c s) = pushed c (stackmem s)"
  "outs (switched c s) = outs s" "ticks (switched c s) = ticks s"
  by (simp_all add: switched_def Let_def)

lemma switched_tasks:
  "stack (tasks (switched c s) ! i) = stack (tasks s ! i)"
  "length (tasks (switched c s)) = length (tasks s)"
  by (cases "unat (pending_target (sch s)) < length (tasks s)"; cases "unat (current_task (sch s)) < length (tasks s)";
      simp add: switched_def Let_def nth_list_update list_update_beyond)+

lemma switched_live:
  assumes "contexts_ok s g" and "switch_pending (sch s) \<noteq> 0" and "live s p"
  shows "live (switched c s) p"
proof -
  have "length (tasks s) = 8" "unat (current_task (sch s)) < 8" "unat (pending_target (sch s)) < 8"
    using assms(1,2) by (auto simp: contexts_ok_def sched_ok_def kernel_ok_def word_less_nat_alt)
  then have "state (tasks (switched c s) ! p) \<in> {TASK_READY, TASK_RUNNING, state (tasks s ! p)}"
    using assms(3) by (auto simp: switched_def Let_def nth_list_update live_def)
  then show ?thesis using assms(3) by (auto simp: live_def TASK_READY_def TASK_RUNNING_def TASK_DEAD_def)
qed

lemma contexts_ok_switch:
  assumes "contexts_ok s g" and "switch_pending (sch s) \<noteq> 0" and "on_stack s c (unat (current_task (sch s)))"
  shows "\<exists>s'. scheduler_do_pending_switch c s =
      Some (True, resumed (esp (tasks s ! unat (pending_target (sch s)))) (g (unat (pending_target (sch s)))), s') \<and>
    contexts_ok s' (g(unat (current_task (sch s)) := return_context c (stackmem s))) \<and>
    current_task (sch s') = pending_target (sch s) \<and> switch_pending (sch s') = 0 \<and>
    (\<forall>i a. live s i \<longrightarrow> i \<noteq> unat (current_task (sch s)) \<longrightarrow> a \<in> stack_area s i \<longrightarrow> stackmem s' a = stackmem s a)"
  using contexts_ok_switched [OF assms] by (intro exI [of _ "switched c s"]) (simp add: switched_fields)

lemma do_pending_idle: "switch_pending (sch s) = 0 \<Longrightarrow> scheduler_do_pending_switch c s = Some (False, c, s)"
  by (simp add: scheduler_do_pending_switch_def)

lemma exec_contexts_ok:
  assumes "exec\<^sup>*\<^sup>* m m'" and "contexts_ok (fst (snd m)) (snd (snd m))"
  shows "contexts_ok (fst (snd m')) (snd (snd m'))"
  using assms
proof (induction rule: rtranclp_induct)
  case (step y z)
  from step.hyps(2) step.IH [OF step.prems] show ?case
  proof (cases rule: exec.cases)
    case (run s s' c g c')
    then show ?thesis using contexts_ok_run step by simp
  next
    case (tick s s' c g)
    then show ?thesis using contexts_ok_tick [of s g] step by auto
  next
    case (switch s c c' s' g)
    then have "switch_pending (sch s) \<noteq> 0" using do_pending_idle by force
    then obtain s2 where "scheduler_do_pending_switch c s =
      Some (True, resumed (esp (tasks s ! unat (pending_target (sch s)))) (g (unat (pending_target (sch s)))), s2)"
      "contexts_ok s2 (g(unat (current_task (sch s)) := return_context c (stackmem s)))"
      using contexts_ok_switch [of s g c] switch step by (auto simp del: fun_upd_apply)
    then show ?thesis using switch by (simp del: fun_upd_apply)
  qed
qed simp

section \<open>Creating the tasks of a boot\<close>

definition ready_prefix :: "nat \<Rightarrow> 'a kernel_scheme \<Rightarrow> bool" where
  "ready_prefix k s \<longleftrightarrow> (\<forall>i<8. state (tasks s ! i) = (if i < k then TASK_READY else TASK_DEAD))"

lemma task_create_next:
  assumes "boot_ok s g" and "ready_prefix k s" and "k < 8" and "free_set (pages s) \<noteq> {}"
  shows "\<exists>s' page. task_create entry prio s = Some s' \<and> boot_ok s' (g(k := entry_context entry page)) \<and>
    ready_prefix (Suc k) s' \<and> stack (tasks s' ! k) = page \<and> (\<forall>i<k. tasks s' ! i = tasks s ! i) \<and>
    task_count (sch s') = task_count (sch s) + 1 \<and> card (free_set (pages s)) \<le> Suc (card (free_set (pages s')))"
proof -
  have dead: "state (tasks s ! k) = TASK_DEAD" and before: "\<forall>j<k. state (tasks s ! j) \<noteq> TASK_DEAD"
    using assms(2,3) by (simp_all add: ready_prefix_def)
  have ok: "length (tasks s) = 8" "bitmap_ok (pages s)" "0 \<notin> free_set (pages s)"
    using assms(1) by (auto simp: boot_ok_def kernel_ok_def pmm_ok_def)
  obtain s' page where s': "task_create entry prio s = Some s'" "boot_ok s' (g(k := entry_context entry page))"
    "state (tasks s' ! k) = TASK_READY" "stack (tasks s' ! k) = page" "\<forall>j<8. j \<noteq> k \<longrightarrow> tasks s' ! j = tasks s ! j"
    "task_count (sch s') = task_count (sch s) + 1"
    using task_create_ok [OF assms(1,3) dead before assms(4)] by blast
  obtain n where n: "first_free (pages s) = Some n" using assms(4) by (cases "first_free (pages s)") (auto simp: first_free_None)
  then have nf: "n \<in> free_set (pages s)" "n < TOTAL_PAGES"
    by (auto simp: first_free_Some free_set_def page_free_def)
  then have n0: "0 < n" using ok(3) by (metis gr0I)
  have "pages s' = mark_used (pages s) n"
    using task_create_run [OF ok(1,2) assms(3) dead before n n0] s'(1) by (auto simp: Let_def)
  then have "free_set (pages s') = free_set (pages s) - {n}" using ok(2) nf(2) by simp
  then have "card (free_set (pages s)) \<le> Suc (card (free_set (pages s')))" using nf(1) by (simp add: card_Diff_singleton)
  moreover have "ready_prefix (Suc k) s'"
    using assms(2,3) s'(3,5) by (auto simp: ready_prefix_def less_Suc_eq)
  ultimately show ?thesis using s' assms(3) by (intro exI [of _ s'] exI [of _ page]) auto
qed

lemma create_tasks:
  assumes "boot_ok s g" and "ready_prefix k s" and "k + length es \<le> 8" and "length es \<le> card (free_set (pages s))"
  shows "\<exists>s' g'. for_each (\<lambda>(e, p). task_create e p) es s = Some s' \<and> boot_ok s' g' \<and> ready_prefix (k + length es) s' \<and>
    task_count (sch s') = task_count (sch s) + of_nat (length es) \<and>
    (\<forall>i<k. g' i = g i \<and> tasks s' ! i = tasks s ! i) \<and>
    (\<forall>i<length es. g' (k + i) = entry_context (fst (es ! i)) (stack (tasks s' ! (k + i))))"
  using assms
proof (induction es arbitrary: s g k)
  case Nil
  then show ?case by auto
next
  case (Cons x es)
  obtain e p where x: "x = (e, p)" by (cases x)
  have "free_set (pages s) \<noteq> {}" using Cons.prems(4) by auto
  from task_create_next [OF Cons.prems(1,2) _ this, of e p] Cons.prems(3) obtain s1 page where
    s1: "task_create e p s = Some s1" "boot_ok s1 (g(k := entry_context e page))" "ready_prefix (Suc k) s1"
    "stack (tasks s1 ! k) = page" "\<forall>i<k. tasks s1 ! i = tasks s ! i"
    "task_count (sch s1) = task_count (sch s) + 1" "card (free_set (pages s)) \<le> Suc (card (free_set (pages s1)))" by auto
  from Cons.IH [OF s1(2,3)] Cons.prems(3,4) s1(7) obtain s' g' where
    s': "for_each (\<lambda>(e, p). task_create e p) es s1 = Some s'" "boot_ok s' g'" "ready_prefix (Suc k + length es) s'"
    "task_count (sch s') = task_count (sch s1) + of_nat (length es)"
    "\<forall>i<Suc k. g' i = (g(k := entry_context e page)) i \<and> tasks s' ! i = tasks s1 ! i"
    "\<forall>i<length es. g' (Suc k + i) = entry_context (fst (es ! i)) (stack (tasks s' ! (Suc k + i)))" by auto
  have "g' (k + i) = entry_context (fst ((x # es) ! i)) (stack (tasks s' ! (k + i)))" if "i < length (x # es)" for i
  proof (cases i)
    case 0
    then show ?thesis using s'(5) s1(4) x by simp
  next
    case (Suc j)
    then show ?thesis using s'(6) that by simp
  qed
  then show ?case using s1 s' x by (intro exI [of _ s'] exI [of _ g']) auto
qed

section \<open>Properties\<close>

text \<open>
  Booting up to eight tasks on enough free memory: \<open>scheduler_init\<close> and the calls of
  \<open>task_create\<close> give every task a stack page of its own and a saved frame from which it will start
  at its entry point with an empty stack and zero registers, and \<open>scheduler_start\<close> leaves for the
  first task in exactly that state, with task 0 as the only running one.
\<close>

theorem boot_starts_first_task:
  assumes "kernel_ok s" and "net_ok (weights s)" and "pmm_ok (pages s)" and "switch_pending (sch s) = 0"
    and "0 < length es" and "length es \<le> 8" and "length es \<le> card (free_set (pages s))"
  shows "\<exists>s1 s2 s3 c' g. scheduler_init s = Some s1 \<and> for_each (\<lambda>(e, p). task_create e p) es s1 = Some s2 \<and>
    scheduler_start c s2 = Some (c', s3) \<and> contexts_ok s3 g \<and> task_count (sch s2) = of_nat (length es) \<and>
    (\<forall>i<length es. g i = entry_context (fst (es ! i)) (stack (tasks s2 ! i))) \<and>
    (\<forall>i<8. state (tasks s2 ! i) = (if i < length es then TASK_READY else TASK_DEAD)) \<and>
    c' = (g 0)\<lparr>r_eax := r_eax c, if_flag := if_flag c\<rparr>"
proof -
  obtain s1 where s1: "scheduler_init s = Some s1" "\<forall>g. boot_ok s1 g" "\<forall>i<8. state (tasks s1 ! i) = TASK_DEAD"
    using scheduler_init_ok [OF assms(1-4)] by (metis option.inject)
  have pg: "pages s1 = pages s" "task_count (sch s1) = 0"
    using s1(1) by (auto simp: scheduler_init_def split: Option.bind_splits)
  have "ready_prefix 0 s1" using s1(3) by (simp add: ready_prefix_def)
  from create_tasks [OF s1(2) [rule_format] this, of es "\<lambda>_. entry_context 0 0"] assms(6,7) pg obtain s2 g where
    s2: "for_each (\<lambda>(e, p). task_create e p) es s1 = Some s2" "boot_ok s2 g" "ready_prefix (length es) s2"
    "task_count (sch s2) = of_nat (length es)"
    "\<forall>i<length es. g i = entry_context (fst (es ! i)) (stack (tasks s2 ! i))" by auto
  have "state (tasks s2 ! 0) = TASK_READY" using s2(3) assms(5) by (simp add: ready_prefix_def)
  from scheduler_start_ok [OF s2(2) this, of c] obtain s3 where
    "scheduler_start c s2 = Some ((g 0)\<lparr>r_eax := r_eax c, if_flag := if_flag c\<rparr>, s3)" "contexts_ok s3 g" by blast
  then show ?thesis using s1(1) s2 by (intro exI [of _ s1] exI [of _ s2] exI [of _ s3] exI conjI) (auto simp: ready_prefix_def)
qed

text \<open>A booted kernel to start from: the zeroed state with the page bitmap initialised.\<close>

lemma boot_state:
  "\<exists>bm. kernel_ok (bss_kernel\<lparr>pages := bm\<rparr>) \<and> net_ok (weights bss_kernel) \<and> pmm_ok bm \<and>
     switch_pending (sch bss_kernel) = 0 \<and> 8 \<le> card (free_set bm)"
proof -
  obtain bm where bm: "pmm_ok bm" "free_set bm = {256 ..< TOTAL_PAGES}"
    using pmm_init_eq [of "replicate 16384 0" 0]
    by (auto simp: bitmap_ok_def TOTAL_PAGES_eq kernel_pages_eq pmm_ok_def)
  have "kernel_ok (bss_kernel\<lparr>pages := bm\<rparr>)" using kernel_ok_bss bm(1) by (simp add: kernel_ok_def pmm_ok_def)
  then show ?thesis using bm by (intro exI [of _ bm]) (simp add: net_ok_def bss_kernel_def TOTAL_PAGES_eq)
qed

lemma boot_starts_first_task_witness:
  "\<exists>bm s1 s2 s3 c'. scheduler_init (bss_kernel\<lparr>pages := bm\<rparr>) = Some s1 \<and>
     for_each (\<lambda>(e, p). task_create e p) [(0x100000, 5), (0x100400, 3)] s1 = Some s2 \<and>
     scheduler_start (entry_context 0 0) s2 = Some (c', s3) \<and> r_eip c' = 0x100000 \<and> task_count (sch s2) = 2"
proof -
  obtain bm where bm: "kernel_ok (bss_kernel\<lparr>pages := bm\<rparr>)" "net_ok (weights bss_kernel)" "pmm_ok bm"
     "switch_pending (sch bss_kernel) = 0" "8 \<le> card (free_set bm)" using boot_state by blast
  from boot_starts_first_task [OF bm(1), of "[(0x100000, 5), (0x100400, 3)]" "entry_context 0 0"] bm(2-5)
  obtain s1 s2 s3 c' g where r: "scheduler_init (bss_kernel\<lparr>pages := bm\<rparr>) = Some s1"
    "for_each (\<lambda>(e, p). task_create e p) [(0x100000, 5), (0x100400, 3)] s1 = Some s2"
    "scheduler_start (entry_context 0 0) s2 = Some (c', s3)" "task_count (sch s2) = 2"
    "g 0 = entry_context 0x100000 (stack (tasks s2 ! 0))" "c' = (g 0)\<lparr>r_eax := 0, if_flag := False\<rparr>"
    by (auto simp: entry_context_def)
  have "r_eip c' = 0x100000" using r(5,6) by (simp add: entry_context_def)
  then show ?thesis using r(1-4) by blast
qed

text \<open>
  C1: Context isolation.  However the running tasks compute, tick and switch - as long as each keeps
  off the other stacks and calls the switch on its own stack - the scheduler's invariant holds, the
  tick never fails and finds a target whenever another task is ready, a pending switch never fails,
  and it resumes its target with exactly the registers, stack pointer and return address the target
  was last suspended with, interrupts enabled; the target is then the only running task.
\<close>

theorem context_isolation:
  assumes "contexts_ok s0 g0" and "exec\<^sup>*\<^sup>* (c0, s0, g0) (c, s, g)"
  shows "contexts_ok s g \<and>
    (\<exists>s'. scheduler_tick s = Some s' \<and> (switch_pending (sch s') \<noteq> 0 \<longleftrightarrow> switch_pending (sch s) \<noteq> 0 \<or>
       task_count (sch s) \<noteq> 0 \<and> (\<exists>i<8. candidate (unat (current_task (sch s))) s i))) \<and>
    (switch_pending (sch s) \<noteq> 0 \<longrightarrow> on_stack s c (unat (current_task (sch s))) \<longrightarrow>
      (\<exists>s'. let b = unat (pending_target (sch s)) in
         scheduler_do_pending_switch c s = Some (True, (g b)\<lparr>r_eax := esp (tasks s ! b), if_flag := True\<rparr>, s') \<and>
         (\<forall>i<8. state (tasks s' ! i) = TASK_RUNNING \<longleftrightarrow> i = b)))"
proof (intro conjI impI)
  have ok: "contexts_ok s g" using exec_contexts_ok [OF assms(2)] assms(1) by simp
  then show "contexts_ok s g" .
  show "\<exists>s'. scheduler_tick s = Some s' \<and> (switch_pending (sch s') \<noteq> 0 \<longleftrightarrow> switch_pending (sch s) \<noteq> 0 \<or>
       task_count (sch s) \<noteq> 0 \<and> (\<exists>i<8. candidate (unat (current_task (sch s))) s i))"
    using scheduler_tick_ok [of s] ok by (auto simp: contexts_ok_def)
  assume "switch_pending (sch s) \<noteq> 0" "on_stack s c (unat (current_task (sch s)))"
  from contexts_ok_switch [OF ok this] obtain s' where
    s': "scheduler_do_pending_switch c s =
      Some (True, resumed (esp (tasks s ! unat (pending_target (sch s)))) (g (unat (pending_target (sch s)))), s')"
    "contexts_ok s' (g(unat (current_task (sch s)) := return_context c (stackmem s)))"
    "current_task (sch s') = pending_target (sch s)" by (auto simp del: fun_upd_apply)
  have "\<forall>i<8. state (tasks s' ! i) = TASK_RUNNING \<longleftrightarrow> i = unat (pending_target (sch s))"
    using s'(2,3) by (simp add: contexts_ok_def sched_ok_def del: fun_upd_apply)
  then show "\<exists>s'. let b = unat (pending_target (sch s)) in
         scheduler_do_pending_switch c s = Some (True, (g b)\<lparr>r_eax := esp (tasks s ! b), if_flag := True\<rparr>, s') \<and>
         (\<forall>i<8. state (tasks s' ! i) = TASK_RUNNING \<longleftrightarrow> i = b)"
    using s'(1) by (auto simp: Let_def resumed_def)
qed

text \<open>Two booted tasks, the first one running.\<close>

lemma two_booted:
  "\<exists>(s :: kernel) g p. contexts_ok s g \<and> task_count (sch s) = 2 \<and> current_task (sch s) = 0 \<and>
     state (tasks s ! 1) = TASK_READY \<and> g 1 = entry_context 0x100400 p"
proof -
  obtain bm where bm: "kernel_ok (bss_kernel\<lparr>pages := bm\<rparr>)" "net_ok (weights bss_kernel)" "pmm_ok bm"
     "switch_pending (sch bss_kernel) = 0" "8 \<le> card (free_set bm)" using boot_state by blast
  let ?g = "\<lambda>_. entry_context 0 0"
  obtain s1 where s1: "scheduler_init (bss_kernel\<lparr>pages := bm\<rparr>) = Some s1" "boot_ok s1 ?g"
    "\<forall>i<8. state (tasks s1 ! i) = TASK_DEAD"
    using scheduler_init_ok [OF bm(1), of ?g] bm by auto
  have pg: "pages s1 = bm" "task_count (sch s1) = 0"
    using s1(1) by (auto simp: scheduler_init_def split: Option.bind_splits)
  have "ready_prefix 0 s1" using s1(3) by (simp add: ready_prefix_def)
  define es where "es = [(0x100000 :: u32, 5 :: u8), (0x100400, 3)]"
  have es: "length es = 2" "fst (es ! 1) = 0x100400" by (simp_all add: es_def)
  from create_tasks [OF s1(2) \<open>ready_prefix 0 s1\<close>, of es] bm(5) pg es(1) numeral_2_eq_2 obtain s2 :: kernel and g where
    s2: "boot_ok s2 g" "ready_prefix (Suc (Suc 0)) s2" "task_count (sch s2) = 2"
    "\<forall>i<2. g i = entry_context (fst (es ! i)) (stack (tasks s2 ! i))" by auto
  have g1: "g 1 = entry_context 0x100400 (stack (tasks s2 ! 1))" using s2(4) es(2) by simp
  have st: "state (tasks s2 ! 0) = TASK_READY" "state (tasks s2 ! 1) = TASK_READY" using s2(2) by (simp_all add: ready_prefix_def)
  from scheduler_start_ok [OF s2(1) st(1), of "entry_context 0 0"] obtain c' s3 where
    s3: "scheduler_start (entry_context 0 0) s2 = Some (c', s3)" "contexts_ok s3 g" by blast
  have "length (tasks s2) = 8" using s2(1) by (simp add: boot_ok_def kernel_ok_def)
  then have "tasks s3 ! 1 = tasks s2 ! 1" "task_count (sch s3) = 2" "current_task (sch s3) = 0"
    using s3(1) s2(3) by (auto simp: scheduler_start_def Let_def split: Option.bind_splits)
  then show ?thesis using s3(2) g1 st(2) by metis
qed

text \<open>The running task has room on its stack for a call of \<open>context_switch\<close>.\<close>

lemma room_on_stack:
  assumes "contexts_ok s g"
  shows "\<exists>c. on_stack s c (unat (current_task (sch s)))"
proof -
  let ?p = "unat (current_task (sch s))"
  have "?p < 8" "state (tasks s ! ?p) = TASK_RUNNING"
    using assms by (auto simp: contexts_ok_def sched_ok_def kernel_ok_def word_less_nat_alt)
  then have lp: "live s ?p" by (simp add: live_def)
  define c where "c = (entry_context 0 0)\<lparr>r_esp := stack (tasks s ! ?p) + 16\<rparr>"
  obtain n where n: "n < TOTAL_PAGES" "stack (tasks s ! ?p) = of_nat n * PAGE_SIZE"
    using stack_page [OF _ lp] assms by (auto simp: contexts_ok_def)
  have "unat (stack (tasks s ! ?p)) + 16 < 2 ^ 32" using unat_page [OF n(1)] n by (simp add: TOTAL_PAGES_eq)
  then have u: "unat (r_esp c) = unat (stack (tasks s ! ?p)) + 16"
    using unat_plus_small [of "stack (tasks s ! ?p)" 16] by (simp add: c_def)
  have "(stack (tasks s ! ?p) + 4 + 4 + 4 + 4) AND 3 = 0" using page_aligned [of n] n(2) by (simp only: aligned_plus4)
  then have "r_esp c AND 3 = 0" by (simp add: c_def add.commute)
  with u show ?thesis by (intro exI [of _ c]) (simp add: on_stack_def)
qed

lemma context_isolation_witness:
  "\<exists>(s0 :: kernel) s g c c' s' p. exec\<^sup>*\<^sup>* (c, s0, g) (c, s, g) \<and>
     scheduler_do_pending_switch c s = Some (True, c', s') \<and>
     (\<exists>b. c' = (g b)\<lparr>r_eax := esp (tasks s ! b), if_flag := True\<rparr> \<and> state (tasks s' ! b) = TASK_RUNNING)"
proof -
  obtain s0 :: kernel and g p where s0: "contexts_ok s0 g" "task_count (sch s0) = 2" "current_task (sch s0) = 0"
     "state (tasks s0 ! 1) = TASK_READY" "g 1 = entry_context 0x100400 p" using two_booted by blast
  have cand: "candidate 0 s0 1" using s0(4) by (simp add: candidate_def)
  obtain s where s: "scheduler_tick s0 = Some s" "sched_ok s" "same_stacks s0 s" "switch_pending (sch s) \<noteq> 0"
    using scheduler_tick_ok [of s0] s0 cand by (auto simp: contexts_ok_def intro: exI [of _ 1])
  obtain c where c: "on_stack s0 c (unat (current_task (sch s0)))" using room_on_stack [OF s0(1)] by blast
  then have "on_stack s c (unat (current_task (sch s)))"
    using s(3) s0(3) by (simp add: on_stack_def same_stacks_def)
  moreover have ex: "exec\<^sup>*\<^sup>* (c, s0, g) (c, s, g)" using exec.tick [OF s(1), of c g] by blast
  ultimately obtain s' where "scheduler_do_pending_switch c s = Some (True, (g (unat (pending_target (sch s))))
      \<lparr>r_eax := esp (tasks s ! unat (pending_target (sch s))), if_flag := True\<rparr>, s')"
      "\<forall>i<8. state (tasks s' ! i) = TASK_RUNNING \<longleftrightarrow> i = unat (pending_target (sch s))"
    using context_isolation [OF s0(1) ex] s(4) by (auto simp: Let_def)
  moreover have "unat (pending_target (sch s)) < 8" using s(2,4) by (auto simp: sched_ok_def word_less_nat_alt)
  ultimately show ?thesis using ex by blast
qed

end
