(* ===== verification/Ata.thy ===== *)
theory Ata
  imports Prelude
begin

text \<open>
  The polled ATA driver (\<^verbatim>\<open>kernel/ata.c\<close>).  The drive behind the ports is not part of the
  repository: it is a parameter, the record of the four port instructions acting on a device state.
  All polling loops are bounded by the counters of the C code, so every operation returns.

  At the end of the theory stands the contract the file system relies on (a block device) and a
  textbook drive in PIO mode for which the driver provides it.
\<close>

section \<open>Ports and registers\<close>

record 'd ata_device =
  dev_inb :: "u16 \<Rightarrow> 'd \<Rightarrow> u8 \<times> 'd"
  dev_inw :: "u16 \<Rightarrow> 'd \<Rightarrow> u16 \<times> 'd"
  dev_outb :: "u16 \<Rightarrow> u8 \<Rightarrow> 'd \<Rightarrow> 'd"
  dev_outw :: "u16 \<Rightarrow> u16 \<Rightarrow> 'd \<Rightarrow> 'd"

definition ATA_DATA :: u16 where "ATA_DATA = 0x1F0"
definition ATA_SECTOR_COUNT :: u16 where "ATA_SECTOR_COUNT = 0x1F2"
definition ATA_LBA_LOW :: u16 where "ATA_LBA_LOW = 0x1F3"
definition ATA_LBA_MID :: u16 where "ATA_LBA_MID = 0x1F4"
definition ATA_LBA_HIGH :: u16 where "ATA_LBA_HIGH = 0x1F5"
definition ATA_DRIVE_HEAD :: u16 where "ATA_DRIVE_HEAD = 0x1F6"
definition ATA_STATUS :: u16 where "ATA_STATUS = 0x1F7"
definition ATA_COMMAND :: u16 where "ATA_COMMAND = 0x1F7"
definition ATA_ALT_STATUS :: u16 where "ATA_ALT_STATUS = 0x3F6"

definition ATA_SR_BSY :: u8 where "ATA_SR_BSY = 0x80"
definition ATA_SR_DRQ :: u8 where "ATA_SR_DRQ = 0x08"
definition ATA_SR_ERR :: u8 where "ATA_SR_ERR = 0x01"

definition ATA_CMD_READ :: u8 where "ATA_CMD_READ = 0x20"
definition ATA_CMD_WRITE :: u8 where "ATA_CMD_WRITE = 0x30"
definition ATA_CMD_IDENTIFY :: u8 where "ATA_CMD_IDENTIFY = 0xEC"

definition ATA_TIMEOUT :: nat where "ATA_TIMEOUT = 100000"

section \<open>Waiting\<close>

definition ata_delay :: "('d, 'x) ata_device_scheme \<Rightarrow> 'd \<Rightarrow> 'd" where
  "ata_delay D d =
     (let d = snd (dev_inb D ATA_ALT_STATUS d);
          d = snd (dev_inb D ATA_ALT_STATUS d);
          d = snd (dev_inb D ATA_ALT_STATUS d)
      in snd (dev_inb D ATA_ALT_STATUS d))"

text \<open>\<open>while (timeout-- && (inb(ATA_STATUS) & ATA_SR_BSY));\<close> with \<open>n\<close> rounds left\<close>

fun wait_not_busy :: "('d, 'x) ata_device_scheme \<Rightarrow> nat \<Rightarrow> 'd \<Rightarrow> 'd" where
  "wait_not_busy D 0 d = d"
| "wait_not_busy D (Suc n) d =
     (let (status, d) = dev_inb D ATA_STATUS d in
      if status AND ATA_SR_BSY \<noteq> 0 then wait_not_busy D n d else d)"

text \<open>The two loops of \<open>ata_poll\<close>: the first yields the last status read, the second the result.\<close>

fun poll_busy :: "('d, 'x) ata_device_scheme \<Rightarrow> nat \<Rightarrow> u8 \<Rightarrow> 'd \<Rightarrow> u8 \<times> 'd" where
  "poll_busy D 0 status d = (status, d)"
| "poll_busy D (Suc n) _ d =
     (let (status, d) = dev_inb D ATA_STATUS d in
      if status AND ATA_SR_BSY = 0 then (status, d) else poll_busy D n status d)"

fun poll_drq :: "('d, 'x) ata_device_scheme \<Rightarrow> nat \<Rightarrow> 'd \<Rightarrow> u8 \<times> 'd" where
  "poll_drq D 0 d = (1, d)"
| "poll_drq D (Suc n) d =
     (let (status, d) = dev_inb D ATA_STATUS d in
      if status AND ATA_SR_DRQ \<noteq> 0 then (0, d)
      else if status AND ATA_SR_ERR \<noteq> 0 then (1, d)
      else poll_drq D n d)"

definition ata_poll :: "('d, 'x) ata_device_scheme \<Rightarrow> 'd \<Rightarrow> u8 \<times> 'd" where
  "ata_poll D d =
     (let (status, d) = poll_busy D ATA_TIMEOUT 0 d in
      if status AND ATA_SR_ERR \<noteq> 0 then (1, d) else poll_drq D ATA_TIMEOUT d)"

section \<open>Identify and initialise\<close>

fun wait_drq_or_err :: "('d, 'x) ata_device_scheme \<Rightarrow> nat \<Rightarrow> 'd \<Rightarrow> 'd" where
  "wait_drq_or_err D 0 d = d"
| "wait_drq_or_err D (Suc n) d =
     (let (status, d) = dev_inb D ATA_STATUS d in
      if status AND (ATA_SR_DRQ OR ATA_SR_ERR) = 0 then wait_drq_or_err D n d else d)"

definition ata_identify :: "('d, 'x) ata_device_scheme \<Rightarrow> 'd \<Rightarrow> u8 \<times> 'd" where
  "ata_identify D d =
     (let d = dev_outb D ATA_DRIVE_HEAD 0xB0 d;
          d = dev_outb D ATA_SECTOR_COUNT 0 d;
          d = dev_outb D ATA_LBA_LOW 0 d;
          d = dev_outb D ATA_LBA_MID 0 d;
          d = dev_outb D ATA_LBA_HIGH 0 d;
          d = dev_outb D ATA_COMMAND ATA_CMD_IDENTIFY d;
          d = ata_delay D d;
          (status, d) = dev_inb D ATA_STATUS d in
      if status = 0 then (0, d)
      else
        let d = wait_not_busy D ATA_TIMEOUT d;
            (m, d) = dev_inb D ATA_LBA_MID d in
        if m \<noteq> 0 then (0, d)
        else let (h, d) = dev_inb D ATA_LBA_HIGH d in
          if h \<noteq> 0 then (0, d)
          else let d = wait_drq_or_err D ATA_TIMEOUT d;
                   d = fold (\<lambda>_ d. snd (dev_inw D ATA_DATA d)) [0..<256] d
               in (1, d))"

text \<open>\<open>cli\<close> and \<open>sti\<close> around it: the interrupt flag is off before and on after, whatever it was.\<close>

definition ata_init :: "('d, 'x) ata_device_scheme \<Rightarrow> bool \<times> 'd \<Rightarrow> u8 \<times> bool \<times> 'd" where
  "ata_init D = (\<lambda>(_, d). let (result, d) = ata_identify D d in (result, True, d))"

section \<open>Reading and writing a sector\<close>

definition select_lba :: "('d, 'x) ata_device_scheme \<Rightarrow> u32 \<Rightarrow> u8 \<Rightarrow> 'd \<Rightarrow> 'd" where
  "select_lba D lba cmd d =
     (let d = wait_not_busy D ATA_TIMEOUT d;
          d = dev_outb D ATA_DRIVE_HEAD (ucast (0xE0 OR (drop_bit 24 lba AND 0x0F))) d;
          d = ata_delay D d;
          d = wait_not_busy D ATA_TIMEOUT d;
          d = dev_outb D ATA_SECTOR_COUNT 1 d;
          d = dev_outb D ATA_LBA_LOW (ucast (lba AND 0xFF)) d;
          d = dev_outb D ATA_LBA_MID (ucast (drop_bit 8 lba AND 0xFF)) d;
          d = dev_outb D ATA_LBA_HIGH (ucast (drop_bit 16 lba AND 0xFF)) d
      in dev_outb D ATA_COMMAND cmd d)"

text \<open>The destination is an array with an offset, as its callers pass \<open>buf + n\<close>.\<close>

definition ata_read_sector ::
    "('d, 'x) ata_device_scheme \<Rightarrow> u32 \<Rightarrow> nat \<Rightarrow> u8 list \<Rightarrow> 'd \<Rightarrow> (u8 \<times> u8 list \<times> 'd) option" where
  "ata_read_sector D lba off buf d =
     (let d = select_lba D lba ATA_CMD_READ d;
          (err, d) = ata_poll D d in
      if err \<noteq> 0 then Some (1, buf, d)
      else do {
        (buf, d) \<leftarrow> for_each (\<lambda>i (buf, d). do {
            let (word, d) = dev_inw D ATA_DATA d;
            buf \<leftarrow> arr_set buf (off + i * 2) (ucast (word AND 0xFF));
            buf \<leftarrow> arr_set buf (off + (i * 2 + 1)) (ucast (drop_bit 8 word AND 0xFF));
            Some (buf, d) }) [0..<256] (buf, d);
        Some (0, buf, d) })"

definition ata_write_sector ::
    "('d, 'x) ata_device_scheme \<Rightarrow> u32 \<Rightarrow> u8 list \<Rightarrow> 'd \<Rightarrow> (u8 \<times> 'd) option" where
  "ata_write_sector D lba buf d =
     (let d = select_lba D lba ATA_CMD_WRITE d;
          (err, d) = ata_poll D d in
      if err \<noteq> 0 then Some (1, d)
      else do {
        d \<leftarrow> for_each (\<lambda>i d. do {
            lo \<leftarrow> arr_get buf (i * 2);
            hi \<leftarrow> arr_get buf (i * 2 + 1);
            Some (dev_outw D ATA_DATA (ucast lo OR push_bit 8 (ucast hi)) d) }) [0..<256] d;
        let d = dev_outb D ATA_COMMAND 0xE7 d;
        Some (0, wait_not_busy D ATA_TIMEOUT d) })"

section \<open>The contract: a block device\<close>

text \<open>
  What a file system wants of a drive in a good state: reads deliver the sector, writes replace
  it, nothing else changes.  Sectors are numbered with the 28 bits the driver transmits.
\<close>

locale block_device =
  fixes D :: "('d, 'x) ata_device_scheme"
    and sectors :: "'d \<Rightarrow> u32 \<Rightarrow> u8 list"
    and good :: "'d \<Rightarrow> bool"
  assumes sector_length: "good d \<Longrightarrow> length (sectors d lba) = 512"
    and read_law: "good d \<Longrightarrow> lba < 2 ^ 28 \<Longrightarrow> off + 512 \<le> length buf \<Longrightarrow>
      \<exists>d'. ata_read_sector D lba off buf d = Some (0, take off buf @ sectors d lba @ drop (off + 512) buf, d') \<and>
        good d' \<and> sectors d' = sectors d"
    and write_law: "good d \<Longrightarrow> lba < 2 ^ 28 \<Longrightarrow> length buf = 512 \<Longrightarrow>
      \<exists>d'. ata_write_sector D lba buf d = Some (0, d') \<and> good d' \<and> sectors d' = (sectors d)(lba := buf)"
begin

lemma read_back:
  assumes "good d" and "lba < 2 ^ 28" and "length data = 512" and "length buf = 512"
  shows "\<exists>d' d''. ata_write_sector D lba data d = Some (0, d') \<and>
    ata_read_sector D lba 0 buf d' = Some (0, data, d'') \<and> good d'' \<and> sectors d'' = (sectors d)(lba := data)"
  using write_law [OF assms(1-3)] read_law [of _ lba 0 buf] assms(2,4) by fastforce

lemma read_other:
  assumes "good d" and "lba < 2 ^ 28" and "lba' < 2 ^ 28" and "lba' \<noteq> lba" and "length data = 512" and "length buf = 512"
  shows "\<exists>d' d''. ata_write_sector D lba data d = Some (0, d') \<and>
    ata_read_sector D lba' 0 buf d' = Some (0, sectors d lba', d'')"
  using write_law [OF assms(1,2,5)] read_law [of _ lba' 0 buf] assms(3,4,6) by fastforce

end

section \<open>A drive in PIO mode\<close>

text \<open>
  The documented behaviour of a present, fault-free drive: registers hold what is written to them, a
  READ command makes the 256 words of the addressed sector available at the data port, a WRITE
  command collects 256 words and stores them, data is requested exactly while words are due, and
  the drive is never busy when the driver looks.
\<close>

record pio =
  p_head :: u8
  p_low :: u8
  p_mid :: u8
  p_high :: u8
  p_out :: "u16 list"
  p_in :: "u16 list option"
  p_sectors :: "u32 \<Rightarrow> u8 list"

definition pio_lba :: "pio \<Rightarrow> u32" where
  "pio_lba d = push_bit 24 (ucast (p_head d) AND 0x0F) OR push_bit 16 (ucast (p_high d)) OR
     push_bit 8 (ucast (p_mid d)) OR ucast (p_low d)"

fun words_of :: "u8 list \<Rightarrow> u16 list" where
  "words_of (a # b # bs) = (ucast a OR push_bit 8 (ucast b)) # words_of bs"
| "words_of _ = []"

fun bytes_of :: "u16 list \<Rightarrow> u8 list" where
  "bytes_of [] = []"
| "bytes_of (w # ws) = ucast (w AND 0xFF) # ucast (drop_bit 8 w AND 0xFF) # bytes_of ws"

definition pio_inb :: "u16 \<Rightarrow> pio \<Rightarrow> u8 \<times> pio" where
  "pio_inb port d =
     (if port = ATA_STATUS \<or> port = ATA_ALT_STATUS then (if p_out d \<noteq> [] \<or> p_in d \<noteq> None then 0x48 else 0x40, d)
      else if port = ATA_LBA_LOW then (p_low d, d)
      else if port = ATA_LBA_MID then (p_mid d, d)
      else if port = ATA_LBA_HIGH then (p_high d, d)
      else (0, d))"

definition pio_inw :: "u16 \<Rightarrow> pio \<Rightarrow> u16 \<times> pio" where
  "pio_inw port d = (case p_out d of [] \<Rightarrow> (0, d) | w # ws \<Rightarrow> (w, d\<lparr>p_out := ws\<rparr>))"

definition pio_outb :: "u16 \<Rightarrow> u8 \<Rightarrow> pio \<Rightarrow> pio" where
  "pio_outb port v d =
     (if port = ATA_DRIVE_HEAD then d\<lparr>p_head := v\<rparr>
      else if port = ATA_LBA_LOW then d\<lparr>p_low := v\<rparr>
      else if port = ATA_LBA_MID then d\<lparr>p_mid := v\<rparr>
      else if port = ATA_LBA_HIGH then d\<lparr>p_high := v\<rparr>
      else if port = ATA_COMMAND then
        (if v = ATA_CMD_READ then d\<lparr>p_out := words_of (p_sectors d (pio_lba d)), p_in := None\<rparr>
         else if v = ATA_CMD_WRITE then d\<lparr>p_out := [], p_in := Some []\<rparr>
         else if v = ATA_CMD_IDENTIFY then d\<lparr>p_out := replicate 256 0, p_in := None\<rparr>
         else d\<lparr>p_out := [], p_in := None\<rparr>)
      else d)"

definition pio_outw :: "u16 \<Rightarrow> u16 \<Rightarrow> pio \<Rightarrow> pio" where
  "pio_outw port w d =
     (case p_in d of None \<Rightarrow> d
      | Some ws \<Rightarrow>
          (if length ws < 255 then d\<lparr>p_in := Some (ws @ [w])\<rparr>
           else d\<lparr>p_in := None, p_sectors := (p_sectors d)(pio_lba d := bytes_of (ws @ [w]))\<rparr>))"

definition pio_drive :: "pio ata_device" where
  "pio_drive = \<lparr>dev_inb = pio_inb, dev_inw = pio_inw, dev_outb = pio_outb, dev_outw = pio_outw\<rparr>"

lemma pio_drive_simps [simp]:
  "dev_inb pio_drive = pio_inb" "dev_inw pio_drive = pio_inw" "dev_outb pio_drive = pio_outb" "dev_outw pio_drive = pio_outw"
  by (simp_all add: pio_drive_def)

lemmas ata_ports = ATA_DATA_def ATA_SECTOR_COUNT_def ATA_LBA_LOW_def ATA_LBA_MID_def ATA_LBA_HIGH_def
  ATA_DRIVE_HEAD_def ATA_STATUS_def ATA_COMMAND_def ATA_ALT_STATUS_def

lemma bit_byte_masks:
  "bit (255 :: int) n \<longleftrightarrow> n < 8" "bit (15 :: int) n \<longleftrightarrow> n < 4" "bit (224 :: int) n \<longleftrightarrow> 5 \<le> n \<and> n < 8"
  "bit (251658240 :: int) n \<longleftrightarrow> 24 \<le> n \<and> n < 28"
proof -
  have m: "(255 :: int) = mask 8" "(15 :: int) = mask 4" "(224 :: int) = push_bit 5 (mask 3)"
    "(251658240 :: int) = push_bit 24 (mask 4)"
    by (simp_all add: mask_eq_exp_minus_1 push_bit_eq_mult)
  show "bit (255 :: int) n \<longleftrightarrow> n < 8" "bit (15 :: int) n \<longleftrightarrow> n < 4" "bit (224 :: int) n \<longleftrightarrow> 5 \<le> n \<and> n < 8"
    "bit (251658240 :: int) n \<longleftrightarrow> 24 \<le> n \<and> n < 28"
    unfolding m by (auto simp: bit_mask_iff bit_push_bit_iff)
qed

lemma words_of_bytes: "bytes_of (words_of bs) = bs" if "even (length bs)"
  using that
proof (induction bs rule: words_of.induct)
  case (1 a b bs)
  have lo: "ucast ((ucast a OR push_bit 8 (ucast b) :: u16) AND 0xFF) = a"
    by (intro bit_word_eqI) (auto simp: bit_simps bit_byte_masks)
  have hi: "ucast (drop_bit 8 (ucast a OR push_bit 8 (ucast b) :: u16) AND 0xFF) = b"
    by (intro bit_word_eqI) (auto simp: bit_simps bit_byte_masks dest: bit_imp_le_length)
  from 1 lo hi show ?case by simp
qed auto

lemma length_words_of: "length (words_of bs) = length bs div 2"
  by (induction bs rule: words_of.induct) auto

lemma length_bytes_of [simp]: "length (bytes_of ws) = 2 * length ws"
  by (induction ws) auto

lemma words_of_nth:
  "2 * i + 1 < length bs \<Longrightarrow> words_of bs ! i = ucast (bs ! (2 * i)) OR push_bit 8 (ucast (bs ! (2 * i + 1)))"
proof (induction bs arbitrary: i rule: words_of.induct)
  case (1 a b bs)
  then show ?case by (cases i) auto
qed auto

lemma pio_wait [simp]: "wait_not_busy pio_drive n d = d"
  by (cases n) (auto simp: pio_inb_def ATA_STATUS_def ATA_SR_BSY_def)

lemma pio_delay [simp]: "ata_delay pio_drive d = d"
  by (simp add: ata_delay_def pio_inb_def ATA_ALT_STATUS_def)

lemma pio_poll:
  assumes "p_out d \<noteq> [] \<or> p_in d \<noteq> None"
  shows "ata_poll pio_drive d = (0, d)"
proof -
  obtain n where n: "ATA_TIMEOUT = Suc n" by (cases ATA_TIMEOUT) (simp_all add: ATA_TIMEOUT_def)
  show ?thesis using assms
    by (auto simp: ata_poll_def n pio_inb_def ATA_STATUS_def ATA_SR_BSY_def ATA_SR_DRQ_def ATA_SR_ERR_def)
qed

lemma pio_select:
  assumes "lba < 2 ^ 28"
  shows "\<exists>h l m g. select_lba pio_drive lba cmd d = pio_outb ATA_COMMAND cmd (d\<lparr>p_head := h, p_low := l, p_mid := m, p_high := g\<rparr>) \<and>
    pio_lba (d\<lparr>p_head := h, p_low := l, p_mid := m, p_high := g\<rparr>) = lba"
proof -
  let ?h = "ucast (0xE0 OR (drop_bit 24 lba AND 0x0F)) :: u8" and ?l = "ucast (lba AND 0xFF) :: u8"
  let ?m = "ucast (drop_bit 8 lba AND 0xFF) :: u8" and ?g = "ucast (drop_bit 16 lba AND 0xFF) :: u8"
  have hi: "\<not> bit lba k" if "28 \<le> k" for k
  proof -
    have "uint lba < 2 ^ 28" using assms by (simp add: word_less_def)
    then have "take_bit 28 (uint lba) = uint lba" by (simp add: take_bit_int_eq_self)
    then have "\<not> bit (uint lba) k" using that by (metis bit_take_bit_iff not_le)
    then show ?thesis using bit_imp_le_length [of lba k] by (auto simp: bit_uint_iff)
  qed
  have "pio_lba (d\<lparr>p_head := ?h, p_low := ?l, p_mid := ?m, p_high := ?g\<rparr>) = lba"
  proof (rule bit_word_eqI)
    fix k assume "k < LENGTH(32)"
    then show "bit (pio_lba (d\<lparr>p_head := ?h, p_low := ?l, p_mid := ?m, p_high := ?g\<rparr>)) k = bit lba k"
      using hi [of k]
      by (cases "k < 8"; cases "k < 16"; cases "k < 24"; cases "k < 28") (auto simp: pio_lba_def bit_simps bit_byte_masks)
  qed
  moreover have "select_lba pio_drive lba cmd d = pio_outb ATA_COMMAND cmd (d\<lparr>p_head := ?h, p_low := ?l, p_mid := ?m, p_high := ?g\<rparr>)"
    by (simp add: select_lba_def Let_def pio_outb_def ata_ports)
  ultimately show ?thesis by blast
qed


lemma read_loop:
  assumes "off + 512 \<le> length buf" and "length ws = 256" and "p_out d = ws"
  shows "for_each (\<lambda>i (buf, d). do {
            let (word, d) = dev_inw pio_drive ATA_DATA d;
            buf \<leftarrow> arr_set buf (off + i * 2) (ucast (word AND 0xFF));
            buf \<leftarrow> arr_set buf (off + (i * 2 + 1)) (ucast (drop_bit 8 word AND 0xFF));
            Some (buf, d) }) [0..<256] (buf, d) = Some (take off buf @ bytes_of ws @ drop (off + 512) buf, d\<lparr>p_out := []\<rparr>)"
proof -
  let ?g = "\<lambda>i. (take off buf @ bytes_of (take i ws) @ drop (off + 2 * i) buf, d\<lparr>p_out := drop i ws\<rparr>)"
  let ?f = "\<lambda>i (buf, d). do {
            let (word, d) = dev_inw pio_drive ATA_DATA d;
            buf \<leftarrow> arr_set buf (off + i * 2) (ucast (word AND 0xFF));
            buf \<leftarrow> arr_set buf (off + (i * 2 + 1)) (ucast (drop_bit 8 word AND 0xFF));
            Some (buf, d) }"
  have app: "bytes_of (xs @ [w]) = bytes_of xs @ [ucast (w AND 0xFF), ucast (drop_bit 8 w AND 0xFF)]" for xs w
    by (induction xs) auto
  have "for_each ?f [0..<256] (?g 0) = Some (?g 256)"
  proof (rule for_each_upt)
    fix i :: nat assume i: "i < 256"
    have dw: "drop i ws = ws ! i # drop (Suc i) ws" using i assms(2) by (simp add: Cons_nth_drop_Suc)
    have j: "off + 2 * i + 1 < length buf" using i assms(1) by simp
    then have db: "drop (off + 2 * i) buf = buf ! (off + 2 * i) # buf ! (off + 2 * i + 1) # drop (off + 2 * Suc i) buf"
      by (simp add: Cons_nth_drop_Suc)
    have tk: "take (Suc i) ws = take i ws @ [ws ! i]" using i assms(2) by (simp add: take_Suc_conv_app_nth)
    have ln: "length (take off buf) = off" "length (bytes_of (take i ws)) = 2 * i" using i assms by simp_all
    show "?f i (?g i) = Some (?g (Suc i))"
      using i j ln unfolding dw tk app
      by (simp add: pio_inw_def Let_def db list_update_append nth_append del: drop_drop)
  qed
  moreover have "?g 0 = (buf, d)" using assms(3) by simp
  moreover have "?g 256 = (take off buf @ bytes_of ws @ drop (off + 512) buf, d\<lparr>p_out := []\<rparr>)" using assms(2) by simp
  ultimately show ?thesis by simp
qed

lemma write_loop:
  assumes "length buf = 512" and "p_in d = Some []"
  shows "for_each (\<lambda>i d. do {
            lo \<leftarrow> arr_get buf (i * 2);
            hi \<leftarrow> arr_get buf (i * 2 + 1);
            Some (dev_outw pio_drive ATA_DATA (ucast lo OR push_bit 8 (ucast hi)) d) }) [0..<256] d =
    Some (d\<lparr>p_in := None, p_sectors := (p_sectors d)(pio_lba d := buf)\<rparr>)"
proof -
  define ws where "ws = words_of buf"
  have ws: "length ws = 256" using assms(1) by (simp add: ws_def length_words_of)
  have w: "ucast (buf ! (i * 2)) OR push_bit 8 (ucast (buf ! (i * 2 + 1))) = ws ! i" if "i < 256" for i
    using words_of_nth [of i buf] that assms(1) by (simp add: ws_def mult.commute)
  define g where "g = (\<lambda>i. if i < 256 then d\<lparr>p_in := Some (take i ws)\<rparr>
     else d\<lparr>p_in := None, p_sectors := (p_sectors d)(pio_lba d := buf)\<rparr>)"
  let ?f = "\<lambda>i d. do {
            lo \<leftarrow> arr_get buf (i * 2);
            hi \<leftarrow> arr_get buf (i * 2 + 1);
            Some (dev_outw pio_drive ATA_DATA (ucast lo OR push_bit 8 (ucast hi)) d) }"
  have "for_each ?f [0..<256] (g 0) = Some (g 256)"
  proof (rule for_each_upt)
    fix i :: nat assume i: "i < 256"
    have body: "?f i (g i) = Some (pio_outw ATA_DATA (ws ! i) (g i))" using i assms(1) w [OF i] by simp
    have tk: "take (Suc i) ws = take i ws @ [ws ! i]" using i ws by (simp add: take_Suc_conv_app_nth)
    show "?f i (g i) = Some (g (Suc i))"
    proof (cases "i < 255")
      case True
      then show ?thesis unfolding body using ws tk by (simp add: g_def pio_outw_def)
    next
      case False
      then have i255: "i = 255" using i by simp
      have "take i ws @ [ws ! i] = ws" using tk ws i255 by simp
      then have "bytes_of (take i ws @ [ws ! i]) = buf" using words_of_bytes [of buf] assms(1) by (simp add: ws_def)
      then show ?thesis unfolding body using ws i255 by (simp add: g_def pio_outw_def pio_lba_def)
    qed
  qed
  moreover have "g 0 = d" using assms(2) by (simp add: g_def)
  ultimately show ?thesis by (simp add: g_def)
qed

definition pio_good :: "pio \<Rightarrow> bool" where
  "pio_good d \<longleftrightarrow> (\<forall>lba. length (p_sectors d lba) = 512)"

lemma pio_read:
  assumes "pio_good d" and "lba < 2 ^ 28" and "off + 512 \<le> length buf"
  shows "\<exists>d'. ata_read_sector pio_drive lba off buf d =
      Some (0, take off buf @ p_sectors d lba @ drop (off + 512) buf, d') \<and> pio_good d' \<and> p_sectors d' = p_sectors d"
proof -
  obtain h l m g where sel: "select_lba pio_drive lba ATA_CMD_READ d =
      pio_outb ATA_COMMAND ATA_CMD_READ (d\<lparr>p_head := h, p_low := l, p_mid := m, p_high := g\<rparr>)"
    "pio_lba (d\<lparr>p_head := h, p_low := l, p_mid := m, p_high := g\<rparr>) = lba"
    using pio_select [OF assms(2)] by blast
  define d1 where "d1 = d\<lparr>p_head := h, p_low := l, p_mid := m, p_high := g, p_out := words_of (p_sectors d lba), p_in := None\<rparr>"
  have len: "length (p_sectors d lba) = 512" using assms(1) by (simp add: pio_good_def)
  have s1: "select_lba pio_drive lba ATA_CMD_READ d = d1"
    using sel by (simp add: pio_outb_def d1_def ata_ports)
  have wl: "length (words_of (p_sectors d lba)) = 256" using len by (simp add: length_words_of)
  then have "p_out d1 \<noteq> []" by (auto simp: d1_def)
  then have "ata_poll pio_drive d1 = (0, d1)" by (intro pio_poll) simp
  moreover have "bytes_of (words_of (p_sectors d lba)) = p_sectors d lba" using words_of_bytes len by simp
  moreover have "p_out d1 = words_of (p_sectors d lba)" by (simp add: d1_def)
  note read_loop [OF assms(3) wl this]
  ultimately have "ata_read_sector pio_drive lba off buf d =
      Some (0, take off buf @ p_sectors d lba @ drop (off + 512) buf, d1\<lparr>p_out := []\<rparr>)"
    unfolding ata_read_sector_def s1 by simp
  moreover have "pio_good (d1\<lparr>p_out := []\<rparr>)" "p_sectors (d1\<lparr>p_out := []\<rparr>) = p_sectors d"
    using assms(1) by (simp_all add: d1_def pio_good_def)
  ultimately show ?thesis by blast
qed

lemma pio_write:
  assumes "pio_good d" and "lba < 2 ^ 28" and "length buf = 512"
  shows "\<exists>d'. ata_write_sector pio_drive lba buf d = Some (0, d') \<and> pio_good d' \<and>
    p_sectors d' = (p_sectors d)(lba := buf)"
proof -
  obtain h l m g where sel: "select_lba pio_drive lba ATA_CMD_WRITE d =
      pio_outb ATA_COMMAND ATA_CMD_WRITE (d\<lparr>p_head := h, p_low := l, p_mid := m, p_high := g\<rparr>)"
    "pio_lba (d\<lparr>p_head := h, p_low := l, p_mid := m, p_high := g\<rparr>) = lba"
    using pio_select [OF assms(2)] by blast
  define d1 where "d1 = d\<lparr>p_head := h, p_low := l, p_mid := m, p_high := g, p_out := [], p_in := Some []\<rparr>"
  have s1: "select_lba pio_drive lba ATA_CMD_WRITE d = d1"
    using sel by (simp add: pio_outb_def d1_def ata_ports ATA_CMD_READ_def ATA_CMD_WRITE_def)
  have lba1: "pio_lba d1 = lba" using sel(2) by (simp add: d1_def pio_lba_def)
  have "p_in d1 = Some []" by (simp add: d1_def)
  moreover from this have "ata_poll pio_drive d1 = (0, d1)" by (intro pio_poll) simp
  moreover note write_loop [OF assms(3) calculation(1), unfolded lba1]
  ultimately have "ata_write_sector pio_drive lba buf d =
      Some (0, pio_outb ATA_COMMAND 0xE7 (d1\<lparr>p_in := None, p_sectors := (p_sectors d1)(lba := buf)\<rparr>))"
    unfolding ata_write_sector_def s1 by simp
  moreover have "pio_outb ATA_COMMAND 0xE7 (d1\<lparr>p_in := None, p_sectors := (p_sectors d1)(lba := buf)\<rparr>) =
      d1\<lparr>p_in := None, p_out := [], p_sectors := (p_sectors d)(lba := buf)\<rparr>" (is "_ = ?d2")
    by (simp add: pio_outb_def ata_ports ATA_CMD_READ_def ATA_CMD_WRITE_def ATA_CMD_IDENTIFY_def d1_def)
  moreover have "pio_good ?d2" "p_sectors ?d2 = (p_sectors d)(lba := buf)"
    using assms(1,3) by (simp_all add: pio_good_def)
  ultimately show ?thesis by auto
qed

interpretation pio: block_device pio_drive p_sectors pio_good
proof (unfold_locales, goal_cases)
  case (1 d lba)
  then show ?case by (simp add: pio_good_def)
next
  case (2 d lba off buf)
  then show ?case by (rule pio_read)
next
  case (3 d lba buf)
  then show ?case by (rule pio_write)
qed

section \<open>A drive whose status never changes\<close>

lemma poll_busy_constant:
  assumes "\<And>d. fst (dev_inb D ATA_STATUS d) = st" and "0 < n"
  shows "fst (poll_busy D n s0 d) = st"
  using assms(2)
proof (induction n arbitrary: s0 d)
  case (Suc n)
  obtain d' where d': "dev_inb D ATA_STATUS d = (st, d')" using assms(1) by (metis prod.collapse)
  show ?case
  proof (cases "n = 0")
    case True
    then show ?thesis using d' by simp
  next
    case False
    then show ?thesis using d' Suc.IH [of st d'] by simp
  qed
qed simp

lemma poll_drq_constant:
  assumes "\<And>d. fst (dev_inb D ATA_STATUS d) = st" and "st AND ATA_SR_ERR = 0" and "0 < n"
  shows "fst (poll_drq D n d) = (if st AND ATA_SR_DRQ \<noteq> 0 then 0 else 1)"
  using assms(3)
proof (induction n arbitrary: d)
  case (Suc n)
  obtain d' where d': "dev_inb D ATA_STATUS d = (st, d')" using assms(1) by (metis prod.collapse)
  show ?case
  proof (cases "n = 0")
    case True
    then show ?thesis using d' assms(2) by simp
  next
    case False
    then show ?thesis using d' assms(2) Suc.IH [of d'] by simp
  qed
qed simp

lemma ata_poll_constant:
  assumes "\<And>d. fst (dev_inb D ATA_STATUS d) = st"
  shows "fst (ata_poll D d) = (if st AND ATA_SR_ERR = 0 \<and> st AND ATA_SR_DRQ \<noteq> 0 then 0 else 1)"
proof -
  have pos: "0 < ATA_TIMEOUT" by (simp add: ATA_TIMEOUT_def)
  obtain d' where d': "poll_busy D ATA_TIMEOUT 0 d = (st, d')"
    using poll_busy_constant [of D st ATA_TIMEOUT 0 d] assms pos by (metis prod.collapse)
  show ?thesis using poll_drq_constant [of D st ATA_TIMEOUT d'] assms pos d'
    by (auto simp: ata_poll_def)
qed

section \<open>Properties\<close>

text \<open>
  C16: A sector written through the driver is the sector read back, every other sector reads as
  before, for all 28-bit sector numbers: the register split of the number, the byte order of the
  data words, the polling and the 256-word transfers of the two routines fit the drive and each
  other.
\<close>

theorem ata_sector_roundtrip:
  assumes "pio_good d" and "lba < 2 ^ 28" and "lba' < 2 ^ 28" and "length data = 512" and "length buf = 512"
  shows "\<exists>d' d''. ata_write_sector pio_drive lba data d = Some (0, d') \<and>
    ata_read_sector pio_drive lba' 0 buf d' = Some (0, if lba' = lba then data else p_sectors d lba', d'')"
proof (cases "lba' = lba")
  case True
  then show ?thesis using pio.read_back [OF assms(1,2,4,5)] by fastforce
next
  case False
  then show ?thesis using pio.read_other [OF assms(1-3) False assms(4,5)] by simp
qed

definition blank_pio :: pio where
  "blank_pio = \<lparr>p_head = 0, p_low = 0, p_mid = 0, p_high = 0, p_out = [], p_in = None, p_sectors = (\<lambda>_. replicate 512 0)\<rparr>"

lemma ata_sector_roundtrip_witness:
  "\<exists>d' d''. ata_write_sector pio_drive 0x1234567 (replicate 512 0xA5) blank_pio = Some (0, d') \<and>
     ata_read_sector pio_drive 0x1234567 0 (replicate 512 0) d' = Some (0, replicate 512 0xA5, d'')"
  using ata_sector_roundtrip [of blank_pio "0x1234567" "0x1234567" "replicate 512 0xA5" "replicate 512 0"]
  by (simp add: pio_good_def blank_pio_def)

text \<open>
  Error reporting.  Whatever the drive, while its status register shows a constant value both
  transfers return within their bounded polls: with error 1 and an untouched buffer when the error
  bit is set or data is never requested (a floating bus, an absent drive), and otherwise going on
  with the transfer - even when the busy bit is still set after the time-out, which no code looks at.
\<close>

theorem ata_status_errors:
  assumes "\<And>d. fst (dev_inb D ATA_STATUS d) = st"
  shows "if st AND ATA_SR_ERR = 0 \<and> st AND ATA_SR_DRQ \<noteq> 0
     then (off + 512 \<le> length buf \<longrightarrow> (\<exists>buf' d'. ata_read_sector D lba off buf d = Some (0, buf', d'))) \<and>
          (length data = 512 \<longrightarrow> (\<exists>d'. ata_write_sector D lba data d = Some (0, d')))
     else (\<exists>d'. ata_read_sector D lba off buf d = Some (1, buf, d')) \<and>
          (\<exists>d'. ata_write_sector D lba data d = Some (1, d'))"
proof (cases "st AND ATA_SR_ERR = 0 \<and> st AND ATA_SR_DRQ \<noteq> 0")
  case False
  have p: "\<exists>d'. ata_poll D e = (1, d')" for e using ata_poll_constant [of D st e] assms False by (metis prod.collapse)
  obtain d1 d2 where "ata_poll D (select_lba D lba ATA_CMD_READ d) = (1, d1)" "ata_poll D (select_lba D lba ATA_CMD_WRITE d) = (1, d2)"
    using p by meson
  then have "ata_read_sector D lba off buf d = Some (1, buf, d1)" "ata_write_sector D lba data d = Some (1, d2)"
    by (simp_all add: ata_read_sector_def ata_write_sector_def)
  then show ?thesis using False by auto
next
  case True
  obtain d1 where p1: "ata_poll D (select_lba D lba ATA_CMD_READ d) = (0, d1)"
    using ata_poll_constant [of D st "select_lba D lba ATA_CMD_READ d"] assms True by (metis prod.collapse)
  obtain d2 where p2: "ata_poll D (select_lba D lba ATA_CMD_WRITE d) = (0, d2)"
    using ata_poll_constant [of D st "select_lba D lba ATA_CMD_WRITE d"] assms True by (metis prod.collapse)
  let ?f = "\<lambda>i (buf, d). do {
            let (word, d) = dev_inw D ATA_DATA d;
            buf \<leftarrow> arr_set buf (off + i * 2) (ucast (word AND 0xFF));
            buf \<leftarrow> arr_set buf (off + (i * 2 + 1)) (ucast (drop_bit 8 word AND 0xFF));
            Some (buf, d) }"
  have rd: "\<exists>buf' d'. ata_read_sector D lba off buf d = Some (0, buf', d')" if "off + 512 \<le> length buf"
  proof -
    have "\<exists>t. for_each ?f [0..<256] (buf, d1) = Some t \<and> length (fst t) = length buf"
      by (rule for_each_upt_inv [where I = "\<lambda>_ t. length (fst t) = length buf"])
         (use that in \<open>auto split: prod.splits\<close>)
    then obtain t where "for_each ?f [0..<256] (buf, d1) = Some t" by blast
    then show ?thesis by (cases t) (simp add: ata_read_sector_def p1)
  qed
  let ?g = "\<lambda>i d. do {
            lo \<leftarrow> arr_get data (i * 2);
            hi \<leftarrow> arr_get data (i * 2 + 1);
            Some (dev_outw D ATA_DATA (ucast lo OR push_bit 8 (ucast hi)) d) }"
  have wr: "\<exists>d'. ata_write_sector D lba data d = Some (0, d')" if "length data = 512"
  proof -
    have "\<exists>t. for_each ?g [0..<256] d2 = Some t \<and> True"
      by (rule for_each_upt_inv) (use that in auto)
    then obtain t where "for_each ?g [0..<256] d2 = Some t" by blast
    then show ?thesis by (simp add: ata_write_sector_def p2 Let_def)
  qed
  show ?thesis using True rd wr by auto
qed

lemma ata_status_errors_witness:
  "\<exists>d'. ata_read_sector \<lparr>dev_inb = (\<lambda>_ d. (0xFF, d)), dev_inw = (\<lambda>_ d. (0xFFFF, d)), dev_outb = (\<lambda>_ _ d. d), dev_outw = (\<lambda>_ _ d. d)\<rparr>
     7 0 [] () = Some (1, [], d')"
  using ata_status_errors [of "\<lparr>dev_inb = (\<lambda>_ d. (0xFF, d)), dev_inw = (\<lambda>_ d. (0xFFFF, d)), dev_outb = (\<lambda>_ _ d. d), dev_outw = (\<lambda>_ _ d. d)\<rparr>"
     "0xFF" 0 "[]" 7 "()" "[]"]
  by (simp add: ATA_SR_ERR_def ATA_SR_DRQ_def)

end
