(* ===== verification/Fat32.thy ===== *)
theory Fat32
  imports Ata Console
begin

text \<open>
  The FAT32 file system (\<^verbatim>\<open>kernel/fat32.c\<close>) on the sectors the ATA driver delivers.  Sector
  buffers are byte lists; a C structure overlaid on one is read and written at its byte offsets, in
  little-endian order.  The loops along a cluster chain may run forever on a corrupt table: they are
  partial functions, \<open>None\<close> when they do not end.
\<close>

section \<open>Bytes of a buffer\<close>

definition get16 :: "u8 list \<Rightarrow> nat \<Rightarrow> u16 option" where
  "get16 b p = do { x \<leftarrow> arr_get b p; y \<leftarrow> arr_get b (p + 1); Some (ucast x OR push_bit 8 (ucast y)) }"

definition get32 :: "u8 list \<Rightarrow> nat \<Rightarrow> u32 option" where
  "get32 b p = do { x \<leftarrow> get16 b p; y \<leftarrow> get16 b (p + 2); Some (ucast x OR push_bit 16 (ucast y)) }"

definition put16 :: "u8 list \<Rightarrow> nat \<Rightarrow> u16 \<Rightarrow> u8 list option" where
  "put16 b p v = do { b \<leftarrow> arr_set b p (ucast v); arr_set b (p + 1) (ucast (drop_bit 8 v)) }"

definition put32 :: "u8 list \<Rightarrow> nat \<Rightarrow> u32 \<Rightarrow> u8 list option" where
  "put32 b p v = do { b \<leftarrow> put16 b p (ucast v); put16 b (p + 2) (ucast (drop_bit 16 v)) }"

definition bytes_at :: "u8 list \<Rightarrow> nat \<Rightarrow> nat \<Rightarrow> u8 list option" where
  "bytes_at b p n = (if p + n \<le> length b then Some (take n (drop p b)) else None)"

section \<open>State\<close>

record fat =
  fat_start_lba :: u32
  data_start_lba :: u32
  root_cluster :: u32
  sectors_per_cluster :: u8
  current_cluster :: u32
  previous_cluster :: u32

record fat_entry =
  fe_name :: "u8 list"
  fe_ext :: "u8 list"
  fe_attributes :: u8
  fe_reserved :: u8
  fe_create_time_fine :: u8
  fe_create_time :: u16
  fe_create_date :: u16
  fe_access_date :: u16
  cluster_high :: u16
  fe_modify_time :: u16
  fe_modify_date :: u16
  cluster_low :: u16
  file_size :: u32

text \<open>A \<open>FAT32_Entry\<close> overlaid on a buffer.\<close>

definition entry_at :: "u8 list \<Rightarrow> nat \<Rightarrow> fat_entry option" where
  "entry_at b p = do {
     nm \<leftarrow> bytes_at b p 8;
     ex \<leftarrow> bytes_at b (p + 8) 3;
     at \<leftarrow> arr_get b (p + 11);
     rs \<leftarrow> arr_get b (p + 12);
     cf \<leftarrow> arr_get b (p + 13);
     ct \<leftarrow> get16 b (p + 14);
     cd \<leftarrow> get16 b (p + 16);
     ad \<leftarrow> get16 b (p + 18);
     ch \<leftarrow> get16 b (p + 20);
     mt \<leftarrow> get16 b (p + 22);
     md \<leftarrow> get16 b (p + 24);
     cl \<leftarrow> get16 b (p + 26);
     sz \<leftarrow> get32 b (p + 28);
     Some \<lparr>fe_name = nm, fe_ext = ex, fe_attributes = at, fe_reserved = rs, fe_create_time_fine = cf,
           fe_create_time = ct, fe_create_date = cd, fe_access_date = ad, cluster_high = ch,
           fe_modify_time = mt, fe_modify_date = md, cluster_low = cl, file_size = sz\<rparr> }"

definition entry_cluster :: "fat_entry \<Rightarrow> u32" where
  "entry_cluster e = push_bit 16 (ucast (cluster_high e)) OR ucast (cluster_low e)"

definition END_OF_CHAIN :: u32 where "END_OF_CHAIN = 0x0FFFFFF8"

section \<open>Clusters\<close>

definition cluster_to_lba :: "fat \<Rightarrow> u32 \<Rightarrow> u32" where
  "cluster_to_lba f cluster = data_start_lba f + (cluster - 2) * ucast (sectors_per_cluster f)"

definition fat_next_cluster :: "('d, 'x) ata_device_scheme \<Rightarrow> fat \<Rightarrow> u32 \<Rightarrow> 'd \<Rightarrow> (u32 \<times> 'd) option" where
  "fat_next_cluster D f cluster d = do {
     let fat_offset = cluster * 4;
     let fat_sector = fat_start_lba f + fat_offset div 512;
     let entry_offset = fat_offset mod 512;
     (err, buf, d) \<leftarrow> ata_read_sector D fat_sector 0 (replicate 512 0) d;
     if err \<noteq> 0 then Some (0x0FFFFFFF, d)
     else do { nxt \<leftarrow> get32 buf (unat entry_offset); Some (nxt AND 0x0FFFFFFF, d) } }"

definition fat_set_cluster ::
    "('d, 'x) ata_device_scheme \<Rightarrow> fat \<Rightarrow> u32 \<Rightarrow> u32 \<Rightarrow> 'd \<Rightarrow> 'd option" where
  "fat_set_cluster D f cluster value d = do {
     let fat_offset = cluster * 4;
     let fat_sector = fat_start_lba f + fat_offset div 512;
     let entry_offset = fat_offset mod 512;
     (err, buf, d) \<leftarrow> ata_read_sector D fat_sector 0 (replicate 512 0) d;
     if err \<noteq> 0 then Some d
     else do {
       buf \<leftarrow> put32 buf (unat entry_offset) (value AND 0x0FFFFFFF);
       (_, d) \<leftarrow> ata_write_sector D fat_sector buf d;
       Some d } }"

text \<open>The scan for a free cluster; every step reads the sector of the table again.\<close>

partial_function (option) find_free_from ::
    "('d, 'x) ata_device_scheme \<Rightarrow> fat \<Rightarrow> u32 \<Rightarrow> 'd \<Rightarrow> (u32 \<times> 'd) option" where
  "find_free_from D f cluster d =
     (if cluster < END_OF_CHAIN then do {
        (err, buf, d) \<leftarrow> ata_read_sector D (fat_start_lba f + cluster * 4 div 512) 0 (replicate 512 0) d;
        if err \<noteq> 0 then Some (0, d)
        else do {
          val \<leftarrow> get32 buf (unat (cluster * 4 mod 512));
          if val AND 0x0FFFFFFF = 0 then Some (cluster, d)
          else find_free_from D f (cluster + 1) d } }
      else Some (0, d))"

definition fat32_find_free_cluster :: "('d, 'x) ata_device_scheme \<Rightarrow> fat \<Rightarrow> 'd \<Rightarrow> (u32 \<times> 'd) option" where
  "fat32_find_free_cluster D f d = find_free_from D f 2 d"

section \<open>Initialisation\<close>

definition fat32_init ::
    "('d, 'x) ata_device_scheme \<Rightarrow> u32 \<Rightarrow> fat \<Rightarrow> 'd \<Rightarrow> (u8 \<times> fat \<times> 'd) option" where
  "fat32_init D partition_lba f d = do {
     (err, buf, d) \<leftarrow> ata_read_sector D partition_lba 0 (replicate 512 0) d;
     if err \<noteq> 0 then Some (1, f, d)
     else do {
       m1 \<leftarrow> arr_get buf 510;
       m2 \<leftarrow> arr_get buf 511;
       if m1 \<noteq> 0x55 \<or> m2 \<noteq> 0xAA then Some (2, f, d)
       else do {
         spc \<leftarrow> arr_get buf 13;
         reserved \<leftarrow> get16 buf 14;
         fats \<leftarrow> arr_get buf 16;
         fat_size \<leftarrow> get32 buf 36;
         root \<leftarrow> get32 buf 44;
         let f = f\<lparr>sectors_per_cluster := spc, root_cluster := root, fat_start_lba := partition_lba + ucast reserved\<rparr>;
         let f = f\<lparr>data_start_lba := fat_start_lba f + ucast fats * fat_size\<rparr>;
         Some (0, f\<lparr>current_cluster := root, previous_cluster := root\<rparr>, d) } } }"

section \<open>Names\<close>

definition to_upper :: "u8 \<Rightarrow> u8" where
  "to_upper c = (if 0x61 \<le> c \<and> c \<le> 0x7A then c - 32 else c)"

text \<open>The first \<open>n\<close> characters of a C string, in upper case, padded with spaces.\<close>

fun pad_field :: "nat \<Rightarrow> u8 list \<Rightarrow> u8 list option" where
  "pad_field 0 s = Some []"
| "pad_field (Suc n) [] = None"
| "pad_field (Suc n) (c # cs) =
     (if c = 0 then Some (replicate (Suc n) 0x20)
      else do { r \<leftarrow> pad_field n cs; Some (to_upper c # r) })"

definition name_match :: "u8 list \<Rightarrow> u8 list \<Rightarrow> u8 list \<Rightarrow> u8 list \<Rightarrow> bool option" where
  "name_match entry_name entry_ext name ext = do {
     padded_name \<leftarrow> pad_field 8 name;
     padded_ext \<leftarrow> pad_field 3 ext;
     Some (map to_upper entry_name = padded_name \<and> map to_upper entry_ext = padded_ext) }"

section \<open>Finding a file\<close>

text \<open>
  One sector of the directory: \<open>Inl None\<close> at the end marker, \<open>Inl (Some i)\<close> at a match in slot
  \<open>i\<close>, \<open>Inr\<close> when the loop falls through.
\<close>

definition find_in_sector :: "u8 list \<Rightarrow> u8 list \<Rightarrow> u8 list \<Rightarrow> (nat option + unit) option" where
  "find_in_sector name ext buf = for_until (\<lambda>i u. do {
     e \<leftarrow> entry_at buf (i * 32);
     c \<leftarrow> arr_get (fe_name e) 0;
     if c = 0 then Some (Inl None)
     else if c = 0xE5 then Some (Inr u)
     else if fe_attributes e = 0x0F then Some (Inr u)
     else if fe_attributes e AND 0x10 \<noteq> 0 then Some (Inr u)
     else if fe_attributes e AND 0x08 \<noteq> 0 then Some (Inr u)
     else do {
       m \<leftarrow> name_match (fe_name e) (fe_ext e) name ext;
       Some (if m then Inl (Some i) else Inr u) } }) [0..<16] ()"

text \<open>
  One cluster.  The result of the whole search is \<open>None\<close> (the C function returns 1) or the entry, its
  sector and its offset (it returns 0 and fills its out parameters); \<open>Inr\<close> when the search goes on.
\<close>

definition find_in_cluster ::
    "('d, 'x) ata_device_scheme \<Rightarrow> fat \<Rightarrow> u8 list \<Rightarrow> u8 list \<Rightarrow> u32 \<Rightarrow> 'd \<Rightarrow>
     (((fat_entry \<times> u32 \<times> u32) option \<times> 'd) + 'd) option" where
  "find_in_cluster D f name ext lba d = for_until (\<lambda>s d. do {
     (err, buf, d) \<leftarrow> ata_read_sector D (lba + of_nat s) 0 (replicate 512 0) d;
     if err \<noteq> 0 then Some (Inl (None, d))
     else do {
       r \<leftarrow> find_in_sector name ext buf;
       case r of
         Inl None \<Rightarrow> Some (Inl (None, d))
       | Inl (Some i) \<Rightarrow> do {
           e \<leftarrow> entry_at buf (i * 32);
           Some (Inl (Some (e, lba + of_nat s, of_nat (i * 32)), d)) }
       | Inr _ \<Rightarrow> Some (Inr d) } }) [0..<unat (sectors_per_cluster f)] d"

partial_function (option) find_file_from ::
    "('d, 'x) ata_device_scheme \<Rightarrow> fat \<Rightarrow> u8 list \<Rightarrow> u8 list \<Rightarrow> u32 \<Rightarrow> 'd \<Rightarrow>
     ((fat_entry \<times> u32 \<times> u32) option \<times> 'd) option" where
  "find_file_from D f name ext cluster d =
     (if cluster < END_OF_CHAIN then do {
        r \<leftarrow> find_in_cluster D f name ext (cluster_to_lba f cluster) d;
        case r of Inl res \<Rightarrow> Some res
        | Inr d \<Rightarrow> do {
            (cluster, d) \<leftarrow> fat_next_cluster D f cluster d;
            find_file_from D f name ext cluster d } }
      else Some (None, d))"

definition fat32_find_file ::
    "('d, 'x) ata_device_scheme \<Rightarrow> fat \<Rightarrow> u8 list \<Rightarrow> u8 list \<Rightarrow> 'd \<Rightarrow>
     ((fat_entry \<times> u32 \<times> u32) option \<times> 'd) option" where
  "fat32_find_file D f name ext d = find_file_from D f name ext (current_cluster f) d"


section \<open>Reading a file\<close>

text \<open>
  The sectors of one cluster, until \<open>max_bytes\<close> are there (\<open>Inl\<close>, with the value returned) or the
  cluster is done.  Whole sectors are written to the buffer, whatever \<open>max_bytes\<close> is.
\<close>

definition read_step ::
    "('d, 'x) ata_device_scheme \<Rightarrow> u32 \<Rightarrow> u32 \<Rightarrow> nat \<Rightarrow> u8 list \<times> u32 \<times> 'd \<Rightarrow>
     ((u8 \<times> u8 list \<times> 'd) + (u8 list \<times> u32 \<times> 'd)) option" where
  "read_step D lba max_bytes s = (\<lambda>(buf, bytes_written, d). do {
     (err, buf, d) \<leftarrow> ata_read_sector D (lba + of_nat s) (unat bytes_written) buf d;
     if err \<noteq> 0 then Some (Inl (1, buf, d))
     else do {
       let bytes_written = bytes_written + 512;
       if max_bytes \<le> bytes_written then Some (Inl (0, buf, d))
       else Some (Inr (buf, bytes_written, d)) } })"

definition read_cluster ::
    "('d, 'x) ata_device_scheme \<Rightarrow> fat \<Rightarrow> u32 \<Rightarrow> u32 \<Rightarrow> u8 list \<times> u32 \<times> 'd \<Rightarrow>
     ((u8 \<times> u8 list \<times> 'd) + (u8 list \<times> u32 \<times> 'd)) option" where
  "read_cluster D f lba max_bytes = for_until (read_step D lba max_bytes) [0..<unat (sectors_per_cluster f)]"

text \<open>\<open>n\<close> is the number of clusters the safety counter still admits.\<close>

fun read_chain ::
    "('d, 'x) ata_device_scheme \<Rightarrow> fat \<Rightarrow> nat \<Rightarrow> u32 \<Rightarrow> u32 \<Rightarrow> u8 list \<times> u32 \<times> 'd \<Rightarrow> (u8 \<times> u8 list \<times> 'd) option" where
  "read_chain D f 0 max_bytes cluster (buf, bytes_written, d) = Some (0, buf, d)"
| "read_chain D f (Suc n) max_bytes cluster (buf, bytes_written, d) =
     (if cluster < END_OF_CHAIN then do {
        r \<leftarrow> read_cluster D f (cluster_to_lba f cluster) max_bytes (buf, bytes_written, d);
        case r of Inl res \<Rightarrow> Some res
        | Inr (buf, bytes_written, d) \<Rightarrow> do {
            (cluster, d) \<leftarrow> fat_next_cluster D f cluster d;
            read_chain D f n max_bytes cluster (buf, bytes_written, d) } }
      else Some (0, buf, d))"

definition fat32_read_file ::
    "('d, 'x) ata_device_scheme \<Rightarrow> fat \<Rightarrow> fat_entry \<Rightarrow> u8 list \<Rightarrow> u32 \<Rightarrow> 'd \<Rightarrow> (u8 \<times> u8 list \<times> 'd) option" where
  "fat32_read_file D f entry buf max_bytes d = read_chain D f 129 max_bytes (entry_cluster entry) (buf, 0, d)"

section \<open>Listing the directory\<close>

text \<open>Print up to a space.\<close>

fun put_name :: "u8 list \<Rightarrow> u8 \<Rightarrow> 'a console_scheme \<Rightarrow> 'a console_scheme" where
  "put_name [] color s = s"
| "put_name (c # cs) color s = (if c = 0x20 then s else put_name cs color (put_char c color s))"

definition list_entry :: "fat_entry \<Rightarrow> 'a console_scheme \<Rightarrow> 'a console_scheme" where
  "list_entry e s =
     (let s = put_name (fe_name e) 0x0A s;
          s = (if fe_attributes e AND 0x10 = 0
               then put_name (fe_ext e) 0x0A (put_char 0x2E 0x0A s)
               else put_char 0x2F 0x0B s)
      in put_char 10 0x0A s)"

definition list_sector :: "u8 list \<Rightarrow> 'a console_scheme \<Rightarrow> ('a console_scheme + 'a console_scheme) option" where
  "list_sector buf = for_until (\<lambda>i s. do {
     e \<leftarrow> entry_at buf (i * 32);
     c \<leftarrow> arr_get (fe_name e) 0;
     if c = 0 then Some (Inl s)
     else if c = 0xE5 then Some (Inr s)
     else if fe_attributes e = 0x0F then Some (Inr s)
     else if fe_attributes e AND 0x08 \<noteq> 0 then Some (Inr s)
     else Some (Inr (list_entry e s)) }) [0..<16]"

definition list_cluster ::
    "('d, 'x) ata_device_scheme \<Rightarrow> fat \<Rightarrow> u32 \<Rightarrow> 'a console_scheme \<times> 'd \<Rightarrow>
     (('a console_scheme \<times> 'd) + ('a console_scheme \<times> 'd)) option" where
  "list_cluster D f lba = for_until (\<lambda>k (s, d). do {
     (err, buf, d) \<leftarrow> ata_read_sector D (lba + of_nat k) 0 (replicate 512 0) d;
     if err \<noteq> 0 then Some (Inl (s, d))
     else do {
       r \<leftarrow> list_sector buf s;
       case r of Inl s \<Rightarrow> Some (Inl (s, d)) | Inr s \<Rightarrow> Some (Inr (s, d)) } }) [0..<unat (sectors_per_cluster f)]"

partial_function (option) list_from ::
    "('d, 'x) ata_device_scheme \<Rightarrow> fat \<Rightarrow> u32 \<Rightarrow> 'a console_scheme \<times> 'd \<Rightarrow> ('a console_scheme \<times> 'd) option" where
  "list_from D f cluster sd =
     (if cluster < END_OF_CHAIN then do {
        r \<leftarrow> list_cluster D f (cluster_to_lba f cluster) sd;
        case r of Inl sd \<Rightarrow> Some sd
        | Inr (s, d) \<Rightarrow> do {
            (cluster, d) \<leftarrow> fat_next_cluster D f cluster d;
            list_from D f cluster (s, d) } }
      else Some sd)"

definition fat32_list_dir ::
    "('d, 'x) ata_device_scheme \<Rightarrow> fat \<Rightarrow> 'a console_scheme \<times> 'd \<Rightarrow> ('a console_scheme \<times> 'd) option" where
  "fat32_list_dir D f sd = list_from D f (current_cluster f) sd"

section \<open>Creating a file\<close>

text \<open>
  The three loops that fill a name field of the entry: characters up to the end of the string in
  upper case, then spaces.
\<close>

definition fill_slot :: "u8 list \<Rightarrow> nat \<Rightarrow> u8 list \<Rightarrow> u8 list \<Rightarrow> u8 list option" where
  "fill_slot buf p name ext = do {
     buf \<leftarrow> for_each (\<lambda>n b. arr_set b (p + n) 0) [0..<32] buf;
     nm \<leftarrow> pad_field 8 name;
     buf \<leftarrow> for_each (\<lambda>n b. do { c \<leftarrow> arr_get nm n; arr_set b (p + n) c }) [0..<8] buf;
     ex \<leftarrow> pad_field 3 ext;
     buf \<leftarrow> for_each (\<lambda>n b. do { c \<leftarrow> arr_get ex n; arr_set b (p + 8 + n) c }) [0..<3] buf;
     arr_set buf (p + 11) 0x20 }"

definition store_cluster :: "u8 list \<Rightarrow> nat \<Rightarrow> u32 \<Rightarrow> u8 list option" where
  "store_cluster buf p cluster = do {
     b \<leftarrow> arr_set buf (p + 20) (ucast (drop_bit 16 cluster AND 0xFF));
     b \<leftarrow> arr_set b (p + 21) (ucast (drop_bit 24 cluster AND 0xFF));
     b \<leftarrow> arr_set b (p + 26) (ucast (cluster AND 0xFF));
     b \<leftarrow> arr_set b (p + 27) (ucast (drop_bit 8 cluster AND 0xFF));
     b \<leftarrow> arr_set b (p + 28) 0;
     b \<leftarrow> arr_set b (p + 29) 0;
     b \<leftarrow> arr_set b (p + 30) 0;
     arr_set b (p + 31) 0 }"

definition free_slot :: "u8 list \<Rightarrow> nat option option" where
  "free_slot buf = do {
     r \<leftarrow> for_until (\<lambda>i u. do {
            c \<leftarrow> arr_get buf (i * 32);
            Some (if c = 0 \<or> c = 0xE5 then Inl i else Inr u) }) [0..<16] ();
     Some (case r of Inl i \<Rightarrow> Some i | Inr _ \<Rightarrow> None) }"

definition fat32_create_file ::
    "('d, 'x) ata_device_scheme \<Rightarrow> fat \<Rightarrow> u8 list \<Rightarrow> u8 list \<Rightarrow> 'd \<Rightarrow> (u8 \<times> 'd) option" where
  "fat32_create_file D f name ext d = do {
     let lba = cluster_to_lba f (current_cluster f);
     (err, buf, d) \<leftarrow> ata_read_sector D lba 0 (replicate 512 0) d;
     if err \<noteq> 0 then Some (1, d)
     else do {
       slot \<leftarrow> free_slot buf;
       case slot of None \<Rightarrow> Some (3, d)
       | Some i \<Rightarrow> do {
           buf \<leftarrow> fill_slot buf (i * 32) name ext;
           (cluster, d) \<leftarrow> fat32_find_free_cluster D f d;
           if cluster = 0 then Some (2, d)
           else do {
             d \<leftarrow> fat_set_cluster D f cluster 0x0FFFFFFF d;
             buf \<leftarrow> store_cluster buf (i * 32) cluster;
             (_, d) \<leftarrow> ata_write_sector D lba buf d;
             Some (0, d) } } } }"

section \<open>Finding a directory\<close>

definition find_dir_in_sector :: "u8 list \<Rightarrow> u8 list \<Rightarrow> (nat option + unit) option" where
  "find_dir_in_sector name buf = for_until (\<lambda>i u. do {
     e \<leftarrow> entry_at buf (i * 32);
     c \<leftarrow> arr_get (fe_name e) 0;
     if c = 0 then Some (Inl None)
     else if c = 0xE5 then Some (Inr u)
     else if fe_attributes e = 0x0F then Some (Inr u)
     else if fe_attributes e AND 0x10 = 0 then Some (Inr u)
     else do {
       r \<leftarrow> for_until (\<lambda>m u. do {
              disk \<leftarrow> arr_get (fe_name e) m;
              w \<leftarrow> arr_get name m;
              Some (if to_upper disk \<noteq> to_upper (if w \<noteq> 0 then w else 0x20) then Inl () else Inr u) }) [0..<8] ();
       Some (case r of Inr _ \<Rightarrow> Inl (Some i) | Inl _ \<Rightarrow> Inr u) } }) [0..<16] ()"

definition find_dir_in_cluster ::
    "('d, 'x) ata_device_scheme \<Rightarrow> fat \<Rightarrow> u8 list \<Rightarrow> u32 \<Rightarrow> 'd \<Rightarrow>
     ((u8 \<times> fat_entry option \<times> 'd) + 'd) option" where
  "find_dir_in_cluster D f name lba d = for_until (\<lambda>s d. do {
     (err, buf, d) \<leftarrow> ata_read_sector D (lba + of_nat s) 0 (replicate 512 0) d;
     if err \<noteq> 0 then Some (Inl (1, None, d))
     else do {
       r \<leftarrow> find_dir_in_sector name buf;
       case r of
         Inl None \<Rightarrow> Some (Inl (2, None, d))
       | Inl (Some i) \<Rightarrow> do { e \<leftarrow> entry_at buf (i * 32); Some (Inl (0, Some e, d)) }
       | Inr _ \<Rightarrow> Some (Inr d) } }) [0..<unat (sectors_per_cluster f)] d"

partial_function (option) find_dir_from ::
    "('d, 'x) ata_device_scheme \<Rightarrow> fat \<Rightarrow> u8 list \<Rightarrow> u32 \<Rightarrow> 'd \<Rightarrow> (u8 \<times> fat_entry option \<times> 'd) option" where
  "find_dir_from D f name cluster d =
     (if cluster < END_OF_CHAIN then do {
        r \<leftarrow> find_dir_in_cluster D f name (cluster_to_lba f cluster) d;
        case r of Inl res \<Rightarrow> Some res
        | Inr d \<Rightarrow> do {
            (cluster, d) \<leftarrow> fat_next_cluster D f cluster d;
            find_dir_from D f name cluster d } }
      else Some (2, None, d))"

definition fat32_find_dir ::
    "('d, 'x) ata_device_scheme \<Rightarrow> fat \<Rightarrow> u8 list \<Rightarrow> 'd \<Rightarrow> (u8 \<times> fat_entry option \<times> 'd) option" where
  "fat32_find_dir D f name d = find_dir_from D f name (current_cluster f) d"

section \<open>Writing a file\<close>

text \<open>
  The body of the loop ends in \<open>return 0\<close>, so it runs at most once; what follows the loop is only
  reached for \<open>size = 0\<close>.
\<close>

definition write_first_chunk ::
    "('d, 'x) ata_device_scheme \<Rightarrow> fat \<Rightarrow> u32 \<Rightarrow> u8 list \<Rightarrow> u32 \<Rightarrow> 'd \<Rightarrow> (u8 \<times> 'd) option" where
  "write_first_chunk D f cluster data sz d = do {
     let lba = cluster_to_lba f cluster;
     let chunk = (if sz < 512 then sz else 512);
     sector_buf \<leftarrow> for_each (\<lambda>i b. do { x \<leftarrow> arr_get data i; arr_set b i x }) [0..<unat chunk] (replicate 512 0);
     (err, d) \<leftarrow> ata_write_sector D lba sector_buf d;
     if err \<noteq> 0 then Some (2, d)
     else if chunk < sz then do {
       (nxt, d) \<leftarrow> fat_next_cluster D f cluster d;
       if END_OF_CHAIN \<le> cluster then do {
         (nxt, d) \<leftarrow> fat32_find_free_cluster D f d;
         if nxt = 0 then Some (3, d)
         else do {
           d \<leftarrow> fat_set_cluster D f cluster nxt d;
           d \<leftarrow> fat_set_cluster D f nxt 0x0FFFFFFF d;
           Some (0, d) } }
       else Some (0, d) }
     else Some (0, d) }"

definition fat32_write_file ::
    "('d, 'x) ata_device_scheme \<Rightarrow> fat \<Rightarrow> fat_entry \<Rightarrow> u32 \<Rightarrow> u32 \<Rightarrow> u8 list \<Rightarrow> u32 \<Rightarrow> 'd \<Rightarrow>
     (u8 \<times> fat_entry \<times> 'd) option" where
  "fat32_write_file D f entry dir_sector dir_offset data sz d = do {
     (full, cluster, entry, d) \<leftarrow>
       (if entry_cluster entry = 0 then do {
          (cluster, d) \<leftarrow> fat32_find_free_cluster D f d;
          if cluster = 0 then Some (True, 0, entry, d)
          else do {
            d \<leftarrow> fat_set_cluster D f cluster 0x0FFFFFFF d;
            Some (False, cluster, entry\<lparr>cluster_high := ucast (drop_bit 16 cluster AND 0xFFFF),
                                        cluster_low := ucast (cluster AND 0xFFFF)\<rparr>, d) } }
        else Some (False, entry_cluster entry, entry, d));
     if full then Some (1, entry, d)
     else if 0 < sz then do {
       (r, d) \<leftarrow> write_first_chunk D f cluster data sz d;
       Some (r, entry, d) }
     else do {
       let entry = entry\<lparr>file_size := sz\<rparr>;
       (err, dir_buf, d) \<leftarrow> ata_read_sector D dir_sector 0 (replicate 512 0) d;
       if err \<noteq> 0 then Some (3, entry, d)
       else do {
         b \<leftarrow> put32 dir_buf (unat dir_offset + 28) sz;
         b \<leftarrow> put16 b (unat dir_offset + 20) (cluster_high entry);
         b \<leftarrow> put16 b (unat dir_offset + 26) (cluster_low entry);
         (err, d) \<leftarrow> ata_write_sector D dir_sector b d;
         Some (if err \<noteq> 0 then 4 else 0, entry, d) } } }"

section \<open>Deleting a file\<close>

partial_function (option) free_chain ::
    "('d, 'x) ata_device_scheme \<Rightarrow> fat \<Rightarrow> u32 \<Rightarrow> 'd \<Rightarrow> 'd option" where
  "free_chain D f cluster d =
     (if cluster < END_OF_CHAIN then do {
        (nxt, d) \<leftarrow> fat_next_cluster D f cluster d;
        d \<leftarrow> fat_set_cluster D f cluster 0 d;
        free_chain D f nxt d }
      else Some d)"

definition fat32_file_delete ::
    "('d, 'x) ata_device_scheme \<Rightarrow> fat \<Rightarrow> u8 list \<Rightarrow> u8 list \<Rightarrow> 'd \<Rightarrow> (u8 \<times> 'd) option" where
  "fat32_file_delete D f name ext d = do {
     (r, d) \<leftarrow> fat32_find_file D f name ext d;
     case r of None \<Rightarrow> Some (- 1, d)
     | Some (entry, dir_sector, dir_offset) \<Rightarrow> do {
         (err, buf, d) \<leftarrow> ata_read_sector D dir_sector 0 (replicate 512 0) d;
         if err \<noteq> 0 then Some (- 2, d)
         else do {
           buf \<leftarrow> arr_set buf (unat dir_offset) 0xE5;
           (err, d) \<leftarrow> ata_write_sector D dir_sector buf d;
           if err \<noteq> 0 then Some (- 3, d)
           else do {
             d \<leftarrow> free_chain D f (entry_cluster entry) d;
             Some (0, d) } } } }"

end
