(* ===== verification/Fat_Volume.thy ===== *)
theory Fat_Volume
  imports Fat32
begin

text \<open>
  What \<^verbatim>\<open>fat32.c\<close> does on any block device: the allocation table as a function from clusters to
  values, chains of clusters, directory slots, and the operations as updates of these.
\<close>

section \<open>Little-endian fields of a buffer\<close>

lemma join_bytes: "ucast (ucast v :: u8) OR push_bit 8 (ucast (ucast (drop_bit 8 v) :: u8)) = (v :: u16)"
proof (rule bit_word_eqI)
  fix n assume "n < LENGTH(16)"
  then show "bit (ucast (ucast v :: u8) OR push_bit 8 (ucast (ucast (drop_bit 8 v) :: u8)) :: u16) n = bit v n"
    by (cases "n < 8") (auto simp: bit_simps)
qed

lemma join_halves: "ucast (ucast v :: u16) OR push_bit 16 (ucast (ucast (drop_bit 16 v) :: u16)) = (v :: u32)"
proof (rule bit_word_eqI)
  fix n assume "n < LENGTH(32)"
  then show "bit (ucast (ucast v :: u16) OR push_bit 16 (ucast (ucast (drop_bit 16 v) :: u16)) :: u32) n = bit v n"
    by (cases "n < 16") (auto simp: bit_simps)
qed

lemma put16_cases:
  assumes "p + 2 \<le> length b"
  obtains b' where "put16 b p v = Some b'" and "length b' = length b" and "get16 b' p = Some v"
    and "\<And>q. q < p \<or> p + 2 \<le> q \<Longrightarrow> b' ! q = b ! q"
proof
  show "put16 b p v = Some (b[p := ucast v, p + 1 := ucast (drop_bit 8 v)])" (is "_ = Some ?b")
    using assms by (simp add: put16_def)
  show "get16 ?b p = Some v"
    using assms join_bytes [of v] by (simp add: get16_def)
qed (use assms in \<open>auto simp: nth_list_update\<close>)

lemma get16_same: "p + 2 \<le> length b \<Longrightarrow> length b' = length b \<Longrightarrow> b' ! p = b ! p \<Longrightarrow> b' ! (p + 1) = b ! (p + 1) \<Longrightarrow>
    get16 b' p = get16 b p"
  by (simp add: get16_def)

lemma get16_in: "p + 2 \<le> length b \<Longrightarrow> \<exists>v. get16 b p = Some v"
  by (simp add: get16_def)

lemma get32_in: "p + 4 \<le> length b \<Longrightarrow> \<exists>v. get32 b p = Some v"
  by (simp add: get32_def get16_def)

lemma get32_same:
  assumes "p + 4 \<le> length b" and "length b' = length b" and "\<And>k. k < 4 \<Longrightarrow> b' ! (p + k) = b ! (p + k)"
  shows "get32 b' p = get32 b p"
proof -
  have "get16 b' p = get16 b p" using assms(1,2) assms(3) [of 0] assms(3) [of 1] by (intro get16_same) simp_all
  moreover have "get16 b' (p + 2) = get16 b (p + 2)"
    using assms(1,2) assms(3) [of 2] assms(3) [of 3] by (intro get16_same) (simp_all add: numeral_3_eq_3)
  ultimately show ?thesis by (simp add: get32_def)
qed

lemma put32_cases:
  assumes "p + 4 \<le> length b"
  obtains b' where "put32 b p v = Some b'" and "length b' = length b" and "get32 b' p = Some v"
    and "\<And>q. q < p \<or> p + 4 \<le> q \<Longrightarrow> b' ! q = b ! q"
proof -
  obtain b1 where b1: "put16 b p (ucast v) = Some b1" "length b1 = length b" "get16 b1 p = Some (ucast v)"
    "\<And>q. q < p \<or> p + 2 \<le> q \<Longrightarrow> b1 ! q = b ! q"
    using put16_cases [of p b "ucast v"] assms by auto
  obtain b2 where b2: "put16 b1 (p + 2) (ucast (drop_bit 16 v)) = Some b2" "length b2 = length b1"
    "get16 b2 (p + 2) = Some (ucast (drop_bit 16 v))" "\<And>q. q < p + 2 \<or> p + 2 + 2 \<le> q \<Longrightarrow> b2 ! q = b1 ! q"
    using put16_cases [of "p + 2" b1 "ucast (drop_bit 16 v)"] assms b1(2) by auto
  have g: "get16 b2 p = Some (ucast v)" using get16_same [of p b1 b2] assms b1 b2 by simp
  show ?thesis
  proof (rule that)
    show "put32 b p v = Some b2" using b1(1) b2(1) by (simp add: put32_def)
    show "get32 b2 p = Some v" using g b2(3) join_halves [of v] by (simp add: get32_def)
  qed (use assms b1 b2 in auto)
qed

section \<open>The allocation table\<close>

text \<open>
  The table entry of a cluster, read off the sectors, and the volumes considered: the table starts
  below sector \<open>2\<^sup>2\<^sup>7\<close>, so that the entry of every 28-bit cluster lies on an addressable sector.
\<close>

definition fat_sector :: "fat \<Rightarrow> u32 \<Rightarrow> u32" where
  "fat_sector f c = fat_start_lba f + c * 4 div 512"

definition fat_value :: "fat \<Rightarrow> (u32 \<Rightarrow> u8 list) \<Rightarrow> u32 \<Rightarrow> u32" where
  "fat_value f secs c = the (get32 (secs (fat_sector f c)) (unat (c * 4 mod 512))) AND 0x0FFFFFFF"

lemma unat_fat_offset:
  assumes "(c :: u32) < 2 ^ 28"
  shows "unat (c * 4) = unat c * 4"
  using assms by (simp add: unat_word_ariths word_less_nat_alt)

lemma fat_entry_offset: "(c :: u32) < 2 ^ 28 \<Longrightarrow> unat (c * 4 mod 512) = unat c mod 128 * 4"
  using mod_mult_mult2 [of "unat c" 4 128] by (simp add: unat_mod unat_fat_offset)

lemma fat_entry_sector: "(c :: u32) < 2 ^ 28 \<Longrightarrow> unat (c * 4 div 512) = unat c div 128"
  by (simp add: unat_div unat_fat_offset)

lemma fat_sector_less:
  assumes "c < 2 ^ 28" and "fat_start_lba f < 2 ^ 27"
  shows "fat_sector f c < 2 ^ 28" and "unat (fat_sector f c) = unat (fat_start_lba f) + unat c div 128"
proof -
  have "unat c div 128 < 2 ^ 21" using assms(1) by (simp add: word_less_nat_alt)
  moreover have "unat (fat_start_lba f) < 2 ^ 27" using assms(2) by (simp add: word_less_nat_alt)
  ultimately show "unat (fat_sector f c) = unat (fat_start_lba f) + unat c div 128"
    using assms(1) by (simp add: fat_sector_def unat_word_ariths(1) fat_entry_sector)
  then show "fat_sector f c < 2 ^ 28"
    using \<open>unat c div 128 < 2 ^ 21\<close> \<open>unat (fat_start_lba f) < 2 ^ 27\<close> by (simp add: word_less_nat_alt)
qed

text \<open>Two clusters whose entries share a sector have entries at different offsets.\<close>

lemma fat_entry_distinct:
  assumes "c < 2 ^ 28" and "c' < 2 ^ 28" and "fat_start_lba f < 2 ^ 27" and "fat_sector f c = fat_sector f c'" and "c \<noteq> c'"
  shows "unat c mod 128 \<noteq> unat c' mod 128"
proof -
  have "unat c div 128 = unat c' div 128"
    using fat_sector_less(2) [OF assms(1,3)] fat_sector_less(2) [OF assms(2,3)] assms(4) by simp
  moreover have "unat c \<noteq> unat c'" using assms(5) by (simp only: word_unat_eq_iff [symmetric] not_False_eq_True)
  ultimately show ?thesis by (metis div_mult_mod_eq)
qed

lemma fat_value_less: "fat_value f secs c < 2 ^ 28"
proof -
  have "fat_value f secs c \<le> 0x0FFFFFFF" by (simp add: fat_value_def word_and_le1)
  then show ?thesis by (simp add: word_le_nat_alt word_less_nat_alt)
qed

context block_device
begin

lemma read_whole:
  assumes "good d" and "lba < 2 ^ 28"
  obtains d' where "ata_read_sector D lba 0 (replicate 512 0) d = Some (0, sectors d lba, d')" and "good d'" and "sectors d' = sectors d"
  using read_law [OF assms, of 0 "replicate 512 0"] by auto

lemma next_value:
  assumes "good d" and "c < 2 ^ 28" and "fat_start_lba f < 2 ^ 27"
  obtains d' where "fat_next_cluster D f c d = Some (fat_value f (sectors d) c, d')" and "good d'" and "sectors d' = sectors d"
proof -
  obtain d' where d': "ata_read_sector D (fat_sector f c) 0 (replicate 512 0) d = Some (0, sectors d (fat_sector f c), d')"
    "good d'" "sectors d' = sectors d"
    using read_whole [OF assms(1) fat_sector_less(1) [OF assms(2,3)]] .
  have "unat c mod 128 * 4 + 4 \<le> 512" using mod_less_divisor [of 128 "unat c"] by linarith
  then obtain v where "get32 (sectors d (fat_sector f c)) (unat (c * 4 mod 512)) = Some v"
    using get32_in [of "unat (c * 4 mod 512)" "sectors d (fat_sector f c)"] sector_length [OF assms(1)] assms(2)
    by (auto simp: fat_entry_offset)
  then have "fat_next_cluster D f c d = Some (fat_value f (sectors d) c, d')"
    using d'(1) by (simp add: fat_next_cluster_def fat_value_def fat_sector_def)
  with that d' show ?thesis by blast
qed

lemma set_value:
  assumes "good d" and "c < 2 ^ 28" and "fat_start_lba f < 2 ^ 27"
  obtains d' where "fat_set_cluster D f c v d = Some d'" and "good d'"
    and "\<And>c'. c' < 2 ^ 28 \<Longrightarrow> fat_value f (sectors d') c' = (if c' = c then v AND 0x0FFFFFFF else fat_value f (sectors d) c')"
    and "\<And>lba. lba \<noteq> fat_sector f c \<Longrightarrow> sectors d' lba = sectors d lba"
proof -
  let ?s = "fat_sector f c" and ?p = "unat c mod 128 * 4"
  have s: "?s < 2 ^ 28" by (rule fat_sector_less(1) [OF assms(2,3)])
  obtain d1 where d1: "ata_read_sector D ?s 0 (replicate 512 0) d = Some (0, sectors d ?s, d1)" "good d1" "sectors d1 = sectors d"
    using read_whole [OF assms(1) s] .
  have p: "?p + 4 \<le> length (sectors d ?s)"
    using mod_less_divisor [of 128 "unat c"] sector_length [OF assms(1), of ?s] by linarith
  obtain b where b: "put32 (sectors d ?s) ?p (v AND 0x0FFFFFFF) = Some b" "length b = length (sectors d ?s)"
    "get32 b ?p = Some (v AND 0x0FFFFFFF)" "\<And>q. q < ?p \<or> ?p + 4 \<le> q \<Longrightarrow> b ! q = sectors d ?s ! q"
    using put32_cases [OF p] by blast
  obtain d' where d': "ata_write_sector D ?s b d1 = Some (0, d')" "good d'" "sectors d' = (sectors d1)(?s := b)"
    using write_law [OF d1(2) s, of b] b(2) sector_length [OF assms(1), of ?s] by auto
  show ?thesis
  proof (rule that)
    show "fat_set_cluster D f c v d = Some d'"
      using d1(1) b(1) d'(1) assms(2) by (simp add: fat_set_cluster_def fat_sector_def fat_entry_offset)
    fix c' :: u32 assume c': "c' < 2 ^ 28"
    let ?q = "unat c' mod 128 * 4"
    show "fat_value f (sectors d') c' = (if c' = c then v AND 0x0FFFFFFF else fat_value f (sectors d) c')"
    proof (cases "c' = c")
      case True
      have "(v AND 0x0FFFFFFF) AND 0x0FFFFFFF = v AND 0x0FFFFFFF" by (rule and.right_idem)
      then show ?thesis using True d'(3) b(3) c' by (simp add: fat_value_def fat_entry_offset)
    next
      case False
      have "get32 (sectors d' (fat_sector f c')) ?q = get32 (sectors d (fat_sector f c')) ?q"
      proof (cases "fat_sector f c' = ?s")
        case True
        then have "unat c mod 128 \<noteq> unat c' mod 128"
          using fat_entry_distinct [OF assms(2) c' assms(3)] False by auto
        then have o: "?q + k < ?p \<or> ?p + 4 \<le> ?q + k" if "k < 4" for k using that by linarith
        have "?q + 4 \<le> length (sectors d ?s)"
          using mod_less_divisor [of 128 "unat c'"] sector_length [OF assms(1), of ?s] by linarith
        then have "get32 b ?q = get32 (sectors d ?s) ?q"
          using b(2) b(4) [OF o] by (intro get32_same) auto
        then show ?thesis using True d'(3) d1(3) by simp
      qed (simp add: d'(3) d1(3))
      then show ?thesis using False c' by (simp add: fat_value_def fat_entry_offset)
    qed
  qed (use d' d1 in auto)
qed

end

section \<open>The free cluster scan\<close>

text \<open>\<open>r\<close> is the least free cluster from \<open>c\<close> on, or 0 when there is none.\<close>

definition first_free :: "fat \<Rightarrow> (u32 \<Rightarrow> u8 list) \<Rightarrow> u32 \<Rightarrow> u32 \<Rightarrow> bool" where
  "first_free f secs c r \<longleftrightarrow>
     r = 0 \<and> (\<forall>x. c \<le> x \<and> x < END_OF_CHAIN \<longrightarrow> fat_value f secs x \<noteq> 0) \<or>
     c \<le> r \<and> r < END_OF_CHAIN \<and> fat_value f secs r = 0 \<and> (\<forall>x. c \<le> x \<and> x < r \<longrightarrow> fat_value f secs x \<noteq> 0)"

lemma first_free_here: "c < END_OF_CHAIN \<Longrightarrow> fat_value f secs c = 0 \<Longrightarrow> first_free f secs c c"
  by (auto simp: first_free_def)

lemma first_free_end: "END_OF_CHAIN \<le> c \<Longrightarrow> first_free f secs c 0"
  by (auto simp: first_free_def)

lemma first_free_step:
  assumes "c < END_OF_CHAIN" and "fat_value f secs c \<noteq> 0" and "first_free f secs (c + 1) r"
  shows "first_free f secs c r"
proof -
  have "unat (c + 1) = unat c + 1"
    using assms(1) by (simp add: END_OF_CHAIN_def word_less_nat_alt unat_word_ariths(1))
  then have ge: "c + 1 \<le> x \<longleftrightarrow> c < x" for x by (simp add: word_le_nat_alt word_less_nat_alt Suc_le_eq)
  show ?thesis using assms(2,3) unfolding first_free_def ge by (auto simp: order_le_less)
qed

lemma first_free_unique:
  assumes "first_free f secs 2 r" and "first_free f secs 2 s"
  shows "r = s"
proof (rule ccontr)
  assume ne: "r \<noteq> s"
  have pos: "\<not> (2 :: u32) \<le> 0" by (simp add: word_le_nat_alt)
  consider "r < s" | "s < r" using ne by (metis linorder_neqE)
  then show False
    by cases (use assms pos in \<open>auto simp: first_free_def\<close>)
qed

lemma end_of_chain_less: "c < END_OF_CHAIN \<Longrightarrow> c < 2 ^ 28"
  by (simp add: END_OF_CHAIN_def word_less_nat_alt)

context block_device
begin

lemma find_free_from_least:
  assumes "good d" and "fat_start_lba f < 2 ^ 27"
  obtains r d' where "find_free_from D f c d = Some (r, d')" and "good d'" and "sectors d' = sectors d"
    and "first_free f (sectors d) c r"
  using assms(1)
proof (induction "unat END_OF_CHAIN - unat c" arbitrary: c d thesis rule: less_induct)
  case less
  show ?case
  proof (cases "c < END_OF_CHAIN")
    case False
    then have "find_free_from D f c d = Some (0, d)" by (subst find_free_from.simps) simp
    with less.prems first_free_end [of c] False show ?thesis by (simp add: not_less)
  next
    case True
    then have c28: "c < 2 ^ 28" by (rule end_of_chain_less)
    obtain d1 where d1: "ata_read_sector D (fat_sector f c) 0 (replicate 512 0) d = Some (0, sectors d (fat_sector f c), d1)"
      "good d1" "sectors d1 = sectors d"
      using read_whole [OF less.prems(2) fat_sector_less(1) [OF c28 assms(2)]] .
    have "unat c mod 128 * 4 + 4 \<le> 512" using mod_less_divisor [of 128 "unat c"] by linarith
    then obtain v where v: "get32 (sectors d (fat_sector f c)) (unat (c * 4 mod 512)) = Some v"
      using get32_in [of "unat (c * 4 mod 512)" "sectors d (fat_sector f c)"] sector_length [OF less.prems(2)] c28
      by (auto simp: fat_entry_offset)
    have fv: "fat_value f (sectors d) c = v AND 0x0FFFFFFF" using v by (simp add: fat_value_def)
    have step: "find_free_from D f c d = (if fat_value f (sectors d) c = 0 then Some (c, d1) else find_free_from D f (c + 1) d1)"
      using True d1(1) v fv by (subst find_free_from.simps) (simp add: fat_sector_def)
    show ?thesis
    proof (cases "fat_value f (sectors d) c = 0")
      case z: True
      show ?thesis using less.prems(1) [OF _ d1(2,3) first_free_here [OF True z]] step z by simp
    next
      case nz: False
      have "unat (c + 1) = unat c + 1" using c28 by (simp add: word_less_nat_alt unat_word_ariths(1))
      then have "unat END_OF_CHAIN - unat (c + 1) < unat END_OF_CHAIN - unat c"
        using True by (simp add: word_less_nat_alt)
      then obtain r d' where r: "find_free_from D f (c + 1) d1 = Some (r, d')" "good d'" "sectors d' = sectors d1"
        "first_free f (sectors d1) (c + 1) r"
        using less.hyps [of "c + 1" d1] d1(2) by blast
      show ?thesis
        using less.prems(1) [OF _ r(2) _ first_free_step [OF True nz]] r step nz d1(3) by simp
    qed
  qed
qed

end

section \<open>Cluster chains\<close>

text \<open>The clusters a table links from \<open>c\<close> up to the end mark.\<close>

primrec fat_chain :: "fat \<Rightarrow> (u32 \<Rightarrow> u8 list) \<Rightarrow> u32 \<Rightarrow> u32 list \<Rightarrow> bool" where
  "fat_chain f secs c [] \<longleftrightarrow> END_OF_CHAIN \<le> c"
| "fat_chain f secs c (x # xs) \<longleftrightarrow> x = c \<and> c < END_OF_CHAIN \<and> fat_chain f secs (fat_value f secs c) xs"

lemma fat_chain_unique: "fat_chain f secs c xs \<Longrightarrow> fat_chain f secs c ys \<Longrightarrow> xs = ys"
proof (induction xs arbitrary: c ys)
  case Nil
  then show ?case by (cases ys) auto
next
  case (Cons x xs)
  then show ?case by (cases ys) auto
qed

lemma fat_chain_suffix: "fat_chain f secs c (xs @ y # ys) \<Longrightarrow> fat_chain f secs y (y # ys)"
  by (induction xs arbitrary: c) auto

text \<open>A chain that ends has no repetition: the table determines what follows a cluster.\<close>

lemma fat_chain_distinct: "fat_chain f secs c xs \<Longrightarrow> distinct xs"
proof (induction xs arbitrary: c)
  case (Cons x xs)
  have "x \<notin> set xs"
  proof
    assume "x \<in> set xs"
    then obtain us vs where xs: "xs = us @ x # vs" by (auto simp: in_set_conv_decomp)
    have "fat_chain f secs c ((x # us) @ x # vs)" using Cons.prems xs by (simp only: append_Cons)
    then have "fat_chain f secs x (x # vs)" by (rule fat_chain_suffix)
    moreover have "fat_chain f secs x (x # xs)" using Cons.prems by simp
    ultimately have "x # vs = x # xs" by (rule fat_chain_unique)
    then show False using xs by (auto dest: arg_cong [where f = length])
  qed
  with Cons show ?case by auto
qed simp

lemma fat_chain_cong:
  "fat_chain f secs c xs \<Longrightarrow> (\<And>x. x \<in> set xs \<Longrightarrow> fat_value f secs' x = fat_value f secs x) \<Longrightarrow> fat_chain f secs' c xs"
  by (induction xs arbitrary: c) auto

lemma fat_chain_less: "fat_chain f secs c xs \<Longrightarrow> x \<in> set xs \<Longrightarrow> x < END_OF_CHAIN"
  by (induction xs arbitrary: c) auto

context block_device
begin

text \<open>Freeing a chain ends, clears the entries of its clusters and changes nothing else.\<close>

lemma free_chain_frees:
  assumes "good d" and "fat_start_lba f < 2 ^ 27" and "fat_chain f (sectors d) c xs"
  obtains d' where "free_chain D f c d = Some d'" and "good d'"
    and "\<And>x. x < 2 ^ 28 \<Longrightarrow> fat_value f (sectors d') x = (if x \<in> set xs then 0 else fat_value f (sectors d) x)"
    and "\<And>lba. lba \<notin> fat_sector f ` set xs \<Longrightarrow> sectors d' lba = sectors d lba"
  using assms(1,3)
proof (induction xs arbitrary: c d thesis)
  case Nil
  then have "\<not> c < END_OF_CHAIN" by (simp add: not_less)
  then have "free_chain D f c d = Some d" by (subst free_chain.simps) simp
  from Nil(1) [OF this Nil(2)] show ?case by simp
next
  case (Cons x xs)
  from Cons.prems(3) have c: "x = c" "c < END_OF_CHAIN" "fat_chain f (sectors d) (fat_value f (sectors d) c) xs" by auto
  have c28: "c < 2 ^ 28" using c(2) by (rule end_of_chain_less)
  obtain d1 where d1: "fat_next_cluster D f c d = Some (fat_value f (sectors d) c, d1)" "good d1" "sectors d1 = sectors d"
    using next_value [OF Cons.prems(2) c28 assms(2)] .
  obtain d2 where d2: "fat_set_cluster D f c 0 d1 = Some d2" "good d2"
    "\<And>c'. c' < 2 ^ 28 \<Longrightarrow> fat_value f (sectors d2) c' = (if c' = c then 0 AND 0x0FFFFFFF else fat_value f (sectors d1) c')"
    "\<And>lba. lba \<noteq> fat_sector f c \<Longrightarrow> sectors d2 lba = sectors d1 lba"
    using set_value [OF d1(2) c28 assms(2), of 0] by metis
  have nin: "c \<notin> set xs" using fat_chain_distinct [OF Cons.prems(3)] c(1) by simp
  have "fat_chain f (sectors d2) (fat_value f (sectors d) c) xs"
  proof (rule fat_chain_cong [OF c(3)])
    fix y assume "y \<in> set xs"
    then show "fat_value f (sectors d2) y = fat_value f (sectors d) y"
      using d2(3) [of y] d1(3) nin end_of_chain_less [OF fat_chain_less [OF c(3)]] by auto
  qed
  then obtain d' where d': "free_chain D f (fat_value f (sectors d) c) d2 = Some d'" "good d'"
    "\<And>x. x < 2 ^ 28 \<Longrightarrow> fat_value f (sectors d') x = (if x \<in> set xs then 0 else fat_value f (sectors d2) x)"
    "\<And>lba. lba \<notin> fat_sector f ` set xs \<Longrightarrow> sectors d' lba = sectors d2 lba"
    using Cons.IH [OF _ d2(2)] by metis
  show ?case
  proof (rule Cons.prems(1))
    show "free_chain D f c d = Some d'"
      using c(2) d1(1) d2(1) d'(1) by (subst free_chain.simps) simp
    show "good d'" by (rule d'(2))
    fix y :: u32 assume "y < 2 ^ 28"
    then show "fat_value f (sectors d') y = (if y \<in> set (x # xs) then 0 else fat_value f (sectors d) y)"
      using d'(3) d2(3) d1(3) c(1) by auto
  next
    fix lba assume "lba \<notin> fat_sector f ` set (x # xs)"
    then show "sectors d' lba = sectors d lba" using d'(4) [of lba] d2(4) [of lba] d1(3) c(1) by auto
  qed
qed

end

section \<open>Reading a file\<close>

text \<open>The sectors of a chain in file order, and how many of them a request for \<open>n\<close> bytes reads.\<close>

definition cluster_sectors :: "fat \<Rightarrow> u32 \<Rightarrow> u32 list" where
  "cluster_sectors f c = map (\<lambda>s. cluster_to_lba f c + of_nat s) [0..<unat (sectors_per_cluster f)]"

definition data_sectors :: "fat \<Rightarrow> u32 list \<Rightarrow> u32 list" where
  "data_sectors f cs = concat (map (cluster_sectors f) cs)"

definition wanted :: "u32 \<Rightarrow> nat" where
  "wanted n = max 1 ((unat n + 511) div 512)"

text \<open>A buffer whose sectors from number \<open>k\<close> on are replaced.\<close>

definition put_sectors :: "u8 list \<Rightarrow> nat \<Rightarrow> u8 list list \<Rightarrow> u8 list" where
  "put_sectors buf k xs = take (512 * k) buf @ concat xs @ drop (512 * (k + length xs)) buf"

lemma put_sectors_nil [simp]: "put_sectors buf k [] = buf"
  by (simp add: put_sectors_def)

lemma put_sectors_one: "length x = 512 \<Longrightarrow> 512 * (k + 1) \<le> length buf \<Longrightarrow> length (put_sectors buf k [x]) = length buf"
  by (simp add: put_sectors_def)

lemma put_sectors_cons:
  "length x = 512 \<Longrightarrow> 512 * (k + 1) \<le> length buf \<Longrightarrow>
    put_sectors (put_sectors buf k [x]) (k + 1) xs = put_sectors buf k (x # xs)"
  by (simp add: put_sectors_def algebra_simps)

lemma length_put_sectors:
  "\<forall>x\<in>set xs. length x = 512 \<Longrightarrow> 512 * (k + length xs) \<le> length buf \<Longrightarrow> length (put_sectors buf k xs) = length buf"
proof (induction xs arbitrary: buf k)
  case (Cons x xs)
  then show ?case using put_sectors_cons [of x k buf xs] put_sectors_one [of x k buf] Cons.IH [of "k + 1" "put_sectors buf k [x]"] by simp
qed simp

lemma put_sectors_append:
  "\<forall>x\<in>set xs. length x = 512 \<Longrightarrow> 512 * (k + length xs) \<le> length buf \<Longrightarrow>
    put_sectors (put_sectors buf k xs) (k + length xs) ys = put_sectors buf k (xs @ ys)"
proof (induction xs arbitrary: buf k)
  case (Cons x xs)
  then show ?case
    using put_sectors_cons [of x k buf xs] put_sectors_cons [of x k buf "xs @ ys"] put_sectors_one [of x k buf] Cons.IH [of "k + 1" "put_sectors buf k [x]"] by simp
qed simp

lemma div_le_iff: "(m + 511) div 512 \<le> n \<longleftrightarrow> m \<le> 512 * (n :: nat)"
proof
  assume "m \<le> 512 * n"
  then have "(m + 511) div 512 \<le> (512 * n + 511) div 512" by (intro div_le_mono) simp
  then show "(m + 511) div 512 \<le> n" by simp
next
  assume "(m + 511) div 512 \<le> n"
  moreover have "512 * ((m + 511) div 512) + (m + 511) mod 512 = m + 511" by (rule mult_div_mod_eq)
  moreover have "(m + 511) mod 512 < 512" by simp
  ultimately show "m \<le> 512 * n" by linarith
qed

lemma wanted_le:
  assumes "512 * n < 2 ^ 32" and "0 < n"
  shows "mx \<le> of_nat (512 * n) \<longleftrightarrow> wanted mx \<le> n"
proof -
  have "unat (of_nat (512 * n) :: u32) = 512 * n" by (rule unat_of_nat_small) (use assms in simp)
  then have "mx \<le> of_nat (512 * n) \<longleftrightarrow> unat mx \<le> 512 * n" by (simp only: word_le_nat_alt)
  also have "\<dots> \<longleftrightarrow> (unat mx + 511) div 512 \<le> n" using div_le_iff [of "unat mx" n] by simp
  also have "\<dots> \<longleftrightarrow> wanted mx \<le> n" using assms(2) by (auto simp: wanted_def)
  finally show ?thesis .
qed

context block_device
begin

lemma read_sectors:
  assumes "good d" and "\<forall>s\<in>set ss. lba + of_nat s < 2 ^ 28" and "k < wanted mx"
    and "512 * (k + min (length ss) (wanted mx - k)) \<le> length buf" and "length buf < 2 ^ 32"
  defines "buf' \<equiv> put_sectors buf k (map (\<lambda>s. sectors d (lba + of_nat s)) (take (wanted mx - k) ss))"
  shows "\<exists>d'. for_until (read_step D lba mx) ss (buf, of_nat (512 * k), d) =
     Some (if wanted mx \<le> k + length ss then Inl (0, buf', d') else Inr (buf', of_nat (512 * (k + length ss)), d')) \<and>
     good d' \<and> sectors d' = sectors d"
  using assms(1-5) unfolding buf'_def
proof (induction ss arbitrary: buf k d)
  case Nil
  then show ?case by simp
next
  case (Cons s ss)
  let ?b = "put_sectors buf k [sectors d (lba + of_nat s)]"
  have "1 \<le> min (length (s # ss)) (wanted mx - k)" using Cons.prems(3) by simp
  then have "512 * (k + 1) \<le> 512 * (k + min (length (s # ss)) (wanted mx - k))" by (intro mult_le_mono2 add_left_mono)
  with Cons.prems(4) have fits: "512 * (k + 1) \<le> length buf" by (rule order_trans [rotated])
  have len: "length (sectors d (lba + of_nat s)) = 512" using Cons.prems(1) by (rule sector_length)
  have bw: "unat (of_nat (512 * k) :: u32) = 512 * k"
    by (rule unat_of_nat_small) (use fits Cons.prems(5) in simp)
  obtain d1 where d1: "ata_read_sector D (lba + of_nat s) (512 * k) buf d = Some (0, ?b, d1)" "good d1" "sectors d1 = sectors d"
    using read_law [of d "lba + of_nat s" "512 * k" buf] Cons.prems(1,2) fits by (auto simp: put_sectors_def add.commute)
  have next_bw: "of_nat (512 * k) + 512 = (of_nat (512 * (k + 1)) :: u32)" by simp
  have stop: "mx \<le> of_nat (512 * (k + 1)) \<longleftrightarrow> wanted mx \<le> k + 1"
    by (rule wanted_le) (use fits Cons.prems(5) in simp_all)
  show ?case
  proof (cases "wanted mx \<le> k + 1")
    case True
    then have "wanted mx - k = 1" using Cons.prems(3) by simp
    then show ?thesis using d1 True stop by (simp add: read_step_def bw next_bw Let_def del: of_nat_mult of_nat_Suc of_nat_add)
  next
    case False
    have tk: "take (wanted mx - k) (s # ss) = s # take (wanted mx - (k + 1)) ss"
      using Cons.prems(3) by (simp add: take_Cons')
    have "k + 1 + min (length ss) (wanted mx - (k + 1)) = k + min (length (s # ss)) (wanted mx - k)"
      using False by (simp add: min_def) linarith
    then have "512 * (k + 1 + min (length ss) (wanted mx - (k + 1))) \<le> length ?b"
      using Cons.prems(4) put_sectors_one [OF len fits] by (simp only:)
    then obtain d' where "for_until (read_step D lba mx) ss (?b, of_nat (512 * (k + 1)), d1) =
       Some (if wanted mx \<le> k + 1 + length ss
         then Inl (0, put_sectors ?b (k + 1) (map (\<lambda>s. sectors d1 (lba + of_nat s)) (take (wanted mx - (k + 1)) ss)), d')
         else Inr (put_sectors ?b (k + 1) (map (\<lambda>s. sectors d1 (lba + of_nat s)) (take (wanted mx - (k + 1)) ss)),
           of_nat (512 * (k + 1 + length ss)), d'))" and g: "good d'" "sectors d' = sectors d1"
      using Cons.IH [of d1 "k + 1" ?b] d1(2) Cons.prems(2,5) False put_sectors_one [OF len fits]
      by (metis list.set_intros(2) linorder_not_le)
    then have rest: "for_until (read_step D lba mx) ss (?b, of_nat (512 * (k + 1)), d1) =
       Some (if wanted mx \<le> k + length (s # ss)
         then Inl (0, put_sectors buf k (map (\<lambda>s. sectors d (lba + of_nat s)) (take (wanted mx - k) (s # ss))), d')
         else Inr (put_sectors buf k (map (\<lambda>s. sectors d (lba + of_nat s)) (take (wanted mx - k) (s # ss))),
           of_nat (512 * (k + length (s # ss))), d'))"
      using put_sectors_cons [OF len fits] d1(3) unfolding tk by simp
    have "read_step D lba mx s (buf, of_nat (512 * k), d) = Some (Inr (?b, of_nat (512 * (k + 1)), d1))"
      using d1(1) False stop by (simp add: read_step_def bw next_bw Let_def del: of_nat_mult of_nat_Suc of_nat_add)
    then show ?thesis using rest g d1(3) by simp
  qed
qed

lemma read_cluster_sectors:
  assumes "good d" and "\<forall>lba\<in>set (cluster_sectors f c). lba < 2 ^ 28" and "k < wanted mx" and "length buf < 2 ^ 32"
    and "512 * (k + min (length (cluster_sectors f c)) (wanted mx - k)) \<le> length buf"
  defines "b \<equiv> put_sectors buf k (map (sectors d) (take (wanted mx - k) (cluster_sectors f c)))"
  obtains d1 where "read_cluster D f (cluster_to_lba f c) mx (buf, of_nat (512 * k), d) =
       Some (if wanted mx \<le> k + length (cluster_sectors f c) then Inl (0, b, d1)
         else Inr (b, of_nat (512 * (k + length (cluster_sectors f c))), d1))"
    and "good d1" and "sectors d1 = sectors d"
proof -
  let ?ss = "[0..<unat (sectors_per_cluster f)]"
  have first: "map (\<lambda>s. sectors d (cluster_to_lba f c + of_nat s)) (take m ?ss) = map (sectors d) (take m (cluster_sectors f c))" for m
    by (simp add: cluster_sectors_def take_map)
  have len: "length ?ss = length (cluster_sectors f c)" by (simp add: cluster_sectors_def)
  have addr: "\<forall>s\<in>set ?ss. cluster_to_lba f c + of_nat s < 2 ^ 28" using assms(2) by (auto simp: cluster_sectors_def)
  have "\<exists>d1. read_cluster D f (cluster_to_lba f c) mx (buf, of_nat (512 * k), d) =
       Some (if wanted mx \<le> k + length (cluster_sectors f c) then Inl (0, b, d1)
         else Inr (b, of_nat (512 * (k + length (cluster_sectors f c))), d1)) \<and> good d1 \<and> sectors d1 = sectors d"
    using read_sectors [OF assms(1) addr assms(3) _ assms(4)] assms(5) unfolding first len read_cluster_def b_def by blast
  then show thesis using that by blast
qed

text \<open>
  Reading a chain delivers its sectors in order, up to the number wanted; a chain longer than the
  safety counter admits is cut off without an error.
\<close>

lemma read_chain_sectors:
  assumes "good d" and "fat_start_lba f < 2 ^ 27" and "fat_chain f (sectors d) c cs"
    and "\<forall>lba\<in>set (data_sectors f cs). lba < 2 ^ 28" and "k < wanted mx" and "length buf < 2 ^ 32"
    and "512 * (k + min (length (data_sectors f (take n cs))) (wanted mx - k)) \<le> length buf"
  shows "\<exists>d'. read_chain D f n mx c (buf, of_nat (512 * k), d) =
     Some (0, put_sectors buf k (map (sectors d) (take (wanted mx - k) (data_sectors f (take n cs)))), d') \<and>
     good d' \<and> sectors d' = sectors d"
  using assms(1,3-7)
proof (induction n arbitrary: c cs buf k d)
  case 0
  then show ?case by (simp add: data_sectors_def)
next
  case (Suc n)
  show ?case
  proof (cases cs)
    case Nil
    then have "\<not> c < END_OF_CHAIN" using Suc.prems(2) by (simp add: not_less)
    then show ?thesis using Nil Suc.prems(1) by (simp add: data_sectors_def)
  next
    case (Cons x xs)
    then have c: "x = c" "c < END_OF_CHAIN" "fat_chain f (sectors d) (fat_value f (sectors d) c) xs"
      using Suc.prems(2) by auto
    let ?first = "cluster_sectors f c" and ?rest = "data_sectors f (take n xs)"
    have split: "data_sectors f (take (Suc n) cs) = ?first @ ?rest" by (simp add: data_sectors_def Cons c(1))
    have addr: "\<forall>lba\<in>set ?first. lba < 2 ^ 28" using Suc.prems(3) by (auto simp: data_sectors_def Cons c(1))
    have rest_addr: "\<forall>lba\<in>set (data_sectors f xs). lba < 2 ^ 28"
      using Suc.prems(3) by (auto simp: data_sectors_def Cons)
    have "k + min (length ?first) (wanted mx - k) \<le> k + min (length (?first @ ?rest)) (wanted mx - k)" by simp
    then have room: "512 * (k + min (length ?first) (wanted mx - k)) \<le> length buf"
      using Suc.prems(6) unfolding split by (metis (no_types, lifting) mult_le_mono2 order_trans)
    let ?b = "put_sectors buf k (map (sectors d) (take (wanted mx - k) ?first))"
    obtain d1 where d1: "read_cluster D f (cluster_to_lba f c) mx (buf, of_nat (512 * k), d) =
       Some (if wanted mx \<le> k + length ?first then Inl (0, ?b, d1) else Inr (?b, of_nat (512 * (k + length ?first)), d1))"
      "good d1" "sectors d1 = sectors d"
      using read_cluster_sectors [OF Suc.prems(1) addr Suc.prems(4,5) room] by blast
    show ?thesis
    proof (cases "wanted mx \<le> k + length ?first")
      case True
      then have "take (wanted mx - k) (?first @ ?rest) = take (wanted mx - k) ?first" by simp
      then show ?thesis using d1 True c(2) unfolding split by simp
    next
      case False
      then have tk: "take (wanted mx - k) ?first = ?first" by simp
      have lens: "\<forall>x\<in>set (map (sectors d) ?first). length x = 512" using sector_length [OF Suc.prems(1)] by simp
      have fits: "512 * (k + length (map (sectors d) ?first)) \<le> length buf" using room False by (simp add: min_def split: if_splits)
      have lb: "length ?b = length buf" using length_put_sectors [OF lens fits] tk by simp
      obtain d2 where d2: "fat_next_cluster D f c d1 = Some (fat_value f (sectors d) c, d2)" "good d2" "sectors d2 = sectors d"
        using next_value [OF d1(2) end_of_chain_less [OF c(2)] assms(2)] d1(3) by metis
      have "k + length ?first + min (length ?rest) (wanted mx - (k + length ?first)) =
          k + min (length (data_sectors f (take (Suc n) cs))) (wanted mx - k)"
        using False unfolding split by (simp add: min_def) linarith
      then have "512 * (k + length ?first + min (length ?rest) (wanted mx - (k + length ?first))) \<le> length ?b"
        using Suc.prems(6) lb by (simp only:)
      then obtain d' where d': "read_chain D f n mx (fat_value f (sectors d) c) (?b, of_nat (512 * (k + length ?first)), d2) =
         Some (0, put_sectors ?b (k + length ?first) (map (sectors d) (take (wanted mx - (k + length ?first)) ?rest)), d')"
        "good d'" "sectors d' = sectors d"
        using Suc.IH [of d2 "fat_value f (sectors d) c" xs "k + length ?first" ?b] d2 c(3) rest_addr False Suc.prems(5) lb by auto
      have "put_sectors ?b (k + length ?first) ys = put_sectors buf k (map (sectors d) ?first @ ys)" for ys
        using put_sectors_append [OF lens fits, of ys] tk by simp
      moreover have "take (wanted mx - k) (?first @ ?rest) = ?first @ take (wanted mx - (k + length ?first)) ?rest"
        using False by simp
      ultimately show ?thesis using d1(1) d2(1) d' False c(2) unfolding split by simp
    qed
  qed
qed

end

end
