(* ===== verification/Fat_Dir.thy ===== *)
theory Fat_Dir
  imports Fat_Volume
begin

text \<open>
  Directory slots and the file operations: what creating, finding, writing, reading and deleting a
  file does to the sectors of any block device, and the properties of the file system.
\<close>


section \<open>Directory slots\<close>

text \<open>The entry in a slot, and what the search for a file asks of it.\<close>

definition dir_entry :: "u8 list \<Rightarrow> nat \<Rightarrow> fat_entry" where
  "dir_entry b i = the (entry_at b (i * 32))"

definition slot_free :: "u8 list \<Rightarrow> nat \<Rightarrow> bool" where
  "slot_free b i \<longleftrightarrow> b ! (i * 32) = 0 \<or> b ! (i * 32) = 0xE5"

definition slot_named :: "u8 list \<Rightarrow> u8 list \<Rightarrow> u8 list \<Rightarrow> nat \<Rightarrow> bool" where
  "slot_named pn px b i \<longleftrightarrow> \<not> slot_free b i \<and>
     fe_attributes (dir_entry b i) \<noteq> 0x0F \<and> fe_attributes (dir_entry b i) AND 0x10 = 0 \<and>
     fe_attributes (dir_entry b i) AND 0x08 = 0 \<and>
     map to_upper (fe_name (dir_entry b i)) = pn \<and> map to_upper (fe_ext (dir_entry b i)) = px"

lemma entry_at_in:
  assumes "p + 32 \<le> length b"
  obtains e where "entry_at b p = Some e" and "fe_name e = take 8 (drop p b)" and "fe_ext e = take 3 (drop (p + 8) b)"
    and "fe_attributes e = b ! (p + 11)" and "get16 b (p + 20) = Some (cluster_high e)"
    and "get16 b (p + 26) = Some (cluster_low e)" and "get32 b (p + 28) = Some (file_size e)"
proof -
  obtain ct cd ad ch mt md cl where g: "get16 b (p + 14) = Some ct" "get16 b (p + 16) = Some cd" "get16 b (p + 18) = Some ad"
    "get16 b (p + 20) = Some ch" "get16 b (p + 22) = Some mt" "get16 b (p + 24) = Some md" "get16 b (p + 26) = Some cl"
    using get16_in [of "p + 14" b] get16_in [of "p + 16" b] get16_in [of "p + 18" b] get16_in [of "p + 20" b]
      get16_in [of "p + 22" b] get16_in [of "p + 24" b] get16_in [of "p + 26" b] assms by force
  obtain sz where "get32 b (p + 28) = Some sz" using get32_in [of "p + 28" b] assms by auto
  with g assms have "entry_at b p = Some \<lparr>fe_name = take 8 (drop p b), fe_ext = take 3 (drop (p + 8) b),
      fe_attributes = b ! (p + 11), fe_reserved = b ! (p + 12), fe_create_time_fine = b ! (p + 13), fe_create_time = ct,
      fe_create_date = cd, fe_access_date = ad, cluster_high = ch, fe_modify_time = mt, fe_modify_date = md,
      cluster_low = cl, file_size = sz\<rparr>" by (simp add: entry_at_def bytes_at_def)
  from that [OF this] show ?thesis using g \<open>get32 b (p + 28) = Some sz\<close> by simp
qed

lemma entry_at_same:
  assumes "length b' = length b" and "p + 32 \<le> length b" and "\<And>q. p \<le> q \<Longrightarrow> q < p + 32 \<Longrightarrow> b' ! q = b ! q"
  shows "entry_at b' p = entry_at b p"
proof -
  have g: "arr_get b' (p + k) = arr_get b (p + k)" if "k < 32" for k
    using that assms(1) assms(3) [of "p + k"] by (simp add: arr_get_def)
  have g16: "get16 b' (p + k) = get16 b (p + k)" if "k < 31" for k
    using that g [of k] g [of "k + 1"] by (simp add: get16_def add.assoc)
  have s: "bytes_at b' (p + k) n = bytes_at b (p + k) n" if "k + n \<le> 32" for k n
    using that assms by (auto simp: bytes_at_def intro!: nth_equalityI)
  have "get32 b' (p + 28) = get32 b (p + 28)"
    using assms by (intro get32_same) auto
  then show ?thesis
    using g16 [of 14] g16 [of 16] g16 [of 18] g16 [of 20] g16 [of 22] g16 [of 24] g16 [of 26]
      g [of 11] g [of 12] g [of 13] s [of 0 8] s [of 8 3]
    by (simp add: entry_at_def)
qed

lemma dir_entry_in:
  assumes "length b = 512" and "i < 16"
  shows "entry_at b (i * 32) = Some (dir_entry b i)" and "fe_name (dir_entry b i) = take 8 (drop (i * 32) b)"
    and "fe_ext (dir_entry b i) = take 3 (drop (i * 32 + 8) b)" and "fe_attributes (dir_entry b i) = b ! (i * 32 + 11)"
    and "get16 b (i * 32 + 20) = Some (cluster_high (dir_entry b i))"
    and "get16 b (i * 32 + 26) = Some (cluster_low (dir_entry b i))"
    and "get32 b (i * 32 + 28) = Some (file_size (dir_entry b i))"
proof -
  have "i * 32 + 32 \<le> length b" using assms by simp
  then obtain e where "entry_at b (i * 32) = Some e" "fe_name e = take 8 (drop (i * 32) b)" "fe_ext e = take 3 (drop (i * 32 + 8) b)"
    "fe_attributes e = b ! (i * 32 + 11)" "get16 b (i * 32 + 20) = Some (cluster_high e)"
    "get16 b (i * 32 + 26) = Some (cluster_low e)" "get32 b (i * 32 + 28) = Some (file_size e)"
    by (rule entry_at_in)
  then show "entry_at b (i * 32) = Some (dir_entry b i)" "fe_name (dir_entry b i) = take 8 (drop (i * 32) b)"
    "fe_ext (dir_entry b i) = take 3 (drop (i * 32 + 8) b)" "fe_attributes (dir_entry b i) = b ! (i * 32 + 11)"
    "get16 b (i * 32 + 20) = Some (cluster_high (dir_entry b i))" "get16 b (i * 32 + 26) = Some (cluster_low (dir_entry b i))"
    "get32 b (i * 32 + 28) = Some (file_size (dir_entry b i))"
    by (simp_all add: dir_entry_def)
qed

lemma first_name_byte: "length b = 512 \<Longrightarrow> i < 16 \<Longrightarrow> arr_get (fe_name (dir_entry b i)) 0 = Some (b ! (i * 32))"
  by (simp add: dir_entry_in)

lemma find_in_sector_spec:
  assumes "length b = 512" and "pad_field 8 name = Some pn" and "pad_field 3 ext = Some px"
  shows "find_in_sector name ext b =
    Some (case find (\<lambda>i. b ! (i * 32) = 0 \<or> slot_named pn px b i) [0..<16] of
            Some i \<Rightarrow> Inl (if b ! (i * 32) = 0 then None else Some i) | None \<Rightarrow> Inr ())"
  unfolding find_in_sector_def
  by (rule for_until_find)
     (use assms in \<open>auto simp: dir_entry_in(1) first_name_byte name_match_def slot_named_def slot_free_def\<close>)

lemma free_slot_spec:
  assumes "length b = 512"
  shows "free_slot b = Some (find (slot_free b) [0..<16])"
proof -
  have "for_until (\<lambda>i u. do { c \<leftarrow> arr_get b (i * 32); Some (if c = 0 \<or> c = 0xE5 then Inl i else Inr u) }) [0..<16] () =
     Some (case find (slot_free b) [0..<16] of Some i \<Rightarrow> Inl i | None \<Rightarrow> Inr ())"
    by (rule for_until_find) (use assms in \<open>auto simp: slot_free_def\<close>)
  then show ?thesis by (simp add: free_slot_def split: option.splits)
qed

section \<open>Names\<close>

lemma to_upper_idem [simp]: "to_upper (to_upper c) = to_upper c"
  by (auto simp: to_upper_def word_le_nat_alt unat_sub_if')

lemma to_upper_0 [simp]: "to_upper c = 0 \<longleftrightarrow> c = 0"
  by (auto simp: to_upper_def word_le_nat_alt unat_sub_if' unat_eq_0 [symmetric])

lemma pad_field_upper:
  assumes "pad_field n s = Some r"
  shows "length r = n" and "map to_upper r = r" and "0 \<notin> set r"
proof -
  have sp: "to_upper 0x20 = 0x20" by (simp add: to_upper_def)
  have "length r = n \<and> map to_upper r = r \<and> 0 \<notin> set r"
    using assms sp by (induction n s arbitrary: r rule: pad_field.induct) (auto split: if_splits Option.bind_splits)
  then show "length r = n" "map to_upper r = r" "0 \<notin> set r" by blast+
qed

section \<open>Filling a slot\<close>

lemma fill_loop:
  assumes "p + length xs \<le> length b" and "n = length xs" and "\<And>k b. k < n \<Longrightarrow> F k b = arr_set b (p + k) (xs ! k)"
  shows "for_each F [0..<n] b = Some (take p b @ xs @ drop (p + length xs) b)"
proof -
  let ?g = "\<lambda>i. take p b @ take i xs @ drop (p + i) b"
  have "for_each F [0..<n] (?g 0) = Some (?g n)"
  proof (rule for_each_upt)
    fix i assume i: "i < n"
    then have "drop (p + i) b = b ! (p + i) # drop (p + Suc i) b" using assms(1,2) by (simp add: Cons_nth_drop_Suc)
    then show "F i (?g i) = Some (?g (Suc i))"
      using i assms by (simp add: list_update_append take_Suc_conv_app_nth del: drop_drop)
  qed
  then show ?thesis using assms(2) by simp
qed

definition new_entry :: "u8 list \<Rightarrow> u8 list \<Rightarrow> u32 \<Rightarrow> u8 list" where
  "new_entry pn px c = pn @ px @ [0x20, 0, 0, 0, 0, 0, 0, 0, 0, ucast (drop_bit 16 c), ucast (drop_bit 24 c), 0, 0, 0, 0,
     ucast c, ucast (drop_bit 8 c), 0, 0, 0, 0]"

lemma fill_slot_spec:
  assumes "p + 32 \<le> length b" and "pad_field 8 name = Some pn" and "pad_field 3 ext = Some px"
  shows "fill_slot b p name ext = Some (take p b @ pn @ px @ 0x20 # replicate 20 0 @ drop (p + 32) b)"
proof -
  have lp: "length pn = 8" "length px = 3" using pad_field_upper(1) assms(2,3) by blast+
  have lt: "length (take p b) = p" using assms(1) by simp
  have 1: "for_each (\<lambda>n b. arr_set b (p + n) 0) [0..<32] b = Some (take p b @ replicate 32 0 @ drop (p + 32) b)"
    using fill_loop [of p "replicate 32 0" b 32 "\<lambda>n b. arr_set b (p + n) 0"] assms(1) by simp
  have 2: "for_each (\<lambda>n b. do { c \<leftarrow> arr_get pn n; arr_set b (p + n) c }) [0..<8] (take p b @ replicate 32 0 @ drop (p + 32) b) =
     Some (take p b @ pn @ replicate 24 0 @ drop (p + 32) b)"
    by (subst fill_loop [where xs = pn and p = p]) (use lp lt in \<open>simp_all\<close>)
  have 3: "for_each (\<lambda>n b. do { c \<leftarrow> arr_get px n; arr_set b (p + 8 + n) c }) [0..<3] (take p b @ pn @ replicate 24 0 @ drop (p + 32) b) =
     Some (take p b @ pn @ px @ replicate 21 0 @ drop (p + 32) b)"
    by (subst fill_loop [where xs = px and p = "p + 8"]) (use lp lt in \<open>simp_all\<close>)
  have r: "replicate 21 (0 :: u8) = 0 # replicate 20 0" by (simp add: numeral_eq_Suc)
  show ?thesis unfolding fill_slot_def 1 assms(2,3) bind.bind_lunit 2 3
    using lp lt by (simp add: r list_update_append arr_set_def)
qed

lemma low_byte: "ucast ((x :: u32) AND 0xFF) = (ucast x :: u8)"
proof (rule bit_word_eqI)
  fix n assume n: "n < LENGTH(8)"
  then show "bit (ucast (x AND 0xFF) :: u8) n = bit (ucast x :: u8) n" by (simp add: bit_simps bit_byte_masks)
qed

lemma store_cluster_spec:
  assumes "length pn = 8" and "length px = 3" and "length L = p"
  shows "store_cluster (L @ pn @ px @ 0x20 # replicate 20 0 @ R) p c = Some (L @ new_entry pn px c @ R)"
proof -
  obtain x0 x1 x2 x3 x4 x5 x6 x7 where pn: "pn = [x0, x1, x2, x3, x4, x5, x6, x7]"
    using assms(1) by (auto simp: numeral_eq_Suc length_Suc_conv)
  obtain y0 y1 y2 where px: "px = [y0, y1, y2]" using assms(2) by (auto simp: numeral_eq_Suc length_Suc_conv)
  have r: "replicate 20 (0 :: u8) = [0, 0, 0, 0, 0, 0, 0, 0, 0, 0, 0, 0, 0, 0, 0, 0, 0, 0, 0, 0]"
    by (simp add: numeral_eq_Suc)
  show ?thesis
    unfolding store_cluster_def pn px r new_entry_def low_byte
    by (simp add: arr_set_def list_update_append assms(3) nth_Cons_numeral)
qed

lemma new_entry_fields:
  fixes b pn px :: "u8 list" and c :: u32
  assumes "length b = 512" and "i < 16" and "length pn = 8" and "length px = 3"
  defines "b' \<equiv> take (i * 32) b @ new_entry pn px c @ drop (i * 32 + 32) b"
  shows "length b' = 512" and "b' ! (i * 32) = hd pn" and "fe_name (dir_entry b' i) = pn" and "fe_ext (dir_entry b' i) = px"
    and "fe_attributes (dir_entry b' i) = 0x20" and "entry_cluster (dir_entry b' i) = c" and "file_size (dir_entry b' i) = 0"
proof -
  have l: "length (take (i * 32) b) = i * 32" and ne: "length (new_entry pn px c) = 32"
    using assms by (simp_all add: new_entry_def)
  show len: "length b' = 512" using assms(1,2) ne by (simp add: b'_def)
  obtain x0 x1 x2 x3 x4 x5 x6 x7 where pn: "pn = [x0, x1, x2, x3, x4, x5, x6, x7]"
    using assms(3) by (auto simp: numeral_eq_Suc length_Suc_conv)
  obtain y0 y1 y2 where px: "px = [y0, y1, y2]" using assms(4) by (auto simp: numeral_eq_Suc length_Suc_conv)
  have at: "b' ! (i * 32 + k) = new_entry pn px c ! k" if "k < 32" for k using that l ne by (simp add: b'_def nth_append)
  have dr: "drop (i * 32) b' = new_entry pn px c @ drop (i * 32 + 32) b" using l by (simp add: b'_def)
  note f = dir_entry_in [OF len assms(2)]
  show "b' ! (i * 32) = hd pn" using at [of 0] by (simp add: new_entry_def pn)
  show "fe_name (dir_entry b' i) = pn" using f(2) dr by (simp add: new_entry_def assms(3))
  show "fe_ext (dir_entry b' i) = px" using f(3) dr assms(3,4) by (simp add: new_entry_def add.commute flip: drop_drop)
  show "fe_attributes (dir_entry b' i) = 0x20" using f(4) at [of 11] by (simp add: new_entry_def nth_append assms(3,4))
  have bytes: "b' ! (i * 32 + 20) = ucast (drop_bit 16 c)" "b' ! (i * 32 + 21) = ucast (drop_bit 24 c)"
    "b' ! (i * 32 + 26) = ucast c" "b' ! (i * 32 + 27) = ucast (drop_bit 8 c)" "b' ! (i * 32 + 28) = 0"
    "b' ! (i * 32 + 29) = 0" "b' ! (i * 32 + 30) = 0" "b' ! (i * 32 + 31) = 0"
    using at [of 20] at [of 21] at [of 26] at [of 27] at [of 28] at [of 29] at [of 30] at [of 31]
    by (simp_all add: new_entry_def pn px)
  have s: "Suc (i * 32 + 20) = i * 32 + 21" "Suc (i * 32 + 26) = i * 32 + 27" "Suc (i * 32 + 28) = i * 32 + 29"
    "Suc (i * 32 + 30) = i * 32 + 31" "Suc (Suc (i * 32 + 28)) = i * 32 + 30" by simp_all
  have u: "ucast (ucast (drop_bit 8 (ucast v :: u16)) :: u8) = (ucast (ucast (drop_bit 8 v) :: u8) :: u16)" for v :: u32
    by (rule bit_word_eqI) (auto simp: bit_simps)
  have ul: "ucast (ucast v :: u16) = (ucast v :: u8)" for v :: u32
    by (rule bit_word_eqI) (auto simp: bit_simps)
  have hi: "get16 b' (i * 32 + 20) = Some (ucast (drop_bit 16 c))"
    using len assms(2) join_bytes [of "ucast (drop_bit 16 c)"] u [of "drop_bit 16 c"]
    by (simp add: get16_def bytes s ul)
  have lo: "get16 b' (i * 32 + 26) = Some (ucast c)"
    using len assms(2) join_bytes [of "ucast c"] u [of c] by (simp add: get16_def bytes s ul)
  show "entry_cluster (dir_entry b' i) = c" using f(5,6) hi lo join_halves [of c] by (simp add: entry_cluster_def or.commute)
  have "get16 b' (i * 32 + 28) = Some 0" "get16 b' (i * 32 + 30) = Some 0"
    using len assms(2) by (simp_all add: get16_def bytes s)
  then have "get32 b' (i * 32 + 28) = Some 0" by (simp add: get32_def add.commute [of "i * 32"])
  then show "file_size (dir_entry b' i) = 0" using f(7) by simp
qed

section \<open>The first sector of the directory\<close>

definition dir_lba :: "fat \<Rightarrow> u32" where
  "dir_lba f = cluster_to_lba f (current_cluster f)"

text \<open>A volume whose directory can be read: its table, current directory and cluster size.\<close>

definition dir_ok :: "fat \<Rightarrow> bool" where
  "dir_ok f \<longleftrightarrow> fat_start_lba f < 2 ^ 27 \<and> current_cluster f < END_OF_CHAIN \<and> sectors_per_cluster f \<noteq> 0 \<and> dir_lba f < 2 ^ 28"

context block_device
begin

lemma find_file_first_sector:
  assumes "good d" and "dir_ok f"
  obtains d1 where "good d1" and "sectors d1 = sectors d"
    and "\<And>i. find_in_sector name ext (sectors d (dir_lba f)) = Some (Inl (Some i)) \<Longrightarrow> i < 16 \<Longrightarrow>
      fat32_find_file D f name ext d = Some (Some (dir_entry (sectors d (dir_lba f)) i, dir_lba f, of_nat (i * 32)), d1)"
    and "find_in_sector name ext (sectors d (dir_lba f)) = Some (Inl None) \<Longrightarrow> fat32_find_file D f name ext d = Some (None, d1)"
proof -
  obtain d1 where d1: "ata_read_sector D (dir_lba f) 0 (replicate 512 0) d = Some (0, sectors d (dir_lba f), d1)" "good d1"
    "sectors d1 = sectors d"
    using read_whole [OF assms(1)] assms(2) by (metis dir_ok_def)
  have len: "length (sectors d (dir_lba f)) = 512" using assms(1) by (rule sector_length)
  have "0 < unat (sectors_per_cluster f)" using assms(2) by (simp add: dir_ok_def unat_gt_0)
  then have upt: "[0..<unat (sectors_per_cluster f)] = 0 # [1..<unat (sectors_per_cluster f)]" by (simp add: upt_conv_Cons)
  have cur: "current_cluster f < END_OF_CHAIN" using assms(2) by (simp add: dir_ok_def)
  show ?thesis
  proof (rule that [OF d1(2,3)])
    fix i assume "find_in_sector name ext (sectors d (dir_lba f)) = Some (Inl (Some i))" "i < 16"
    then show "fat32_find_file D f name ext d = Some (Some (dir_entry (sectors d (dir_lba f)) i, dir_lba f, of_nat (i * 32)), d1)"
      using d1(1) cur dir_entry_in(1) [OF len] unfolding fat32_find_file_def
      by (subst find_file_from.simps) (simp add: find_in_cluster_def upt flip: dir_lba_def)
  next
    assume "find_in_sector name ext (sectors d (dir_lba f)) = Some (Inl None)"
    then show "fat32_find_file D f name ext d = Some (None, d1)"
      using d1(1) cur unfolding fat32_find_file_def
      by (subst find_file_from.simps) (simp add: find_in_cluster_def upt flip: dir_lba_def)
  qed
qed

text \<open>Creating a file in slot \<open>i\<close> with the first free cluster \<open>c\<close>.\<close>

lemma create_file_effect:
  assumes "good d" and "dir_ok f" and "pad_field 8 name = Some pn" and "pad_field 3 ext = Some px"
    and "find (slot_free (sectors d (dir_lba f))) [0..<16] = Some i"
    and "first_free f (sectors d) 2 c" and "c \<noteq> 0" and "fat_sector f c \<noteq> dir_lba f"
  obtains d' where "fat32_create_file D f name ext d = Some (0, d')" and "good d'"
    and "sectors d' (dir_lba f) = take (i * 32) (sectors d (dir_lba f)) @ new_entry pn px c @ drop (i * 32 + 32) (sectors d (dir_lba f))"
    and "\<And>x. x < 2 ^ 28 \<Longrightarrow> fat_sector f x \<noteq> dir_lba f \<Longrightarrow>
       fat_value f (sectors d') x = (if x = c then 0x0FFFFFFF else fat_value f (sectors d) x)"
    and "\<And>lba. lba \<noteq> fat_sector f c \<Longrightarrow> lba \<noteq> dir_lba f \<Longrightarrow> sectors d' lba = sectors d lba"
proof -
  let ?b = "sectors d (dir_lba f)"
  have ok: "fat_start_lba f < 2 ^ 27" "dir_lba f < 2 ^ 28" using assms(2) by (simp_all add: dir_ok_def)
  have len: "length ?b = 512" using assms(1) by (rule sector_length)
  have i: "i < 16" using assms(5) by (simp add: find_upt_Some)
  have lp: "length pn = 8" "length px = 3" using pad_field_upper(1) assms(3,4) by blast+
  obtain d1 where d1: "ata_read_sector D (dir_lba f) 0 (replicate 512 0) d = Some (0, ?b, d1)" "good d1" "sectors d1 = sectors d"
    using read_whole [OF assms(1) ok(2)] .
  obtain c' d2 where d2: "find_free_from D f 2 d1 = Some (c', d2)" "good d2" "sectors d2 = sectors d1" "first_free f (sectors d1) 2 c'"
    using find_free_from_least [OF d1(2) ok(1)] .
  have "c' = c" using first_free_unique d2(4) assms(6) d1(3) by metis
  have c: "c < 2 ^ 28" using assms(6,7) end_of_chain_less by (auto simp: first_free_def)
  obtain d3 where d3: "fat_set_cluster D f c 0x0FFFFFFF d2 = Some d3" "good d3"
    "\<And>x. x < 2 ^ 28 \<Longrightarrow> fat_value f (sectors d3) x = (if x = c then 0x0FFFFFFF AND 0x0FFFFFFF else fat_value f (sectors d2) x)"
    "\<And>lba. lba \<noteq> fat_sector f c \<Longrightarrow> sectors d3 lba = sectors d2 lba"
    using set_value [OF d2(2) c ok(1), of "0x0FFFFFFF"] by metis
  let ?b' = "take (i * 32) ?b @ new_entry pn px c @ drop (i * 32 + 32) ?b"
  have fill: "fill_slot ?b (i * 32) name ext = Some (take (i * 32) ?b @ pn @ px @ 0x20 # replicate 20 0 @ drop (i * 32 + 32) ?b)"
    by (rule fill_slot_spec) (use len i assms(3,4) in simp_all)
  have store: "store_cluster (take (i * 32) ?b @ pn @ px @ 0x20 # replicate 20 0 @ drop (i * 32 + 32) ?b) (i * 32) c = Some ?b'"
    by (rule store_cluster_spec) (use len i lp in simp_all)
  have len': "length ?b' = 512" using new_entry_fields(1) [OF len i lp] .
  obtain d4 where d4: "ata_write_sector D (dir_lba f) ?b' d3 = Some (0, d4)" "good d4" "sectors d4 = (sectors d3)(dir_lba f := ?b')"
    using write_law [OF d3(2) ok(2) len'] by blast
  show ?thesis
  proof (rule that)
    show "fat32_create_file D f name ext d = Some (0, d4)"
      using d1(1) d2(1) d3(1) d4(1) fill store assms(5,7) \<open>c' = c\<close>
      by (simp add: fat32_create_file_def fat32_find_free_cluster_def free_slot_spec [OF len] flip: dir_lba_def)
    show "good d4" by fact
    show "sectors d4 (dir_lba f) = ?b'" using d4(3) by simp
    fix x :: u32 assume x: "x < 2 ^ 28" "fat_sector f x \<noteq> dir_lba f"
    then have "fat_value f (sectors d4) x = fat_value f (sectors d3) x" using d4(3) by (simp add: fat_value_def)
    then show "fat_value f (sectors d4) x = (if x = c then 0x0FFFFFFF else fat_value f (sectors d) x)"
      using d3(3) [OF x(1)] d2(3) d1(3) by simp
  next
    fix lba assume "lba \<noteq> fat_sector f c" "lba \<noteq> dir_lba f"
    then show "sectors d4 lba = sectors d lba" using d4(3) d3(4) d2(3) d1(3) by simp
  qed
qed

end

text \<open>Afterwards the search finds the new entry.\<close>

lemma find_new_entry:
  fixes b pn px :: "u8 list" and c :: u32
  assumes "length b = 512" and "pad_field 8 name = Some pn" and "pad_field 3 ext = Some px" and "hd pn \<noteq> 0xE5"
    and "find (slot_free b) [0..<16] = Some i" and "\<And>j. j < i \<Longrightarrow> \<not> slot_named pn px b j"
  defines "b' \<equiv> take (i * 32) b @ new_entry pn px c @ drop (i * 32 + 32) b"
  shows "find_in_sector name ext b' = Some (Inl (Some i))"
proof -
  have i: "i < 16" and free: "slot_free b i" "\<And>j. j < i \<Longrightarrow> \<not> slot_free b j" using assms(5) by (auto simp: find_upt_Some)
  note pn = pad_field_upper [OF assms(2)] and px = pad_field_upper [OF assms(3)]
  note ne = new_entry_fields [OF assms(1) i pn(1) px(1), of c, folded b'_def]
  have hd: "hd pn \<noteq> 0" using pn(1,3) by (metis hd_in_set length_0_conv zero_neq_numeral)
  have at_i: "slot_named pn px b' i" using ne(2-5) hd assms(4) pn(2) px(2) by (simp add: slot_named_def slot_free_def)
  have same: "take (i * 32) b' = take (i * 32) b" using i assms(1) by (simp add: b'_def)
  have "\<not> (b' ! (j * 32) = 0 \<or> slot_named pn px b' j)" if j: "j < i" for j
  proof -
    have nth: "b' ! q = b ! q" if "q < i * 32" for q using same that by (metis nth_take)
    have "entry_at b' (j * 32) = entry_at b (j * 32)"
      by (rule entry_at_same) (use ne(1) assms(1) i j nth in simp_all)
    then have "slot_named pn px b' j = slot_named pn px b j"
      using nth [of "j * 32"] j by (simp add: slot_named_def slot_free_def dir_entry_def)
    then show ?thesis using assms(6) [OF j] free(2) [OF j] nth [of "j * 32"] j by (simp add: slot_free_def)
  qed
  then have "find (\<lambda>i. b' ! (i * 32) = 0 \<or> slot_named pn px b' i) [0..<16] = Some i"
    using i at_i by (simp add: find_upt_Some)
  then show ?thesis using find_in_sector_spec [OF ne(1) assms(2,3)] ne(2) hd by simp
qed

section \<open>The search through a directory\<close>

text \<open>
  The specification of the search: the slots of a directory in order - its sectors, 16 slots each - end
  at the first whose name starts with 0; of those before, the first one that carries the name.
\<close>

definition find_slot :: "u8 list \<Rightarrow> u8 list \<Rightarrow> (u32 \<Rightarrow> u8 list) \<Rightarrow> u32 list \<Rightarrow> (u32 \<times> nat) option" where
  "find_slot pn px secs lbas =
     find (\<lambda>(lba, i). slot_named pn px (secs lba) i) (takeWhile (\<lambda>(lba, i). secs lba ! (i * 32) \<noteq> 0) (List.product lbas [0..<16]))"

text \<open>Where the loops stop: at the end mark or at the name.\<close>

definition dir_stop :: "u8 list \<Rightarrow> u8 list \<Rightarrow> (u32 \<Rightarrow> u8 list) \<Rightarrow> u32 list \<Rightarrow> (u32 \<times> nat) option" where
  "dir_stop pn px secs lbas = find (\<lambda>(lba, i). secs lba ! (i * 32) = 0 \<or> slot_named pn px (secs lba) i) (List.product lbas [0..<16])"

definition search_result :: "(u32 \<Rightarrow> u8 list) \<Rightarrow> u32 \<times> nat \<Rightarrow> (fat_entry \<times> u32 \<times> u32) option" where
  "search_result secs = (\<lambda>(lba, i). if secs lba ! (i * 32) = 0 then None else Some (dir_entry (secs lba) i, lba, of_nat (i * 32)))"

lemma find_append: "find P (xs @ ys) = (case find P xs of None \<Rightarrow> find P ys | Some x \<Rightarrow> Some x)"
  by (induction xs) auto

lemma find_map_eq: "find P (map f xs) = map_option f (find (\<lambda>x. P (f x)) xs)"
  by (induction xs) auto

lemma find_takeWhile: "find P (takeWhile Q xs) = (case find (\<lambda>x. \<not> Q x \<or> P x) xs of Some x \<Rightarrow> if Q x then Some x else None | None \<Rightarrow> None)"
  by (induction xs) auto

lemma product_append: "List.product (xs @ ys) zs = List.product xs zs @ List.product ys zs"
  by (induction xs) auto

lemma dir_stop_append: "dir_stop pn px secs (xs @ ys) = (case dir_stop pn px secs xs of None \<Rightarrow> dir_stop pn px secs ys | Some x \<Rightarrow> Some x)"
  by (simp only: dir_stop_def product_append find_append)

lemma dir_stop_Nil [simp]: "dir_stop pn px secs [] = None"
  by (simp add: dir_stop_def)

lemma dir_stop_Cons:
  "dir_stop pn px secs (lba # lbas) = (case find (\<lambda>i. secs lba ! (i * 32) = 0 \<or> slot_named pn px (secs lba) i) [0..<16] of
     Some i \<Rightarrow> Some (lba, i) | None \<Rightarrow> dir_stop pn px secs lbas)"
  by (simp add: dir_stop_def find_append find_map_eq split: option.split)

lemma find_slot_stop:
  "Option.bind (dir_stop pn px secs lbas) (search_result secs) =
     map_option (\<lambda>(lba, i). (dir_entry (secs lba) i, lba, of_nat (i * 32))) (find_slot pn px secs lbas)"
  by (auto simp: find_slot_def dir_stop_def find_takeWhile search_result_def case_prod_unfold split: option.splits)

lemma find_slot_Some:
  assumes "find_slot pn px secs lbas = Some (lba, i)"
  shows "lba \<in> set lbas" and "i < 16" and "slot_named pn px (secs lba) i"
proof -
  have "(lba, i) \<in> set (takeWhile (\<lambda>(lba, i). secs lba ! (i * 32) \<noteq> 0) (List.product lbas [0..<16]))" "slot_named pn px (secs lba) i"
    using assms by (auto simp: find_slot_def find_Some_iff in_set_conv_nth)
  then show "lba \<in> set lbas" "i < 16" "slot_named pn px (secs lba) i"
    by (auto dest!: set_takeWhileD)
qed

context block_device
begin

lemma find_in_cluster_spec:
  assumes "good d" and "pad_field 8 name = Some pn" and "pad_field 3 ext = Some px"
    and "\<forall>y\<in>set (cluster_sectors f c). y < 2 ^ 28"
  shows "\<exists>d'. find_in_cluster D f name ext (cluster_to_lba f c) d =
      Some (case dir_stop pn px (sectors d) (cluster_sectors f c) of Some x \<Rightarrow> Inl (search_result (sectors d) x, d') | None \<Rightarrow> Inr d') \<and>
    good d' \<and> sectors d' = sectors d"
proof -
  let ?lba = "cluster_to_lba f c"
  let ?body = "\<lambda>s d. do {
     (err, buf, d) \<leftarrow> ata_read_sector D (?lba + of_nat s) 0 (replicate 512 0) d;
     if err \<noteq> 0 then Some (Inl (None, d))
     else do {
       r \<leftarrow> find_in_sector name ext buf;
       case r of
         Inl None \<Rightarrow> Some (Inl (None, d))
       | Inl (Some i) \<Rightarrow> do {
           e \<leftarrow> entry_at buf (i * 32);
           Some (Inl (Some (e, ?lba + of_nat s, of_nat (i * 32) :: u32), d)) }
       | Inr _ \<Rightarrow> Some (Inr d) } }"
  have "\<exists>d'. for_until ?body ss d =
      Some (case dir_stop pn px (sectors d) (map (\<lambda>s. ?lba + of_nat s) ss) of Some x \<Rightarrow> Inl (search_result (sectors d) x, d') | None \<Rightarrow> Inr d') \<and>
    good d' \<and> sectors d' = sectors d" if "\<forall>s\<in>set ss. ?lba + of_nat s < 2 ^ 28" for ss
    using assms(1) that
  proof (induction ss arbitrary: d)
    case Nil
    then show ?case by simp
  next
    case (Cons s ss)
    let ?b = "sectors d (?lba + of_nat s)"
    obtain d1 where d1: "ata_read_sector D (?lba + of_nat s) 0 (replicate 512 0) d = Some (0, ?b, d1)" "good d1" "sectors d1 = sectors d"
      using read_whole [OF Cons.prems(1)] Cons.prems(2) by (metis list.set_intros(1))
    have len: "length ?b = 512" using Cons.prems(1) by (rule sector_length)
    note fs = find_in_sector_spec [OF len assms(2,3)]
    show ?case
    proof (cases "find (\<lambda>i. ?b ! (i * 32) = 0 \<or> slot_named pn px ?b i) [0..<16]")
      case None
      have "?body s d = Some (Inr d1)" using d1(1) fs None by simp
      moreover obtain d' where "for_until ?body ss d1 =
          Some (case dir_stop pn px (sectors d1) (map (\<lambda>s. ?lba + of_nat s) ss) of Some x \<Rightarrow> Inl (search_result (sectors d1) x, d') | None \<Rightarrow> Inr d')"
        "good d'" "sectors d' = sectors d1" using Cons.IH [OF d1(2)] Cons.prems(2) by auto
      ultimately show ?thesis using None d1(3) by (intro exI [of _ d']) (simp add: dir_stop_Cons split: option.split)
    next
      case (Some i)
      then have i: "i < 16" by (simp add: find_upt_Some)
      have "?body s d = Some (Inl (search_result (sectors d) (?lba + of_nat s, i), d1))"
        using d1(1) fs Some dir_entry_in(1) [OF len i] by (simp add: search_result_def)
      then show ?thesis using Some d1(2,3) by (simp add: dir_stop_Cons)
    qed
  qed
  from this [of "[0..<unat (sectors_per_cluster f)]"] show ?thesis
    using assms(4) by (simp add: find_in_cluster_def cluster_sectors_def)
qed

text \<open>On a directory whose chain ends the search returns the first slot with the name before the end mark.\<close>

lemma find_file_spec:
  assumes "good d" and "fat_start_lba f < 2 ^ 27" and "pad_field 8 name = Some pn" and "pad_field 3 ext = Some px"
    and "fat_chain f (sectors d) (current_cluster f) cs" and "\<forall>y\<in>set (data_sectors f cs). y < 2 ^ 28"
  obtains d' where "fat32_find_file D f name ext d =
      Some (map_option (\<lambda>(lba, i). (dir_entry (sectors d lba) i, lba, of_nat (i * 32))) (find_slot pn px (sectors d) (data_sectors f cs)), d')"
    and "good d'" and "sectors d' = sectors d"
proof -
  have "\<exists>d'. find_file_from D f name ext c d = Some (Option.bind (dir_stop pn px (sectors d) (data_sectors f cs)) (search_result (sectors d)), d') \<and>
      good d' \<and> sectors d' = sectors d"
    if "fat_chain f (sectors d) c cs" for c
    using assms(1,6) that
  proof (induction cs arbitrary: c d)
    case Nil
    then have "\<not> c < END_OF_CHAIN" by (simp add: not_less)
    then have "find_file_from D f name ext c d = Some (None, d)" by (subst find_file_from.simps) simp
    then show ?case using Nil by (simp add: data_sectors_def)
  next
    case (Cons x xs)
    then have c: "x = c" "c < END_OF_CHAIN" "fat_chain f (sectors d) (fat_value f (sectors d) c) xs" by auto
    have split: "data_sectors f (x # xs) = cluster_sectors f c @ data_sectors f xs" by (simp add: data_sectors_def c(1))
    obtain d1 where d1: "find_in_cluster D f name ext (cluster_to_lba f c) d =
        Some (case dir_stop pn px (sectors d) (cluster_sectors f c) of Some x \<Rightarrow> Inl (search_result (sectors d) x, d1) | None \<Rightarrow> Inr d1)"
      "good d1" "sectors d1 = sectors d"
      using find_in_cluster_spec [OF Cons.prems(1) assms(3,4), of f c] Cons.prems(2) unfolding split by auto
    show ?case
    proof (cases "dir_stop pn px (sectors d) (cluster_sectors f c)")
      case (Some y)
      then have "find_file_from D f name ext c d = Some (search_result (sectors d) y, d1)"
        using c(2) d1(1) by (subst find_file_from.simps) simp
      then show ?thesis using d1(2,3) Some unfolding split by (simp add: dir_stop_append)
    next
      case None
      obtain d2 where d2: "fat_next_cluster D f c d1 = Some (fat_value f (sectors d) c, d2)" "good d2" "sectors d2 = sectors d"
        using next_value [OF d1(2) end_of_chain_less [OF c(2)] assms(2)] d1(3) by metis
      obtain d' where "find_file_from D f name ext (fat_value f (sectors d) c) d2 =
          Some (Option.bind (dir_stop pn px (sectors d2) (data_sectors f xs)) (search_result (sectors d2)), d')" "good d'" "sectors d' = sectors d2"
        using Cons.IH [OF d2(2), of "fat_value f (sectors d) c"] Cons.prems(2) c(3) d2(3) unfolding split by auto
      moreover have "find_file_from D f name ext c d = find_file_from D f name ext (fat_value f (sectors d) c) d2"
        using c(2) d1(1) d2(1) None by (subst find_file_from.simps) simp
      ultimately show ?thesis using None d2(3) unfolding split by (simp add: dir_stop_append)
    qed
  qed
  from this [OF assms(5)] show thesis using that unfolding fat32_find_file_def find_slot_stop by blast
qed

end

section \<open>Writing and deleting\<close>

text \<open>The sector \<open>fat32_write_file\<close> stores: the first 512 bytes of the data, padded with zeros.\<close>

definition first_block :: "u8 list \<Rightarrow> u32 \<Rightarrow> u8 list" where
  "first_block data sz = take (min (unat sz) 512) data @ replicate (512 - unat sz) 0"

lemma length_first_block: "min (unat sz) 512 \<le> length data \<Longrightarrow> length (first_block data sz) = 512"
  by (simp add: first_block_def)

context block_device
begin

lemma write_file_effect:
  assumes "good d" and "fat_start_lba f < 2 ^ 27" and "entry_cluster e \<noteq> 0" and "entry_cluster e < END_OF_CHAIN"
    and "cluster_to_lba f (entry_cluster e) < 2 ^ 28" and "0 < sz" and "min (unat sz) 512 \<le> length data"
  obtains d' where "fat32_write_file D f e sec off data sz d = Some (0, e, d')" and "good d'"
    and "sectors d' = (sectors d)(cluster_to_lba f (entry_cluster e) := first_block data sz)"
proof -
  let ?c = "entry_cluster e" and ?lba = "cluster_to_lba f (entry_cluster e)"
  let ?chunk = "if sz < 512 then sz else 512"
  have chunk: "unat ?chunk = min (unat sz) 512" by (simp add: word_less_nat_alt)
  have fill: "for_each (\<lambda>i b. do { x \<leftarrow> arr_get data i; arr_set b i x }) [0..<unat ?chunk] (replicate 512 0) = Some (first_block data sz)"
    unfolding chunk
    by (subst fill_loop [where xs = "take (min (unat sz) 512) data" and p = 0])
       (use assms(7) in \<open>auto simp: first_block_def min_def\<close>)
  obtain d1 where d1: "ata_write_sector D ?lba (first_block data sz) d = Some (0, d1)" "good d1" "sectors d1 = (sectors d)(?lba := first_block data sz)"
    using write_law [OF assms(1,5) length_first_block [OF assms(7)]] by blast
  obtain v d2 where d2: "fat_next_cluster D f ?c d1 = Some (v, d2)" "good d2" "sectors d2 = sectors d1"
    using next_value [OF d1(2) end_of_chain_less [OF assms(4)] assms(2)] by metis
  have not_in: "\<not> END_OF_CHAIN \<le> ?c" using assms(4) by (simp add: not_le)
  have "write_first_chunk D f ?c data sz d = Some (0, if ?chunk < sz then d2 else d1)"
    unfolding write_first_chunk_def Let_def fill bind.bind_lunit using d1(1) d2(1) not_in by simp
  then have "fat32_write_file D f e sec off data sz d = Some (0, e, if ?chunk < sz then d2 else d1)"
    using assms(3,6) unfolding fat32_write_file_def by (simp del: if_split)
  then show ?thesis by (rule that) (use d1 d2 in auto)
qed

lemma read_first_sector:
  assumes "good d" and "entry_cluster e < END_OF_CHAIN" and "cluster_to_lba f (entry_cluster e) < 2 ^ 28"
    and "sectors_per_cluster f \<noteq> 0" and "mx \<le> 512" and "length buf = 512"
  obtains d' where "fat32_read_file D f e buf mx d = Some (0, sectors d (cluster_to_lba f (entry_cluster e)), d')"
    and "good d'" and "sectors d' = sectors d"
proof -
  obtain d1 where d1: "ata_read_sector D (cluster_to_lba f (entry_cluster e)) 0 buf d =
      Some (0, sectors d (cluster_to_lba f (entry_cluster e)), d1)" "good d1" "sectors d1 = sectors d"
    using read_law [OF assms(1,3), of 0 buf] assms(6) by auto
  have "0 < unat (sectors_per_cluster f)" using assms(4) by (simp add: unat_gt_0)
  then have upt: "[0..<unat (sectors_per_cluster f)] = 0 # [1..<unat (sectors_per_cluster f)]" by (simp add: upt_conv_Cons)
  have "read_chain D f (Suc m) mx (entry_cluster e) (buf, 0, d) = Some (0, sectors d (cluster_to_lba f (entry_cluster e)), d1)" for m
    using d1(1) assms(2,5) by (simp add: read_cluster_def upt read_step_def)
  from this [of 128] have "fat32_read_file D f e buf mx d = Some (0, sectors d (cluster_to_lba f (entry_cluster e)), d1)"
    by (simp add: fat32_read_file_def)
  with that d1 show ?thesis by blast
qed

lemma delete_effect:
  assumes "good d" and "fat_start_lba f < 2 ^ 27" and "pad_field 8 name = Some pn" and "pad_field 3 ext = Some px"
    and "fat_chain f (sectors d) (current_cluster f) ds" and "\<forall>y\<in>set (data_sectors f ds). y < 2 ^ 28"
    and "find_slot pn px (sectors d) (data_sectors f ds) = Some (lba, i)"
    and "fat_chain f (sectors d) (entry_cluster (dir_entry (sectors d lba) i)) cs" and "lba \<notin> fat_sector f ` set cs"
  obtains d' where "fat32_file_delete D f name ext d = Some (0, d')" and "good d'"
    and "sectors d' lba = (sectors d lba)[i * 32 := 0xE5]"
    and "\<And>x. x < 2 ^ 28 \<Longrightarrow> fat_sector f x \<noteq> lba \<Longrightarrow> fat_value f (sectors d') x = (if x \<in> set cs then 0 else fat_value f (sectors d) x)"
    and "\<And>y. y \<noteq> lba \<Longrightarrow> y \<notin> fat_sector f ` set cs \<Longrightarrow> sectors d' y = sectors d y"
proof -
  let ?b = "sectors d lba" and ?e = "dir_entry (sectors d lba) i"
  have i: "i < 16" and lba: "lba < 2 ^ 28" using find_slot_Some [OF assms(7)] assms(6) by blast+
  have len: "length ?b = 512" using assms(1) by (rule sector_length)
  have off: "unat (of_nat (i * 32) :: u32) = i * 32" by (rule unat_of_nat_small) (use i in simp)
  obtain d1 where d1: "fat32_find_file D f name ext d = Some (Some (?e, lba, of_nat (i * 32)), d1)" "good d1" "sectors d1 = sectors d"
    using find_file_spec [OF assms(1-6)] assms(7) by auto
  obtain d2 where d2: "ata_read_sector D lba 0 (replicate 512 0) d1 = Some (0, ?b, d2)" "good d2" "sectors d2 = sectors d"
    using read_whole [OF d1(2) lba] d1(3) by metis
  have len': "length (?b[i * 32 := 0xE5]) = 512" using len by simp
  obtain d3 where d3: "ata_write_sector D lba (?b[i * 32 := 0xE5]) d2 = Some (0, d3)" "good d3"
    "sectors d3 = (sectors d)(lba := ?b[i * 32 := 0xE5])"
    using write_law [OF d2(2) lba len'] d2(3) by metis
  have same: "fat_value f (sectors d3) x = fat_value f (sectors d) x" if "fat_sector f x \<noteq> lba" for x
    using that d3(3) by (simp add: fat_value_def)
  have chain: "fat_chain f (sectors d3) (entry_cluster ?e) cs"
    by (rule fat_chain_cong [OF assms(8)]) (use same assms(9) in force)
  obtain d4 where d4: "free_chain D f (entry_cluster ?e) d3 = Some d4" "good d4"
    "\<And>x. x < 2 ^ 28 \<Longrightarrow> fat_value f (sectors d4) x = (if x \<in> set cs then 0 else fat_value f (sectors d3) x)"
    "\<And>y. y \<notin> fat_sector f ` set cs \<Longrightarrow> sectors d4 y = sectors d3 y"
    using free_chain_frees [OF d3(2) assms(2) chain] by metis
  show ?thesis
  proof (rule that)
    show "fat32_file_delete D f name ext d = Some (0, d4)"
      using d1(1) d2(1) d3(1) d4(1) len i off by (simp add: fat32_file_delete_def)
    show "sectors d4 lba = ?b[i * 32 := 0xE5]" using d4(4) assms(9) d3(3) by simp
    show "good d4" by fact
    fix x :: u32 assume "x < 2 ^ 28" "fat_sector f x \<noteq> lba"
    then show "fat_value f (sectors d4) x = (if x \<in> set cs then 0 else fat_value f (sectors d) x)" using d4(3) same by simp
  next
    fix y assume "y \<noteq> lba" "y \<notin> fat_sector f ` set cs"
    then show "sectors d4 y = sectors d y" using d4(4) d3(3) by simp
  qed
qed

end

section \<open>Properties\<close>

text \<open>
  C19: Creating a file works as specified, in a directory whose first sector has a free slot - the code looks at no
  other - on a volume with a free cluster: \<open>fat32_create_file\<close> returns 0; a search for the name then
  delivers an entry of size 0 in that slot whose first cluster is the least free one from 2 on, which the
  table marks as the end of a chain; the other slots of the sector keep every byte, no other cluster's
  entry and no sector but this one and the table's changes.  The name must not stand before the
  slot - the code does not check, and an older entry would be found - and its first character must not
  be the byte that marks deleted entries.
\<close>

theorem fat_create_then_find:
  assumes "block_device D sectors good" and "good d" and "dir_ok f"
    and "pad_field 8 name = Some pn" and "pad_field 3 ext = Some px" and "hd pn \<noteq> 0xE5"
    and "find (slot_free (sectors d (dir_lba f))) [0..<16] = Some i"
    and "\<And>j. j < i \<Longrightarrow> \<not> slot_named pn px (sectors d (dir_lba f)) j"
    and "first_free f (sectors d) 2 c" and "c \<noteq> 0" and "fat_sector f c \<noteq> dir_lba f"
  shows "\<exists>d1 d2 e. fat32_create_file D f name ext d = Some (0, d1) \<and>
     fat32_find_file D f name ext d1 = Some (Some (e, dir_lba f, of_nat (i * 32)), d2) \<and>
     fe_name e = pn \<and> fe_ext e = px \<and> entry_cluster e = c \<and> file_size e = 0 \<and>
     (\<forall>x. x < 2 ^ 28 \<and> fat_sector f x \<noteq> dir_lba f \<longrightarrow>
        fat_value f (sectors d2) x = (if x = c then 0x0FFFFFFF else fat_value f (sectors d) x)) \<and>
     (\<forall>q<512. q < i * 32 \<or> i * 32 + 32 \<le> q \<longrightarrow> sectors d2 (dir_lba f) ! q = sectors d (dir_lba f) ! q) \<and>
     (\<forall>lba. lba \<noteq> fat_sector f c \<and> lba \<noteq> dir_lba f \<longrightarrow> sectors d2 lba = sectors d lba)"
proof -
  let ?b = "sectors d (dir_lba f)"
  have len: "length ?b = 512" using block_device.sector_length [OF assms(1,2)] .
  have i: "i < 16" using assms(7) by (simp add: find_upt_Some)
  have lp: "length pn = 8" "length px = 3" using pad_field_upper(1) assms(4,5) by blast+
  let ?b' = "take (i * 32) ?b @ new_entry pn px c @ drop (i * 32 + 32) ?b"
  obtain d1 where d1: "fat32_create_file D f name ext d = Some (0, d1)" "good d1" "sectors d1 (dir_lba f) = ?b'"
    "\<And>x. x < 2 ^ 28 \<Longrightarrow> fat_sector f x \<noteq> dir_lba f \<Longrightarrow>
       fat_value f (sectors d1) x = (if x = c then 0x0FFFFFFF else fat_value f (sectors d) x)"
    "\<And>lba. lba \<noteq> fat_sector f c \<Longrightarrow> lba \<noteq> dir_lba f \<Longrightarrow> sectors d1 lba = sectors d lba"
    using block_device.create_file_effect [OF assms(1-5,7,9-11)] by metis
  have "find_in_sector name ext ?b' = Some (Inl (Some i))"
    by (rule find_new_entry [OF len assms(4-8)])
  then obtain d2 where d2: "fat32_find_file D f name ext d1 = Some (Some (dir_entry ?b' i, dir_lba f, of_nat (i * 32)), d2)"
    "sectors d2 = sectors d1"
    using block_device.find_file_first_sector [OF assms(1) d1(2) assms(3), where name = name and ext = ext] i d1(3) by metis
  note ne = new_entry_fields [OF len i lp, of c]
  have "?b' ! q = ?b ! q" if "q < 512" "q < i * 32 \<or> i * 32 + 32 \<le> q" for q
    using that len i lp by (auto simp: nth_append new_entry_def)
  then show ?thesis
    by (intro exI [of _ d1] exI [of _ d2] exI [of _ "dir_entry ?b' i"]) (use d1(1,3-5) d2 ne(3,4,6,7) in simp)
qed

definition blank_fat :: fat where
  "blank_fat = \<lparr>fat_start_lba = 32, data_start_lba = 1000, root_cluster = 3, sectors_per_cluster = 1,
     current_cluster = 3, previous_cluster = 3\<rparr>"

lemma blank_fat_value: "unat (c * 4 mod 512) + 4 \<le> 512 \<Longrightarrow> fat_value blank_fat (p_sectors blank_pio) c = 0"
  by (simp add: fat_value_def blank_pio_def get32_def get16_def)

lemma blank_volume:
  "pio_good blank_pio" "dir_ok blank_fat" "dir_lba blank_fat = 1001" "p_sectors blank_pio lba = replicate 512 0"
  "first_free blank_fat (p_sectors blank_pio) 2 2" "fat_sector blank_fat 2 = 32"
proof -
  show "pio_good blank_pio" by (simp add: pio_good_def blank_pio_def)
  show lba: "dir_lba blank_fat = 1001" by (simp add: dir_lba_def cluster_to_lba_def blank_fat_def)
  show "dir_ok blank_fat" by (simp add: dir_ok_def lba) (simp add: blank_fat_def END_OF_CHAIN_def)
  show "p_sectors blank_pio lba = replicate 512 0" by (simp add: blank_pio_def)
  show "first_free blank_fat (p_sectors blank_pio) 2 2"
    by (rule first_free_here) (simp_all add: END_OF_CHAIN_def blank_fat_value)
  show "fat_sector blank_fat 2 = 32" by (simp add: fat_sector_def blank_fat_def)
qed

lemma iris_bin:
  "pad_field 8 [0x69, 0x72, 0x69, 0x73, 0] = Some [0x49, 0x52, 0x49, 0x53, 0x20, 0x20, 0x20, 0x20]"
  "pad_field 3 [0x62, 0x69, 0x6E, 0] = Some [0x42, 0x49, 0x4E]"
  by code_simp+

lemma fat_create_then_find_witness:
  "\<exists>d1 d2 e. fat32_create_file pio_drive blank_fat [0x69, 0x72, 0x69, 0x73, 0] [0x62, 0x69, 0x6E, 0] blank_pio = Some (0, d1) \<and>
     fat32_find_file pio_drive blank_fat [0x69, 0x72, 0x69, 0x73, 0] [0x62, 0x69, 0x6E, 0] d1 = Some (Some (e, 1001, 0), d2) \<and>
     entry_cluster e = 2"
proof -
  have "find (slot_free (replicate 512 0)) [0..<16] = Some 0" by (simp add: find_upt_Some slot_free_def)
  then show ?thesis
    using fat_create_then_find [OF pio.block_device_axioms blank_volume(1,2) iris_bin, of 0 2]
    by (simp add: blank_volume) blast
qed

text \<open>
  C15: What a write stores and a read gives back.  For a file with a valid first cluster (not 0) and any
  non-empty data on a readable volume, \<open>fat32_write_file\<close> returns 0 and replaces exactly one sector, the first of that
  cluster, by the first 512 bytes of the data padded with zeros; reading the file back delivers it.
  So files up to one sector round-trip, the rest of longer data is lost without an error, and the
  directory entry keeps the size it had.
\<close>

theorem fat_write_then_read:
  assumes "block_device D sectors good" and "good d" and "fat_start_lba f < 2 ^ 27" and "sectors_per_cluster f \<noteq> 0"
    and "entry_cluster e \<noteq> 0" and "entry_cluster e < END_OF_CHAIN" and "cluster_to_lba f (entry_cluster e) < 2 ^ 28"
    and "0 < sz" and "min (unat sz) 512 \<le> length data" and "length buf = 512" and "mx \<le> 512"
  shows "\<exists>d1 d2. fat32_write_file D f e sec off data sz d = Some (0, e, d1) \<and>
     sectors d1 = (sectors d)(cluster_to_lba f (entry_cluster e) := first_block data sz) \<and>
     fat32_read_file D f e buf mx d1 = Some (0, first_block data sz, d2) \<and> sectors d2 = sectors d1"
proof -
  obtain d1 where d1: "fat32_write_file D f e sec off data sz d = Some (0, e, d1)" "good d1"
    "sectors d1 = (sectors d)(cluster_to_lba f (entry_cluster e) := first_block data sz)"
    using block_device.write_file_effect [OF assms(1-3,5-9)] by metis
  obtain d2 where d2: "fat32_read_file D f e buf mx d1 = Some (0, sectors d1 (cluster_to_lba f (entry_cluster e)), d2)"
    "sectors d2 = sectors d1"
    using block_device.read_first_sector [OF assms(1) d1(2) assms(6,7,4,11,10)] by metis
  then show ?thesis using d1 by simp
qed

definition file_at :: "u16 \<Rightarrow> fat_entry" where
  "file_at c = \<lparr>fe_name = replicate 8 0x41, fe_ext = replicate 3 0x42, fe_attributes = 0x20, fe_reserved = 0,
     fe_create_time_fine = 0, fe_create_time = 0, fe_create_date = 0, fe_access_date = 0, cluster_high = 0,
     fe_modify_time = 0, fe_modify_date = 0, cluster_low = c, file_size = 0\<rparr>"

lemma fat_write_then_read_witness:
  "\<exists>d1 d2. fat32_write_file pio_drive blank_fat (file_at 5) 1001 0 (replicate 600 7) 600 blank_pio = Some (0, file_at 5, d1) \<and>
     fat32_read_file pio_drive blank_fat (file_at 5) (replicate 512 0) 512 d1 = Some (0, replicate 512 7, d2)"
proof -
  have e: "entry_cluster (file_at 5) = 5" by (simp add: entry_cluster_def file_at_def)
  have b: "first_block (replicate 600 7) 600 = replicate 512 7" by (simp add: first_block_def min_def)
  show ?thesis
    using fat_write_then_read [OF pio.block_device_axioms blank_volume(1), of blank_fat "file_at 5" 600 "replicate 600 7"
        "replicate 512 0" 512 1001 0]
    by (simp add: e b cluster_to_lba_def END_OF_CHAIN_def blank_fat_def) blast
qed

text \<open>
  C14: Deleting ends and frees.  On a directory whose chain of clusters ends, wherever in it the name is:
  when no slot before the end mark carries the name, \<open>fat32_file_delete\<close> returns 255 and the disk
  is only read.  Otherwise it is the first such slot, and when the chain of its file ends in the table,
  0 is returned, that slot is marked free, the table entries of exactly the chain's clusters
  become 0, and no other byte of the directory and no other sector changes.  (For an entry
  with first cluster 0 the chain is cluster 0's, which is reserved.)
\<close>

theorem fat_delete_frees_chain:
  assumes "block_device D sectors good" and "good d" and "fat_start_lba f < 2 ^ 27"
    and "pad_field 8 name = Some pn" and "pad_field 3 ext = Some px"
    and "fat_chain f (sectors d) (current_cluster f) ds" and "\<forall>y\<in>set (data_sectors f ds). y < 2 ^ 28"
  shows "case find_slot pn px (sectors d) (data_sectors f ds) of
     None \<Rightarrow> \<exists>d'. fat32_file_delete D f name ext d = Some (- 1, d') \<and> sectors d' = sectors d
   | Some (lba, i) \<Rightarrow> \<forall>cs. fat_chain f (sectors d) (entry_cluster (dir_entry (sectors d lba) i)) cs \<and> lba \<notin> fat_sector f ` set cs \<longrightarrow>
       (\<exists>d'. fat32_file_delete D f name ext d = Some (0, d') \<and>
         sectors d' lba = (sectors d lba)[i * 32 := 0xE5] \<and> slot_free (sectors d' lba) i \<and>
         (\<forall>x. x < 2 ^ 28 \<and> fat_sector f x \<noteq> lba \<longrightarrow> fat_value f (sectors d') x = (if x \<in> set cs then 0 else fat_value f (sectors d) x)) \<and>
         (\<forall>y. y \<noteq> lba \<and> y \<notin> fat_sector f ` set cs \<longrightarrow> sectors d' y = sectors d y))"
proof (cases "find_slot pn px (sectors d) (data_sectors f ds)")
  case None
  then obtain d' where "fat32_find_file D f name ext d = Some (None, d')" "sectors d' = sectors d"
    using block_device.find_file_spec [OF assms] by auto
  then show ?thesis using None by (simp add: fat32_file_delete_def)
next
  case (Some p)
  obtain lba i where p: "p = (lba, i)" by (cases p)
  note s = Some [unfolded p]
  have "\<exists>d'. fat32_file_delete D f name ext d = Some (0, d') \<and>
      sectors d' lba = (sectors d lba)[i * 32 := 0xE5] \<and> slot_free (sectors d' lba) i \<and>
      (\<forall>x. x < 2 ^ 28 \<and> fat_sector f x \<noteq> lba \<longrightarrow> fat_value f (sectors d') x = (if x \<in> set cs then 0 else fat_value f (sectors d) x)) \<and>
      (\<forall>y. y \<noteq> lba \<and> y \<notin> fat_sector f ` set cs \<longrightarrow> sectors d' y = sectors d y)"
    if cs: "fat_chain f (sectors d) (entry_cluster (dir_entry (sectors d lba) i)) cs" "lba \<notin> fat_sector f ` set cs" for cs
  proof -
    obtain d' where d': "fat32_file_delete D f name ext d = Some (0, d')" "sectors d' lba = (sectors d lba)[i * 32 := 0xE5]"
      "\<And>x. x < 2 ^ 28 \<Longrightarrow> fat_sector f x \<noteq> lba \<Longrightarrow> fat_value f (sectors d') x = (if x \<in> set cs then 0 else fat_value f (sectors d) x)"
      "\<And>y. y \<noteq> lba \<Longrightarrow> y \<notin> fat_sector f ` set cs \<Longrightarrow> sectors d' y = sectors d y"
      using block_device.delete_effect [OF assms s cs] by metis
    moreover have "slot_free (sectors d' lba) i"
      using d'(2) block_device.sector_length [OF assms(1,2), of lba] find_slot_Some(2) [OF s] by (simp add: slot_free_def)
    ultimately show ?thesis by blast
  qed
  then show ?thesis using s by simp
qed

definition one_file_pio :: pio where
  "one_file_pio = blank_pio\<lparr>p_sectors := (\<lambda>lba. replicate 512 0)
     (32 := replicate 12 0 @ [0xFF, 0xFF, 0xFF, 0x0F, 0xFF, 0xFF, 0xFF, 0x0F] @ replicate 492 0,
      1001 := take 0 (replicate 512 0) @ new_entry [0x49, 0x52, 0x49, 0x53, 0x20, 0x20, 0x20, 0x20] [0x42, 0x49, 0x4E] 4 @
        drop 32 (replicate 512 0))\<rparr>"

lemma one_file_volume:
  "pio_good one_file_pio" "fat_sector blank_fat 4 = 32" "fat_value blank_fat (p_sectors one_file_pio) 4 = 0x0FFFFFFF"
proof -
  show "pio_good one_file_pio" by (simp add: pio_good_def one_file_pio_def new_entry_def)
  show sec: "fat_sector blank_fat 4 = 32" by (simp add: fat_sector_def blank_fat_def)
  show "fat_value blank_fat (p_sectors one_file_pio) 4 = 0x0FFFFFFF"
    unfolding fat_value_def sec by (simp add: one_file_pio_def get32_def get16_def nth_append)
qed

text \<open>The file in slot 0 of that disk's directory, which is one cluster of one sector.\<close>

lemma find_slot_first:
  assumes "pad_field 8 name = Some pn" and "pad_field 3 ext = Some px" and "length (secs lba) = 512"
    and "find_in_sector name ext (secs lba) = Some (Inl (Some i))"
  shows "find_slot pn px secs (lba # lbas) = Some (lba, i)"
proof -
  have "find (\<lambda>i. secs lba ! (i * 32) = 0 \<or> slot_named pn px (secs lba) i) [0..<16] = Some i" "secs lba ! (i * 32) \<noteq> 0"
    using find_in_sector_spec [OF assms(3,1,2)] assms(4) by (auto split: option.splits if_splits)
  then show ?thesis by (simp add: find_slot_def find_takeWhile find_append find_map_eq case_prod_unfold)
qed

lemma fat_delete_frees_chain_witness:
  "\<exists>d'. fat32_file_delete pio_drive blank_fat [0x69, 0x72, 0x69, 0x73, 0] [0x62, 0x69, 0x6E, 0] one_file_pio = Some (0, d') \<and>
     fat_value blank_fat (p_sectors one_file_pio) 4 = 0x0FFFFFFF \<and> fat_value blank_fat (p_sectors d') 4 = 0"
proof -
  let ?b = "take (0 * 32) (replicate 512 0) @
    new_entry [0x49, 0x52, 0x49, 0x53, 0x20, 0x20, 0x20, 0x20] [0x42, 0x49, 0x4E] 4 @ drop (0 * 32 + 32) (replicate 512 0)"
  have dir: "p_sectors one_file_pio 1001 = ?b" by (simp add: one_file_pio_def)
  have found: "find_in_sector [0x69, 0x72, 0x69, 0x73, 0] [0x62, 0x69, 0x6E, 0] ?b = Some (Inl (Some 0))"
    by (rule find_new_entry [OF _ iris_bin]) (simp_all add: find_upt_Some slot_free_def)
  have cl: "entry_cluster (dir_entry ?b 0) = 4" by (rule new_entry_fields) simp_all
  note sec = one_file_volume(2) and v = one_file_volume(3)
  have ds: "data_sectors blank_fat [3] = [1001]"
    by (simp add: data_sectors_def cluster_sectors_def cluster_to_lba_def blank_fat_def)
  have "fat_value blank_fat (p_sectors one_file_pio) 3 = 0x0FFFFFFF"
    by (simp add: fat_value_def fat_sector_def blank_fat_def one_file_pio_def get32_def get16_def nth_append)
  then have dirchain: "fat_chain blank_fat (p_sectors one_file_pio) (current_cluster blank_fat) [3]"
    by (simp add: blank_fat_def END_OF_CHAIN_def)
  have chain: "fat_chain blank_fat (p_sectors one_file_pio) 4 [4]" by (simp add: v END_OF_CHAIN_def)
  have slot: "find_slot [0x49, 0x52, 0x49, 0x53, 0x20, 0x20, 0x20, 0x20] [0x42, 0x49, 0x4E] (p_sectors one_file_pio) [1001] = Some (1001, 0)"
    by (rule find_slot_first [OF iris_bin]) (simp_all only: dir found, simp add: new_entry_def)
  have "fat_start_lba blank_fat < 2 ^ 27" "\<forall>y\<in>set (data_sectors blank_fat [3]). y < 2 ^ 28" by (simp add: blank_fat_def) (simp add: ds)
  note del = fat_delete_frees_chain [OF pio.block_device_axioms one_file_volume(1) this(1) iris_bin dirchain this(2),
      unfolded ds slot option.case prod.case, THEN spec [of _ "[4]"]]
  have "fat_chain blank_fat (p_sectors one_file_pio) (entry_cluster (dir_entry (p_sectors one_file_pio 1001) 0)) [4] \<and>
      1001 \<notin> fat_sector blank_fat ` set [4]" using chain unfolding dir cl by (simp add: sec)
  from mp [OF del this] show ?thesis using v by (auto simp: sec)
qed

context block_device
begin

lemma read_contents:
  assumes "good d" and "fat_start_lba f < 2 ^ 27"
    and "fat_chain f (sectors d) (entry_cluster e) cs" and "\<forall>lba\<in>set (data_sectors f cs). lba < 2 ^ 28"
    and "length buf < 2 ^ 32" and "512 * min (length (data_sectors f (take 129 cs))) (wanted mx) \<le> length buf"
  shows "\<exists>d'. fat32_read_file D f e buf mx d =
      Some (0, put_sectors buf 0 (map (sectors d) (take (wanted mx) (data_sectors f (take 129 cs)))), d') \<and>
    good d' \<and> sectors d' = sectors d"
proof -
  have "0 < wanted mx" by (simp add: wanted_def)
  then show ?thesis
    using read_chain_sectors [OF assms(1-4), of 0 mx buf 129] assms(5,6)
    by (auto simp: fat32_read_file_def)
qed

end

text \<open>
  C20: Reading a file delivers its contents.  For an entry whose chain ends in the table,
  \<open>fat32_read_file\<close> returns 0 with the sectors of the chain's clusters, in chain order, written to
  the start of the buffer and nothing else changed: as many whole sectors as the bytes asked for
  need (at least one), or the whole chain when that is shorter, and never more than the 129
  clusters the safety counter admits (its comment says 128; the counter is tested before it is
  counted up, and leaves when it exceeds 128).  The buffer must hold whole sectors, whatever \<open>max_bytes\<close>.
\<close>

theorem fat_read_contents:
  assumes "block_device D sectors good" and "good d" and "fat_start_lba f < 2 ^ 27"
    and "fat_chain f (sectors d) (entry_cluster e) cs" and "\<forall>lba\<in>set (data_sectors f cs). lba < 2 ^ 28"
    and "length buf < 2 ^ 32" and "512 * min (length (data_sectors f (take 129 cs))) (wanted mx) \<le> length buf"
  shows "\<exists>d'. fat32_read_file D f e buf mx d =
      Some (0, put_sectors buf 0 (map (sectors d) (take (wanted mx) (data_sectors f (take 129 cs)))), d') \<and>
    sectors d' = sectors d"
  using block_device.read_contents [OF assms] by blast

lemma fat_read_contents_witness:
  "\<exists>d'. fat32_read_file pio_drive blank_fat (file_at 4) (replicate 1024 9) 100 one_file_pio =
     Some (0, replicate 512 0 @ replicate 512 9, d')"
proof -
  note good = one_file_volume(1)
  have cl: "entry_cluster (file_at 4) = 4" by (simp add: entry_cluster_def file_at_def)
  note sec = one_file_volume(2) and v = one_file_volume(3)
  have ds: "data_sectors blank_fat [4] = [1002]"
    by (simp add: data_sectors_def cluster_sectors_def cluster_to_lba_def blank_fat_def)
  have "p_sectors one_file_pio 1002 = replicate 512 0" by (simp add: one_file_pio_def)
  moreover have "fat_start_lba blank_fat < 2 ^ 27" by (simp add: blank_fat_def)
  ultimately show ?thesis
    using fat_read_contents [OF pio.block_device_axioms good, of blank_fat "file_at 4" "[4]" "replicate 1024 9" 100]
    by (auto simp: cl v ds wanted_def put_sectors_def END_OF_CHAIN_def)
qed

text \<open>
  The scan for a free cluster ends and returns the least cluster from 2 on whose table entry is
  zero, or 0 when no valid cluster is free; the disk is only read.
\<close>

theorem fat_free_search:
  assumes "block_device D sectors good" and "good d" and "fat_start_lba f < 2 ^ 27"
  shows "\<exists>r d'. fat32_find_free_cluster D f d = Some (r, d') \<and> sectors d' = sectors d \<and>
     (r = 0 \<and> (\<forall>x. 2 \<le> x \<and> x < END_OF_CHAIN \<longrightarrow> fat_value f (sectors d) x \<noteq> 0) \<or>
      2 \<le> r \<and> r < END_OF_CHAIN \<and> fat_value f (sectors d) r = 0 \<and> (\<forall>x. 2 \<le> x \<and> x < r \<longrightarrow> fat_value f (sectors d) x \<noteq> 0))"
proof -
  obtain r d' where r: "find_free_from D f 2 d = Some (r, d')" "sectors d' = sectors d" "first_free f (sectors d) 2 r"
    using block_device.find_free_from_least [OF assms] .
  show ?thesis unfolding fat32_find_free_cluster_def
    by (rule exI [of _ r], rule exI [of _ d'], intro conjI, rule r(1), rule r(2), rule r(3) [unfolded first_free_def])
qed

lemma fat_free_search_witness:
  "\<exists>d'. fat32_find_free_cluster pio_drive blank_fat blank_pio = Some (2, d')"
proof -
  have "fat_start_lba blank_fat < 2 ^ 27" by (simp add: blank_fat_def)
  then obtain r d' where r: "fat32_find_free_cluster pio_drive blank_fat blank_pio = Some (r, d')"
    "r = 0 \<and> (\<forall>x. 2 \<le> x \<and> x < END_OF_CHAIN \<longrightarrow> fat_value blank_fat (p_sectors blank_pio) x \<noteq> 0) \<or>
     2 \<le> r \<and> r < END_OF_CHAIN \<and> fat_value blank_fat (p_sectors blank_pio) r = 0 \<and>
      (\<forall>x. 2 \<le> x \<and> x < r \<longrightarrow> fat_value blank_fat (p_sectors blank_pio) x \<noteq> 0)"
    using fat_free_search [OF pio.block_device_axioms blank_volume(1), of blank_fat] by blast
  have "first_free blank_fat (p_sectors blank_pio) 2 r" using r(2) by (simp only: first_free_def)
  then have "r = 2" using blank_volume(5) by (rule first_free_unique)
  then show ?thesis using r(1) by blast
qed

text \<open>
  C37: The allocation table behaves as an array of 28-bit values: after an entry is set it reads as
  the low 28 bits of the value, every other cluster's entry reads as before.
\<close>

theorem fat_table_roundtrip:
  assumes "block_device D sectors good" and "good d" and "fat_start_lba f < 2 ^ 27" and "c < 2 ^ 28" and "x < 2 ^ 28"
  shows "\<exists>w d1 d2 d3. fat_next_cluster D f x d = Some (w, d1) \<and> fat_set_cluster D f c v d = Some d2 \<and>
     fat_next_cluster D f x d2 = Some (if x = c then v AND 0x0FFFFFFF else w, d3)"
proof -
  obtain d1 where d1: "fat_next_cluster D f x d = Some (fat_value f (sectors d) x, d1)"
    using block_device.next_value [OF assms(1,2,5,3)] by metis
  obtain d2 where d2: "fat_set_cluster D f c v d = Some d2" "good d2"
    "fat_value f (sectors d2) x = (if x = c then v AND 0x0FFFFFFF else fat_value f (sectors d) x)"
    using block_device.set_value [OF assms(1,2,4,3), of v] assms(5) by metis
  obtain d3 where "fat_next_cluster D f x d2 = Some (fat_value f (sectors d2) x, d3)"
    using block_device.next_value [OF assms(1) d2(2) assms(5,3)] by metis
  then show ?thesis using d1 d2(1) unfolding d2(3) by blast
qed

lemma fat_table_roundtrip_witness:
  "\<exists>w d1 d2 d3. fat_next_cluster pio_drive blank_fat 7 blank_pio = Some (w, d1) \<and>
     fat_set_cluster pio_drive blank_fat 7 0xF2345678 blank_pio = Some d2 \<and>
     fat_next_cluster pio_drive blank_fat 7 d2 = Some (0x02345678, d3)"
  using fat_table_roundtrip [OF pio.block_device_axioms blank_volume(1), of blank_fat 7 7 "0xF2345678"]
  by (simp add: blank_fat_def)

end
