(* ===== verification/Weights.thy ===== *)
theory Weights
  imports Fat_Dir Ml
begin

text \<open>
  Loading the network from disk (\<^verbatim>\<open>kernel/ml/ml_weights.c\<close>): the file \<open>WEIGHTS.BIN\<close> holds a
  12-byte header and, for each layer, an 8-byte header, the weights row by row and the biases, all
  32-bit little-endian.  The two-dimensional C arrays are flat lists, row by row.
\<close>

section \<open>The loader\<close>

definition ML_MAGIC :: u32 where "ML_MAGIC = 0x504A4E4E"

text \<open>The loops over a matrix and over a vector; \<open>p\<close> is the offset the C pointer has in the buffer.\<close>

definition load_matrix :: "u8 list \<Rightarrow> nat \<Rightarrow> nat \<Rightarrow> flt list \<times> nat \<Rightarrow> (flt list \<times> nat) option" where
  "load_matrix buf rows cols =
     for_each (\<lambda>i. for_each (\<lambda>j (xs, p). do {
       v \<leftarrow> get32 buf p;
       xs \<leftarrow> arr_set xs (i * cols + j) (float_of_bits v);
       Some (xs, p + 4) }) [0..<cols]) [0..<rows]"

definition load_vector :: "u8 list \<Rightarrow> nat \<Rightarrow> flt list \<times> nat \<Rightarrow> (flt list \<times> nat) option" where
  "load_vector buf n = for_each (\<lambda>i (xs, p). do {
     v \<leftarrow> get32 buf p;
     xs \<leftarrow> arr_set xs i (float_of_bits v);
     Some (xs, p + 4) }) [0..<n]"

definition parse_weights :: "u8 list \<Rightarrow> net \<Rightarrow> net option" where
  "parse_weights buf w = do {
     let p = 12;
     (l1, p) \<leftarrow> load_matrix buf L1_OUT L1_IN (weights_l1 w, p + 8);
     (b1, p) \<leftarrow> load_vector buf L1_OUT (bias_l1 w, p);
     (l2, p) \<leftarrow> load_matrix buf L2_OUT L2_IN (weights_l2 w, p + 8);
     (b2, p) \<leftarrow> load_vector buf L2_OUT (bias_l2 w, p);
     (l3, p) \<leftarrow> load_matrix buf L3_OUT L3_IN (weights_l3 w, p + 8);
     (b3, p) \<leftarrow> load_vector buf L3_OUT (bias_l3 w, p);
     Some \<lparr>weights_l1 = l1, bias_l1 = b1, weights_l2 = l2, bias_l2 = b2, weights_l3 = l3, bias_l3 = b3\<rparr> }"

text \<open>\<open>buf\<close> is the uninitialised local buffer of the C function.\<close>

definition ml_weights_load ::
    "('d, 'x) ata_device_scheme \<Rightarrow> u8 list \<Rightarrow> fat \<Rightarrow> net \<Rightarrow> 'd \<Rightarrow> (u8 \<times> net \<times> 'd) option" where
  "ml_weights_load D buf f w d = do {
     (r, d) \<leftarrow> fat32_find_file D f (cstr ''WEIGHTS'') (cstr ''BIN'') d;
     case r of None \<Rightarrow> Some (1, w, d)
     | Some (entry, dir_sector, dir_offset) \<Rightarrow> do {
         (err, buf, d) \<leftarrow> fat32_read_file D f entry buf 512 d;
         if err \<noteq> 0 then Some (2, w, d)
         else do {
           magic \<leftarrow> get32 buf 0;
           if magic \<noteq> ML_MAGIC then Some (3, w, d)
           else do { w \<leftarrow> parse_weights buf w; Some (0, w, d) } } } }"

section \<open>The layout of the file\<close>

definition floats_at :: "u8 list \<Rightarrow> nat \<Rightarrow> nat \<Rightarrow> flt list" where
  "floats_at buf p n = map (\<lambda>k. float_of_bits (the (get32 buf (p + 4 * k)))) [0..<n]"

lemma length_floats_at [simp]: "length (floats_at buf p n) = n"
  by (simp add: floats_at_def)

lemma floats_at_step:
  assumes "p + 4 * k + 4 \<le> length buf" and "k < length xs"
  shows "do { v \<leftarrow> get32 buf (p + 4 * k); xs \<leftarrow> arr_set (floats_at buf p k @ drop k xs) k (float_of_bits v); Some (xs, p + 4 * k + 4) } =
     Some (floats_at buf p (Suc k) @ drop (Suc k) xs, p + 4 * Suc k)"
proof -
  obtain v where v: "get32 buf (p + 4 * k) = Some v" using get32_in [OF assms(1)] by blast
  have "drop k xs = xs ! k # drop (Suc k) xs" using assms(2) by (simp add: Cons_nth_drop_Suc)
  then show ?thesis using v by (simp add: arr_set_def list_update_append floats_at_def)
qed

lemma load_vector_floats:
  assumes "p + 4 * n \<le> length buf" and "length xs = n"
  shows "load_vector buf n (xs, p) = Some (floats_at buf p n, p + 4 * n)"
proof -
  let ?g = "\<lambda>k. (floats_at buf p k @ drop k xs, p + 4 * k)"
  have "load_vector buf n (?g 0) = Some (?g n)"
    unfolding load_vector_def
  proof (rule for_each_upt)
    fix i assume "i < n"
    then show "(case ?g i of (xs, p) \<Rightarrow> do { v \<leftarrow> get32 buf p; xs \<leftarrow> arr_set xs i (float_of_bits v); Some (xs, p + 4) }) = Some (?g (Suc i))"
      using floats_at_step [of p i buf xs] assms by simp
  qed
  then show ?thesis using assms(2) by (simp add: floats_at_def)
qed

lemma load_matrix_floats:
  assumes "p + 4 * (rows * cols) \<le> length buf" and "length xs = rows * cols"
  shows "load_matrix buf rows cols (xs, p) = Some (floats_at buf p (rows * cols), p + 4 * (rows * cols))"
proof -
  let ?g = "\<lambda>k. (floats_at buf p k @ drop k xs, p + 4 * k)"
  have "load_matrix buf rows cols (?g (0 * cols)) = Some (?g (rows * cols))"
    unfolding load_matrix_def
  proof (rule for_each_upt [where g = "\<lambda>i. ?g (i * cols)"])
    fix i assume i: "i < rows"
    have "for_each (\<lambda>j (xs, p). do { v \<leftarrow> get32 buf p; xs \<leftarrow> arr_set xs (i * cols + j) (float_of_bits v); Some (xs, p + 4) })
        [0..<cols] (?g (i * cols + 0)) = Some (?g (i * cols + cols))"
    proof (rule for_each_upt [where g = "\<lambda>j. ?g (i * cols + j)"])
      fix j assume j: "j < cols"
      have "i * cols + cols \<le> rows * cols" using mult_le_mono1 [of "Suc i" rows cols] i by simp
      then have "i * cols + j < rows * cols" using j by linarith
      then show "(case ?g (i * cols + j) of (xs, p) \<Rightarrow> do { v \<leftarrow> get32 buf p; xs \<leftarrow> arr_set xs (i * cols + j) (float_of_bits v); Some (xs, p + 4) }) =
          Some (?g (i * cols + Suc j))"
        using floats_at_step [of p "i * cols + j" buf xs] assms by simp
    qed
    then show "for_each (\<lambda>j (xs, p). do { v \<leftarrow> get32 buf p; xs \<leftarrow> arr_set xs (i * cols + j) (float_of_bits v); Some (xs, p + 4) })
        [0..<cols] (?g (i * cols)) = Some (?g (Suc i * cols))"
      by (simp add: add.commute)
  qed
  then show ?thesis using assms(2) by (simp add: floats_at_def)
qed

text \<open>The network a buffer holds.\<close>

definition net_at :: "u8 list \<Rightarrow> net" where
  "net_at buf = \<lparr>weights_l1 = floats_at buf 20 32, bias_l1 = floats_at buf 148 8,
     weights_l2 = floats_at buf 188 32, bias_l2 = floats_at buf 316 4,
     weights_l3 = floats_at buf 340 4, bias_l3 = floats_at buf 356 1\<rparr>"

lemma net_at_ok: "net_ok (net_at buf)"
  by (simp add: net_ok_def net_at_def)

lemma parse_weights_layout:
  assumes "360 \<le> length buf" and "net_ok w"
  shows "parse_weights buf w = Some (net_at buf)"
proof -
  note dims = L1_IN_def L1_OUT_def L2_IN_def L2_OUT_def L3_IN_def L3_OUT_def
  have "load_matrix buf 8 4 (weights_l1 w, 20) = Some (floats_at buf 20 32, 148)"
    using load_matrix_floats [of 20 8 4 buf "weights_l1 w"] assms by (simp add: net_ok_def)
  moreover have "load_vector buf 8 (bias_l1 w, 148) = Some (floats_at buf 148 8, 180)"
    using load_vector_floats [of 148 8 buf "bias_l1 w"] assms by (simp add: net_ok_def)
  moreover have "load_matrix buf 4 8 (weights_l2 w, 188) = Some (floats_at buf 188 32, 316)"
    using load_matrix_floats [of 188 4 8 buf "weights_l2 w"] assms by (simp add: net_ok_def)
  moreover have "load_vector buf 4 (bias_l2 w, 316) = Some (floats_at buf 316 4, 332)"
    using load_vector_floats [of 316 4 buf "bias_l2 w"] assms by (simp add: net_ok_def)
  moreover have "load_matrix buf 1 4 (weights_l3 w, 340) = Some (floats_at buf 340 4, 356)"
    using load_matrix_floats [of 340 1 4 buf "weights_l3 w"] assms by (simp add: net_ok_def)
  moreover have "load_vector buf 1 (bias_l3 w, 356) = Some (floats_at buf 356 1, 360)"
    using load_vector_floats [of 356 1 buf "bias_l3 w"] assms by (simp add: net_ok_def)
  ultimately show ?thesis by (simp add: parse_weights_def dims net_at_def Let_def)
qed

section \<open>The shipped file\<close>

text \<open>\<^verbatim>\<open>weights.bin\<close> as the repository has it, as 32-bit words.\<close>

definition weights_words :: "u32 list" where
  "weights_words = [
    0x504A4E4E, 0x00000001, 0x00000003, 0x00000004, 0x00000008, 0xBF0A5EEE, 0xBE9A4FC9, 0xBD58CD10, 0xBEDB2747,
    0x3E564D62, 0x3E78CD86, 0xBEF129B9, 0x3E349EFD, 0x3F61D3D3, 0x3D9699A9, 0xBEA37ABB, 0xBD0963EE, 0x3E8AC8D9,
    0xBEDFEF78, 0x3EEC3054, 0x3E7E1773, 0x3E8075E2, 0xBE722B99, 0xBE6A1DB5, 0xBF055920, 0x3DE91575, 0xBE2EEFAD,
    0xBEB2BED6, 0xBE9F6A92, 0x3DEF1FE3, 0xBED0F160, 0xBCFBACB9, 0x3F1E0464, 0xBD88ABE0, 0x3EC3630C, 0xBE138658,
    0xBBB27154, 0x00000000, 0x3EDEB9BF, 0x3EABBC2B, 0x3EC6D268, 0xBE655E6A, 0xBDA63B8B, 0x3EB46664, 0xBC61F55C,
    0x00000008, 0x00000004, 0x3D800A55, 0x3F2173CB, 0x3F352EB8, 0x3EF7175A, 0xBE6996B1, 0xBEC9E984, 0x3EAF5EC8,
    0x3F0CF8EC, 0x3EEE2531, 0xBC84831F, 0x3E4D1BBC, 0x3E94B3F1, 0x3D4A00CB, 0x3D9AE871, 0x3CBBEE1B, 0xBEA166AF,
    0xBE8C80E8, 0xBE9A864A, 0xBF3ECBD4, 0x3EA3597F, 0xBCE22891, 0x3E9BD434, 0x3F174179, 0x3F079FE1, 0x3F114039,
    0xBEAA65B6, 0xBF413D28, 0x3F1EA087, 0x3F04225A, 0x3F1E766B, 0x3E8F0646, 0xBF4C71BC, 0x3DF619E5, 0x3D086489,
    0x3F1955EA, 0x3F112BB9, 0x00000004, 0x00000001, 0xBF21DC94, 0xBD1823D3, 0x3F7727B3, 0x3F86FA34, 0xBD7FB7A6]"

definition le_bytes :: "u32 \<Rightarrow> u8 list" where
  "le_bytes w = [ucast w, ucast (drop_bit 8 w), ucast (drop_bit 16 w), ucast (drop_bit 24 w)]"

definition weights_bin :: "u8 list" where
  "weights_bin = concat (map le_bytes weights_words)"

lemma length_le_words: "length (concat (map le_bytes ws)) = 4 * length ws"
  by (induction ws) (simp_all add: le_bytes_def)

lemma nth_le_words: "k < length ws \<Longrightarrow> j < 4 \<Longrightarrow> concat (map le_bytes ws) ! (4 * k + j) = le_bytes (ws ! k) ! j"
proof (induction ws arbitrary: k)
  case (Cons w ws)
  have l: "length (le_bytes w) = 4" by (simp add: le_bytes_def)
  show ?case
  proof (cases k)
    case 0
    then show ?thesis using Cons.prems l by (simp add: nth_append)
  next
    case (Suc m)
    then show ?thesis using Cons.IH [of m] Cons.prems l by (simp add: nth_append)
  qed
qed simp

lemma get32_le_words:
  assumes "k < length ws" and "take (4 * length ws) b = concat (map le_bytes ws)"
  shows "get32 b (4 * k) = Some (ws ! k)"
proof -
  have len: "4 * length ws \<le> length b"
    using arg_cong [OF assms(2), of length] by (simp add: length_le_words min_def split: if_splits)
  have n: "b ! (4 * k + j) = le_bytes (ws ! k) ! j" if "j < 4" for j
  proof -
    have "4 * k + j < 4 * length ws" using that assms(1) by simp
    then have "b ! (4 * k + j) = take (4 * length ws) b ! (4 * k + j)" by simp
    then show ?thesis using nth_le_words [OF assms(1) that] assms(2) by simp
  qed
  have u: "ucast (ucast (drop_bit 8 (ucast v :: u16)) :: u8) = (ucast (ucast (drop_bit 8 v) :: u8) :: u16)"
    "ucast (ucast v :: u16) = (ucast v :: u8)" for v :: u32
    by (rule bit_word_eqI, auto simp: bit_simps)+
  have lo: "get16 b (4 * k) = Some (ucast (ws ! k))"
    using n [of 0] n [of 1] len assms(1) join_bytes [of "ucast (ws ! k)"] u [of "ws ! k"] by (simp add: get16_def le_bytes_def)
  have hi: "get16 b (4 * k + 2) = Some (ucast (drop_bit 16 (ws ! k)))"
    using n [of 2] n [of 3] len assms(1) join_bytes [of "ucast (drop_bit 16 (ws ! k))"] u [of "drop_bit 16 (ws ! k)"]
    by (simp add: get16_def le_bytes_def numeral_3_eq_3)
  show ?thesis using lo hi join_halves [of "ws ! k"] by (simp add: get32_def)
qed

lemma length_weights_bin: "length weights_bin = 360"
proof -
  have "length weights_words = 90" by (simp add: weights_words_def)
  then show ?thesis unfolding weights_bin_def length_le_words by simp
qed

text \<open>A small exponent field bounds the value.\<close>

lemma float_of_bits_bnd:
  assumes "take_bit 8 (drop_bit 23 w) < (147 :: u32)"
  shows "bnd (2 ^ 20) (float_of_bits w)"
proof -
  define e where "e = uint (take_bit 8 (drop_bit 23 w))"
  define m where "m = (of_int (uint (take_bit 23 w)) :: rat)"
  have e: "0 \<le> e" "e < 147" using assms by (simp_all add: e_def word_less_def)
  have "uint (take_bit 23 w) < 2 ^ 23" unfolding unsigned_take_bit_eq by (rule take_bit_int_less_exp)
  then have "m < of_int (2 ^ 23)" unfolding m_def of_int_less_iff .
  moreover have "0 \<le> m" unfolding m_def by (rule of_int_nonneg [OF unsigned_greater_eq])
  ultimately have m: "0 \<le> m" "m \<le> 2 ^ 23" by simp_all
  have p: "(2 :: rat) powi (e - 150) \<le> 2 powi (- 4)" by (rule power_int_increasing) (use e in simp_all)
  have small: "\<bar>sg * (2 ^ 23 + m) * 2 powi (e - 150)\<bar> \<le> 2 ^ 20" if "\<bar>sg\<bar> = 1" for sg :: rat
  proof -
    have "\<bar>sg * (2 ^ 23 + m) * 2 powi (e - 150)\<bar> = (2 ^ 23 + m) * 2 powi (e - 150)" using m that by (simp add: abs_mult)
    also have "\<dots> \<le> 2 ^ 24 * 2 powi (- 4)" using m p by (intro mult_mono) simp_all
    also have "\<dots> = 2 ^ 20" by (simp add: power_int_def power_one_over)
    finally show ?thesis .
  qed
  have tiny: "\<bar>sg * m * 2 powi (- 149)\<bar> \<le> 2 ^ 20" if "\<bar>sg\<bar> = 1" for sg :: rat
  proof -
    have "\<bar>sg * m * 2 powi (- 149)\<bar> = m * 2 powi (- 149)" using m that by (simp add: abs_mult)
    also have "\<dots> \<le> 2 ^ 23 * 2 powi (- 3)" using m by (intro mult_mono power_int_increasing) simp_all
    also have "\<dots> = 2 ^ 20" by (simp add: power_int_def power_one_over)
    finally show ?thesis .
  qed
  define sg where "sg = (if bit w 31 then - 1 else 1 :: rat)"
  have "\<bar>sg\<bar> = 1" by (simp add: sg_def)
  moreover have "float_of_bits w = (if e = 0 then Fin (sg * m * 2 powi (- 149)) else Fin (sg * (2 ^ 23 + m) * 2 powi (e - 150)))"
    using e by (simp only: float_of_bits_def Let_def e_def [symmetric] m_def [symmetric] sg_def [symmetric]) simp
  ultimately show ?thesis using small [of sg] tiny [of sg] by (simp only: bnd_Fin split: if_split) simp
qed

lemma shipped_net:
  assumes "take 360 b = weights_bin"
  shows "get32 b 0 = Some ML_MAGIC" and "net_bounded (net_at b)"
proof -
  have len: "length weights_words = 90" by (simp add: weights_words_def)
  have b: "take (4 * length weights_words) b = concat (map le_bytes weights_words)"
    using assms by (simp add: len weights_bin_def)
  have g: "get32 b (4 * k) = Some (weights_words ! k)" if "k < 90" for k
    using get32_le_words [OF _ b, of k] that len by simp
  show "get32 b 0 = Some ML_MAGIC" using g [of 0] by (simp add: weights_words_def ML_MAGIC_def)
  have "list_all (\<lambda>w. take_bit 8 (drop_bit 23 w) < 147) (drop 1 weights_words)" by code_simp
  then have small: "bnd (2 ^ 20) (float_of_bits (weights_words ! k))" if "1 \<le> k" "k < 90" for k
    using that len nth_mem [of "k - 1" "drop 1 weights_words"] by (intro float_of_bits_bnd) (simp add: list_all_iff)
  have fl: "\<forall>v \<in> set (floats_at b (4 * q) n). bnd (2 ^ 20) v" if "1 \<le> q" "q + n \<le> 90" for q n
  proof -
    have "get32 b (4 * q + 4 * k) = Some (weights_words ! (q + k))" if "k < n" for k
      using g [of "q + k"] that \<open>q + n \<le> 90\<close> by (simp only: distrib_left)
    then have "floats_at b (4 * q) n = map (\<lambda>k. float_of_bits (weights_words ! (q + k))) [0..<n]"
      unfolding floats_at_def by (intro map_cong) simp_all
    then show ?thesis using small that by simp
  qed
  show "net_bounded (net_at b)"
    using fl [of 5 32] fl [of 37 8] fl [of 47 32] fl [of 79 4] fl [of 85 4] fl [of 89 1]
    by (simp add: net_bounded_def net_at_def ball_Un)
qed

section \<open>Properties\<close>

text \<open>
  C27: All outcomes of \<open>ml_weights_load\<close>: 1 with the weights untouched when the file is not found, 2
  when it cannot be read, 3 when the magic number is wrong, and otherwise 0 with every weight and
  bias taken from its place in the file - rows of 4, 8 and 4 weights and 8, 4 and 1 biases, each
  layer after an 8-byte header - without leaving the 512-byte buffer.
\<close>

theorem weights_load_outcomes:
  assumes "fat32_find_file D f (cstr ''WEIGHTS'') (cstr ''BIN'') d = Some (found, d1)"
    and "\<And>e sec off. found = Some (e, sec, off) \<Longrightarrow>
       fat32_read_file D f e junk 512 d1 = Some (err, buf, d2) \<and> (err = 0 \<longrightarrow> 360 \<le> length buf)"
    and "net_ok w"
  shows "ml_weights_load D junk f w d =
     (case found of None \<Rightarrow> Some (1, w, d1)
      | Some _ \<Rightarrow> Some (if err \<noteq> 0 then (2, w, d2)
                       else if get32 buf 0 \<noteq> Some ML_MAGIC then (3, w, d2) else (0, net_at buf, d2))) \<and>
     net_ok (net_at buf)"
proof -
  have "ml_weights_load D junk f w d =
     (case found of None \<Rightarrow> Some (1, w, d1)
      | Some _ \<Rightarrow> Some (if err \<noteq> 0 then (2, w, d2)
                       else if get32 buf 0 \<noteq> Some ML_MAGIC then (3, w, d2) else (0, net_at buf, d2)))"
  proof (cases found)
    case None
    then show ?thesis using assms(1) by (simp add: ml_weights_load_def)
  next
    case (Some r)
    obtain e sec off where r: "r = (e, sec, off)" by (cases r)
    note rd = assms(2) [OF Some [unfolded r]]
    show ?thesis
    proof (cases "err = 0")
      case False
      then show ?thesis using assms(1) Some r rd by (simp add: ml_weights_load_def)
    next
      case True
      then obtain m where m: "get32 buf 0 = Some m" using rd get32_in [of 0 buf] by auto
      then show ?thesis
        using True assms(1) Some r rd parse_weights_layout [OF _ assms(3), of buf] by (simp add: ml_weights_load_def)
    qed
  qed
  then show ?thesis using net_at_ok by blast
qed

text \<open>A drive with the shipped file: the directory in sector 1001, the file's one cluster in sector 1002.\<close>

definition weights_pio :: pio where
  "weights_pio = blank_pio\<lparr>p_sectors := (\<lambda>lba. replicate 512 0)
     (1001 := take (0 * 32) (replicate 512 0) @ new_entry [0x57, 0x45, 0x49, 0x47, 0x48, 0x54, 0x53, 0x20] [0x42, 0x49, 0x4E] 4 @
        drop (0 * 32 + 32) (replicate 512 0),
      1002 := weights_bin @ replicate 152 0)\<rparr>"

lemma weights_pio_found:
  obtains e d1 d2 where "fat32_find_file pio_drive blank_fat (cstr ''WEIGHTS'') (cstr ''BIN'') weights_pio = Some (Some (e, 1001, 0), d1)"
    and "fat32_read_file pio_drive blank_fat e (replicate 512 0) 512 d1 = Some (0, weights_bin @ replicate 152 0, d2)"
proof -
  let ?b = "take (0 * 32) (replicate 512 0) @ new_entry [0x57, 0x45, 0x49, 0x47, 0x48, 0x54, 0x53, 0x20] [0x42, 0x49, 0x4E] 4 @
        drop (0 * 32 + 32) (replicate 512 0)"
  have good: "pio_good weights_pio" by (simp add: pio_good_def weights_pio_def new_entry_def length_weights_bin)
  have dir: "p_sectors weights_pio (dir_lba blank_fat) = ?b" by (simp add: blank_volume(3) weights_pio_def)
  have "find_in_sector (cstr ''WEIGHTS'') (cstr ''BIN'') ?b = Some (Inl (Some 0))"
  proof (rule find_new_entry)
    show "pad_field 8 (cstr ''WEIGHTS'') = Some [0x57, 0x45, 0x49, 0x47, 0x48, 0x54, 0x53, 0x20]" by code_simp
    show "pad_field 3 (cstr ''BIN'') = Some [0x42, 0x49, 0x4E]" by code_simp
  qed (simp_all add: find_upt_Some slot_free_def)
  then obtain d1 where d1: "fat32_find_file pio_drive blank_fat (cstr ''WEIGHTS'') (cstr ''BIN'') weights_pio =
      Some (Some (dir_entry ?b 0, dir_lba blank_fat, of_nat (0 * 32)), d1)" "pio_good d1" "p_sectors d1 = p_sectors weights_pio"
    using pio.find_file_first_sector [OF good blank_volume(2), where name = "cstr ''WEIGHTS''" and ext = "cstr ''BIN''"] dir
    by (metis zero_less_numeral)
  have cl: "entry_cluster (dir_entry ?b 0) = 4" by (rule new_entry_fields) simp_all
  have lba: "cluster_to_lba blank_fat 4 = 1002" by (simp add: cluster_to_lba_def blank_fat_def)
  have spc: "sectors_per_cluster blank_fat \<noteq> 0" by (simp add: blank_fat_def)
  have sec: "p_sectors d1 1002 = weights_bin @ replicate 152 0" using d1(3) by (simp add: weights_pio_def)
  obtain d2 where "fat32_read_file pio_drive blank_fat (dir_entry ?b 0) (replicate 512 0) 512 d1 = Some (0, p_sectors d1 1002, d2)"
    using pio.read_first_sector [OF d1(2), of "dir_entry ?b 0" blank_fat 512 "replicate 512 0"] spc
    unfolding cl lba by (auto simp: END_OF_CHAIN_def)
  with that d1(1) sec show ?thesis by (simp add: blank_volume(3))
qed

lemma weights_load_outcomes_witness:
  "\<exists>d2. ml_weights_load pio_drive (replicate 512 0) blank_fat (net_at []) weights_pio =
     Some (0, net_at (weights_bin @ replicate 152 0), d2)"
proof -
  obtain e d1 d2 where r: "fat32_find_file pio_drive blank_fat (cstr ''WEIGHTS'') (cstr ''BIN'') weights_pio = Some (Some (e, 1001, 0), d1)"
    "fat32_read_file pio_drive blank_fat e (replicate 512 0) 512 d1 = Some (0, weights_bin @ replicate 152 0, d2)"
    by (rule weights_pio_found)
  show ?thesis
    using weights_load_outcomes [OF r(1), of "replicate 512 0" 0 "weights_bin @ replicate 152 0" d2 "net_at []"] r(2)
      shipped_net(1) [of "weights_bin @ replicate 152 0"] net_at_ok
    by (simp add: length_weights_bin)
qed

text \<open>
  C38: With the weight file of the repository in the first 360 bytes of the sector read,
  \<open>ml_weights_load\<close> succeeds, and from then on \<open>ml_infer\<close> returns a finite score between 0 and 1
  for all normalised inputs: no access out of bounds, no infinity, no NaN.
\<close>

theorem shipped_weights_score:
  assumes "fat32_find_file D f (cstr ''WEIGHTS'') (cstr ''BIN'') d = Some (Some (e, sec, off), d1)"
    and "fat32_read_file D f e junk 512 d1 = Some (0, buf, d2)" and "take 360 buf = weights_bin" and "net_ok w"
  shows "\<exists>w'. ml_weights_load D junk f w d = Some (0, w', d2) \<and>
     (\<forall>x. length x = 4 \<and> (\<forall>v \<in> set x. bnd 1 v) \<longrightarrow> (\<exists>r. ml_infer w' x = Some (Fin r) \<and> 0 \<le> r \<and> r \<le> 1))"
proof (rule exI, rule conjI)
  have "360 \<le> length buf" using length_weights_bin arg_cong [OF assms(3), of length] by (simp add: min_def split: if_splits)
  from parse_weights_layout [OF this assms(4)]
  show "ml_weights_load D junk f w d = Some (0, net_at buf, d2)"
    using assms(1,2) shipped_net(1) [OF assms(3)] by (simp add: ml_weights_load_def)
  show "\<forall>x. length x = 4 \<and> (\<forall>v \<in> set x. bnd 1 v) \<longrightarrow> (\<exists>r. ml_infer (net_at buf) x = Some (Fin r) \<and> 0 \<le> r \<and> r \<le> 1)"
    using ml_infer_in_range [OF net_at_ok shipped_net(2) [OF assms(3)]] by blast
qed

lemma shipped_weights_score_witness:
  "\<exists>w' d2. ml_weights_load pio_drive (replicate 512 0) blank_fat (net_at []) weights_pio = Some (0, w', d2) \<and>
     (\<exists>r. ml_infer w' [Fin 1, Fin 0, Fin (1 / 2), Fin 1] = Some (Fin r) \<and> 0 \<le> r \<and> r \<le> 1)"
proof -
  obtain e d1 d2 where r: "fat32_find_file pio_drive blank_fat (cstr ''WEIGHTS'') (cstr ''BIN'') weights_pio = Some (Some (e, 1001, 0), d1)"
    "fat32_read_file pio_drive blank_fat e (replicate 512 0) 512 d1 = Some (0, weights_bin @ replicate 152 0, d2)"
    by (rule weights_pio_found)
  obtain w' where "ml_weights_load pio_drive (replicate 512 0) blank_fat (net_at []) weights_pio = Some (0, w', d2)"
    "\<forall>x. length x = 4 \<and> (\<forall>v \<in> set x. bnd 1 v) \<longrightarrow> (\<exists>r. ml_infer w' x = Some (Fin r) \<and> 0 \<le> r \<and> r \<le> 1)"
    using shipped_weights_score [OF r _ net_at_ok, of "[]"] length_weights_bin by auto
  then show ?thesis by (intro exI [of _ w'] exI [of _ d2]) simp
qed

end
