(* ===== verification/Pit.thy ===== *)
theory Pit
  imports Klib Contexts
begin

text \<open>
  The timer (\<^verbatim>\<open>kernel/pit.c\<close>): programming the PIT, the status bar in the first two screen rows,
  and the timer interrupt, which drives the keyboard, the cursor and the scheduler.
\<close>

section \<open>Programming the timer\<close>

definition PIT_CHANNEL0 :: u16 where "PIT_CHANNEL0 = 0x40"
definition PIT_COMMAND :: u16 where "PIT_COMMAND = 0x43"
definition PIT_BASE_HZ :: u32 where "PIT_BASE_HZ = 1193180"

text \<open>A division by zero traps.\<close>

definition pit_init :: "u32 \<Rightarrow> 'a kernel_scheme \<Rightarrow> 'a kernel_scheme option" where
  "pit_init hz s =
     (if hz = 0 then None
      else let divisor = PIT_BASE_HZ div hz;
               s = outb PIT_COMMAND 0x36 s;
               s = outb PIT_CHANNEL0 (ucast (divisor AND 0xFF)) s
           in Some (outb PIT_CHANNEL0 (ucast (drop_bit 8 divisor AND 0xFF)) s))"

section \<open>The status bar\<close>

definition print_field ::
    "u8 list \<Rightarrow> u8 list \<Rightarrow> nat \<Rightarrow> nat \<Rightarrow> nat \<Rightarrow> u8 \<Rightarrow> 'a console_scheme \<Rightarrow> 'a console_scheme option" where
  "print_field label value row col width color s = do {
     s \<leftarrow> print_at (replicate (min width 31) 0x20 @ [0]) row col 0x07 s;
     s \<leftarrow> print_at label row col 0x08 s;
     n \<leftarrow> kstrlen label;
     print_at value row (col + n) color s }"

definition draw_divider :: "nat \<Rightarrow> u8 \<Rightarrow> 'a console_scheme \<Rightarrow> 'a console_scheme option" where
  "draw_divider row color s = for_each (\<lambda>i. print_at [0xC4, 0] row i color) [0..<80] s"

text \<open>
  \<open>draw_top_bar\<close> in the order of the code: the background and the title, the state, the free pages,
  the uptime, the task count, the divider.
\<close>

definition state_field :: "sys_state \<Rightarrow> u8 list \<times> u8" where
  "state_field st =
     (if st = STATE_CALM then cstr ''CALM  '' else if st = STATE_NORMAL then cstr ''NORMAL'' else cstr ''ALERT '',
      if st = STATE_ALERT then 0x1C else if st = STATE_NORMAL then 0x1E else 0x1A)"

definition count_tasks :: "task list \<Rightarrow> u32 option" where
  "count_tasks ts = for_each (\<lambda>i count. do {
     t \<leftarrow> arr_get ts i;
     Some (if state t \<noteq> TASK_DEAD then count + 1 else count) }) [0..<MAX_TASKS] 0"

definition draw_top_bar :: "'a kernel_scheme \<Rightarrow> 'a kernel_scheme option" where
  "draw_top_bar s = do {
     s \<leftarrow> for_each (\<lambda>i. print_at (cstr '' '') 0 i 0x17) [0..<80] s;
     s \<leftarrow> print_at (cstr ''PrajnaOS'') 0 1 0x1F s;
     s \<leftarrow> print_at [0xB3, 0] 0 10 0x17 s;
     let (state_str, sc) = state_field (ai_get_state s);
     s \<leftarrow> print_at state_str 0 12 sc s;
     s \<leftarrow> print_at [0xB3, 0] 0 19 0x17 s;
     free \<leftarrow> pmm_free_pages (pages s);
     buf \<leftarrow> uint_to_str free (replicate 16 0);
     s \<leftarrow> print_at (cstr ''Mem:'') 0 21 0x17 s;
     s \<leftarrow> print_at buf 0 25 0x1F s;
     n \<leftarrow> kstrlen buf;
     s \<leftarrow> print_at (cstr ''pg'') 0 (25 + n) 0x17 s;
     s \<leftarrow> print_at [0xB3, 0] 0 43 0x17 s;
     buf \<leftarrow> uint_to_str (ticks s) buf;
     let uptime = ticks s div 100;
     buf \<leftarrow> uint_to_str uptime buf;
     s \<leftarrow> print_at (cstr ''Up:'') 0 45 0x17 s;
     s \<leftarrow> print_at buf 0 48 0x1F s;
     n \<leftarrow> kstrlen buf;
     s \<leftarrow> print_at (cstr ''s'') 0 (48 + n) 0x17 s;
     s \<leftarrow> print_at [0xB3, 0] 0 62 0x17 s;
     count \<leftarrow> count_tasks (tasks s);
     buf \<leftarrow> uint_to_str count buf;
     s \<leftarrow> print_at (cstr ''Tasks:'') 0 64 0x17 s;
     s \<leftarrow> print_at buf 0 70 0x1F s;
     draw_divider 1 0x08 s }"

section \<open>The timer interrupt\<close>

text \<open>
  \<open>shell\<close> is the command handler the line editor calls; the processor argument is the state at the
  call of \<open>context_switch\<close>.  When the switch happens (\<open>True\<close>) control has left for another task: what
  is left of the handler, \<open>pit_handler_rest\<close>, runs when some task that was suspended here resumes.
\<close>

definition pit_handler_rest :: "'a kernel_scheme \<Rightarrow> 'a kernel_scheme option" where
  "pit_handler_rest s = (if ticks s mod 100 = 0 then draw_top_bar s else Some s)"

definition pit_handler ::
    "(u8 list \<Rightarrow> 'a kernel_scheme \<Rightarrow> 'a kernel_scheme option) \<Rightarrow> cpu \<Rightarrow> 'a kernel_scheme \<Rightarrow>
     (bool \<times> cpu \<times> 'a kernel_scheme) option" where
  "pit_handler shell c s = do {
     let s = outb 0x20 0x20 s;
     let s = s\<lparr>ticks := ticks s + 1\<rparr>;
     t \<leftarrow> arr_get (tasks s) (unat (scheduler_get_current_task s));
     ts \<leftarrow> arr_set (tasks s) (unat (scheduler_get_current_task s)) (t\<lparr>run_ticks := run_ticks t + 1\<rparr>);
     s \<leftarrow> scancode_drain (process_scancode shell) (s\<lparr>tasks := ts\<rparr>);
     let s = (if ticks s mod 10 = 0 then blink s else s);
     (left, c, s) \<leftarrow> (if ticks s mod 100 = 0
        then do { s \<leftarrow> scheduler_tick s; scheduler_do_pending_switch c s }
        else Some (False, c, s));
     if left then Some (True, c, s)
     else do { s \<leftarrow> pit_handler_rest s; Some (False, c, s) } }"

section \<open>What the status bar shows\<close>

lemma uint_to_str_16:
  assumes "length buf = 16"
  obtains rest where "uint_to_str n buf = Some (decimal (unat n) @ 0 # rest)" and "length (decimal (unat n) @ 0 # rest) = 16"
proof -
  have "length (decimal (unat n)) < length buf" using length_decimal_u32 [of n] assms by simp
  note eq = uint_to_str_eq [OF this]
  have "length (decimal (unat n) @ 0 # drop (Suc (length (decimal (unat n)))) buf) = 16"
    unfolding length_append length_Cons length_drop using length_decimal_u32 [of n] assms by simp
  with eq show ?thesis by (rule that)
qed

lemma plain_digits: "\<forall>c \<in> set (decimal n). c \<notin> {0, 9, 10}"
proof
  fix c assume "c \<in> set (decimal n)"
  then have "48 \<le> unat c" using decimal_digits by blast
  then show "c \<notin> {0, 9, 10}" by auto
qed

lemma print_digits:
  "print_at (decimal n @ 0 # rest) row col color s = Some (s\<lparr>vga := put_cells (decimal n) (row * 80 + col) color (vga s)\<rparr>)"
  by (rule print_at_plain [OF plain_digits])

lemma kstrlen_digits: "kstrlen (decimal n @ 0 # rest) = Some (length (decimal n))"
proof (rule kstrlen_holds)
  show "holds (decimal n @ 0 # rest) (decimal n)" using plain_digits [of n] by (auto simp: holds_def)
qed

lemma print_symbol: "c \<notin> {0, 9, 10} \<Longrightarrow> print_at [c, 0] row col color s = Some (s\<lparr>vga := (vga s)(row * 80 + col := cell color c)\<rparr>)"
  using print_at_plain [of "[c]" "[]"] by simp

text \<open>A row filled cell by cell.\<close>

lemma fill_row:
  assumes "c \<notin> {0, 9, 10}"
  shows "for_each (\<lambda>i. print_at [c, 0] row i color) [0..<80] s = Some (s\<lparr>vga := put_cells (replicate 80 c) (row * 80) color (vga s)\<rparr>)"
proof -
  let ?g = "\<lambda>i. s\<lparr>vga := (\<lambda>n. if row * 80 \<le> n \<and> n < row * 80 + i then cell color c else vga s n)\<rparr>"
  have "for_each (\<lambda>i. print_at [c, 0] row i color) [0..<80] (?g 0) = Some (?g 80)"
  proof (rule for_each_upt)
    fix i assume "i < (80 :: nat)"
    have "(\<lambda>n. if row * 80 \<le> n \<and> n < row * 80 + i then cell color c else vga s n)(row * 80 + i := cell color c) =
        (\<lambda>n. if row * 80 \<le> n \<and> n < row * 80 + Suc i then cell color c else vga s n)" by auto
    then show "print_at [c, 0] row i color (?g i) = Some (?g (Suc i))" by (simp add: print_symbol [OF assms])
  qed
  moreover have "(\<lambda>n. if row * 80 \<le> n \<and> n < row * 80 + 0 then cell color c else vga s n) = vga s"
    by (rule ext) auto
  then have "?g 0 = s" by (simp only:) simp
  moreover have "put_cells (replicate 80 c) (row * 80) color (vga s) =
      (\<lambda>n. if row * 80 \<le> n \<and> n < row * 80 + 80 then cell color c else vga s n)"
    by (rule ext) (auto simp: put_cells_at)
  ultimately show ?thesis by simp
qed

definition live_tasks :: "task list \<Rightarrow> nat" where
  "live_tasks ts = length (filter (\<lambda>t. state t \<noteq> TASK_DEAD) ts)"

lemma count_tasks_eq:
  assumes "length ts = 8"
  shows "count_tasks ts = Some (of_nat (live_tasks ts))"
proof -
  let ?g = "\<lambda>i. of_nat (live_tasks (take i ts)) :: u32"
  have "for_each (\<lambda>i count. do { t \<leftarrow> arr_get ts i; Some (if state t \<noteq> TASK_DEAD then count + 1 else count) }) [0..<8] (?g 0) = Some (?g 8)"
  proof (rule for_each_upt)
    fix i assume i: "i < (8 :: nat)"
    then have "take (Suc i) ts = take i ts @ [ts ! i]" using assms by (simp add: take_Suc_conv_app_nth)
    then show "do { t \<leftarrow> arr_get ts i; Some (if state t \<noteq> TASK_DEAD then ?g i + 1 else ?g i) } = Some (?g (Suc i))"
      using i assms by (simp add: live_tasks_def)
  qed
  then show ?thesis using assms by (simp add: count_tasks_def live_tasks_def MAX_TASKS_def)
qed

definition state_text :: "sys_state \<Rightarrow> string" where
  "state_text st = (if st = STATE_CALM then ''CALM  '' else if st = STATE_NORMAL then ''NORMAL'' else ''ALERT '')"

text \<open>The cells of the first two rows.\<close>

definition bar_cells :: "sys_state \<Rightarrow> nat \<Rightarrow> nat \<Rightarrow> nat \<Rightarrow> vgamem \<Rightarrow> vgamem" where
  "bar_cells st free uptime count v =
     (let v = put_cells (replicate 80 0x20) 0 0x17 v;
          v = put_cells (lit ''PrajnaOS'') 1 0x1F v;
          v = v(10 := cell 0x17 0xB3);
          v = put_cells (lit (state_text st)) 12 (snd (state_field st)) v;
          v = v(19 := cell 0x17 0xB3);
          v = put_cells (lit ''Mem:'') 21 0x17 v;
          v = put_cells (decimal free) 25 0x1F v;
          v = put_cells (lit ''pg'') (25 + length (decimal free)) 0x17 v;
          v = v(43 := cell 0x17 0xB3);
          v = put_cells (lit ''Up:'') 45 0x17 v;
          v = put_cells (decimal uptime) 48 0x1F v;
          v = put_cells (lit ''s'') (48 + length (decimal uptime)) 0x17 v;
          v = v(62 := cell 0x17 0xB3);
          v = put_cells (lit ''Tasks:'') 64 0x17 v;
          v = put_cells (decimal count) 70 0x1F v
      in put_cells (replicate 80 0xC4) 80 0x08 v)"

lemma live_tasks_le: "length ts = 8 \<Longrightarrow> live_tasks ts \<le> 8"
  using length_filter_le [of "\<lambda>t. state t \<noteq> TASK_DEAD" ts] by (simp add: live_tasks_def)

lemma card_free_le: "card (free_set bm) \<le> TOTAL_PAGES"
proof -
  have "free_set bm \<subseteq> {..<TOTAL_PAGES}" by (auto simp: free_set_def page_free_def)
  then show ?thesis using card_mono [of "{..<TOTAL_PAGES}" "free_set bm"] by simp
qed

lemma draw_top_bar_eq:
  assumes "kernel_ok s"
  shows "draw_top_bar s = Some (s\<lparr>vga := bar_cells (ai_get_state s) (card (free_set (pages s))) (unat (ticks s div 100))
     (live_tasks (tasks s)) (vga s)\<rparr>)"
proof -
  have ok: "length (tasks s) = 8" "bitmap_ok (pages s)" using assms by (simp_all add: kernel_ok_def)
  have len: "length (replicate 16 (0 :: u8)) = 16" by simp
  obtain r1 where b1: "uint_to_str (of_nat (card (free_set (pages s)))) (replicate 16 0) = Some (decimal (unat (of_nat (card (free_set (pages s))) :: u32)) @ 0 # r1)"
    "length (decimal (unat (of_nat (card (free_set (pages s))) :: u32)) @ 0 # r1) = 16"
    using uint_to_str_16 [OF len] by blast
  obtain r2 where b2: "uint_to_str (ticks s) (decimal (unat (of_nat (card (free_set (pages s))) :: u32)) @ 0 # r1) = Some (decimal (unat (ticks s)) @ 0 # r2)"
    "length (decimal (unat (ticks s)) @ 0 # r2) = 16"
    using uint_to_str_16 [OF b1(2)] by blast
  obtain r3 where b3: "uint_to_str (ticks s div 100) (decimal (unat (ticks s)) @ 0 # r2) = Some (decimal (unat (ticks s div 100)) @ 0 # r3)"
    "length (decimal (unat (ticks s div 100)) @ 0 # r3) = 16"
    using uint_to_str_16 [OF b2(2)] by blast
  obtain r4 where b4: "uint_to_str (of_nat (live_tasks (tasks s))) (decimal (unat (ticks s div 100)) @ 0 # r3) =
      Some (decimal (unat (of_nat (live_tasks (tasks s)) :: u32)) @ 0 # r4)"
    using uint_to_str_16 [OF b3(2)] by blast
  have free: "unat (of_nat (card (free_set (pages s))) :: u32) = card (free_set (pages s))"
    using card_free_le [of "pages s"] by (intro unat_of_nat_small) (simp add: TOTAL_PAGES_eq)
  have live: "unat (of_nat (live_tasks (tasks s)) :: u32) = live_tasks (tasks s)"
    using live_tasks_le [OF ok(1)] by (intro unat_of_nat_small) simp
  have st: "state_field st = (cstr (state_text st), snd (state_field st))" for st
    by (simp add: state_field_def state_text_def)
  have pr: "printable ''PrajnaOS''" "printable (state_text st)" "printable ''Mem:''" "printable ''pg''" "printable ''Up:''"
    "printable ''s''" "printable ''Tasks:''" for st
    by (simp_all add: printable_def lit_def state_text_def)
  have sp: "cstr '' '' = [0x20, 0]" by (simp add: cstr_def lit_def)
  note [simp] = print_at_lit [OF pr(1)] print_at_lit [OF pr(2)] print_at_lit [OF pr(3)] print_at_lit [OF pr(4)] print_at_lit [OF pr(5)]
    print_at_lit [OF pr(6)] print_at_lit [OF pr(7)]
  show ?thesis
    unfolding draw_top_bar_def draw_divider_def sp using b1 b2 b3 b4
    by (subst st) (simp add: fill_row print_symbol pmm_free_pages_eq [OF ok(2)] count_tasks_eq [OF ok(1)] free live print_digits
        kstrlen_digits bar_cells_def Let_def ai_get_state_def)
qed

text \<open>A text on the screen.\<close>

definition shows_text :: "vgamem \<Rightarrow> nat \<Rightarrow> u8 \<Rightarrow> u8 list \<Rightarrow> bool" where
  "shows_text v p color cs \<longleftrightarrow> (\<forall>k<length cs. v (p + k) = cell color (cs ! k))"

lemma bar_cells_content:
  fixes v :: vgamem and st :: sys_state
  assumes "length (decimal free) \<le> 6" and "length (decimal uptime) \<le> 8" and "length (decimal count) \<le> 2"
  defines "v' \<equiv> bar_cells st free uptime count v"
  shows "\<forall>n\<ge>160. v' n = v n" and "shows_text v' 12 (snd (state_field st)) (lit (state_text st))"
    and "shows_text v' 25 0x1F (decimal free)" and "shows_text v' (25 + length (decimal free)) 0x17 (lit ''pg'')"
    and "shows_text v' 48 0x1F (decimal uptime)" and "shows_text v' (48 + length (decimal uptime)) 0x17 (lit ''s'')"
    and "shows_text v' 70 0x1F (decimal count)" and "shows_text v' 80 0x08 (replicate 80 0xC4)"
proof -
  have len: "length (lit (state_text st)) = 6" "length (lit ''pg'') = 2" "length (lit ''s'') = 1" "length (lit ''Mem:'') = 4"
    "length (lit ''Up:'') = 3" "length (lit ''Tasks:'') = 6" "length (lit ''PrajnaOS'') = 8" for st
    by (simp_all add: lit_def state_text_def)
  note e = v'_def bar_cells_def Let_def put_cells_at shows_text_def len
  show "\<forall>n\<ge>160. v' n = v n" using assms(1-3) by (simp add: e)
  show "shows_text v' 12 (snd (state_field st)) (lit (state_text st))" using assms(1-3) by (simp add: e)
  show "shows_text v' 25 0x1F (decimal free)" using assms(1-3) by (simp add: e)
  show "shows_text v' (25 + length (decimal free)) 0x17 (lit ''pg'')" using assms(1-3) by (simp add: e)
  show "shows_text v' 48 0x1F (decimal uptime)" using assms(1-3) by (simp add: e)
  show "shows_text v' (48 + length (decimal uptime)) 0x17 (lit ''s'')" using assms(1-3) by (simp add: e)
  show "shows_text v' 70 0x1F (decimal count)" using assms(1-3) by (simp add: e)
  show "shows_text v' 80 0x08 (replicate 80 0xC4)" using assms(1-3) by (simp add: e)
qed

section \<open>The timer interrupt keeps the invariants\<close>

text \<open>The kernel part of a state is what extends the console record.\<close>

lemma kernel_part:
  assumes "console.more s = console.more (t :: 'a kernel_scheme)"
  shows "ticks s = ticks t" "pages s = pages t" "tasks s = tasks t" "sch s = sch t" "ai s = ai t" "weights s = weights t"
    "stackmem s = stackmem t" "outs s = outs t" "kernel.more s = kernel.more t"
  using assms by (cases s, cases t, simp)+

lemma contexts_ok_same:
  assumes "contexts_ok s g" and "sched_ok s'" and "same_stacks s s'"
  shows "contexts_ok s' g"
proof -
  have ok: "stacks_ok s" using assms(1) by (simp add: contexts_ok_def)
  have lv: "live s' i \<longleftrightarrow> live s i" for i using assms(3) by (auto simp: live_def same_stacks_def)
  have "stacks_ok s'" using ok assms(3) unfolding stacks_ok_def lv by (simp add: same_stacks_def live_def)
  moreover have "suspended s' i (g i)" if "i < 8" "state (tasks s' ! i) = TASK_READY" for i
    using assms(1,3) that by (auto simp: contexts_ok_def suspended_def same_stacks_def)
  ultimately show ?thesis using assms(2) by (simp add: contexts_ok_def)
qed

lemma contexts_ok_kernel_part:
  fixes s t :: "'a kernel_scheme"
  assumes "contexts_ok s g" and "console.more t = console.more s"
  shows "contexts_ok t g"
proof (rule contexts_ok_same [OF assms(1)])
  note k = kernel_part [OF assms(2)]
  show "sched_ok t" using assms(1) k by (simp add: contexts_ok_def sched_ok_def kernel_ok_def)
  show "same_stacks s t" using k by (simp add: same_stacks_def)
qed

text \<open>The first two lines of the handler.\<close>

definition count_tick :: "'a kernel_scheme \<Rightarrow> 'a kernel_scheme" where
  "count_tick s = (let cur = unat (current_task (sch s)); s = outb 0x20 0x20 s in
     s\<lparr>ticks := ticks s + 1, tasks := (tasks s)[cur := (tasks s ! cur)\<lparr>run_ticks := run_ticks (tasks s ! cur) + 1\<rparr>]\<rparr>)"

lemma count_tick_fields:
  "ticks (count_tick s) = ticks s + 1" "sch (count_tick s) = sch s" "pages (count_tick s) = pages s"
  "stackmem (count_tick s) = stackmem s" "ai (count_tick s) = ai s" "weights (count_tick s) = weights s"
  "ring (count_tick s) = ring s" "ring_ok (count_tick s) = ring_ok s" "editor_ok (count_tick s) = editor_ok s"
  "line (count_tick s) = line s" "shift_held (count_tick s) = shift_held s" "cursor_ok (count_tick s) = cursor_ok s"
  "vga (count_tick s) = vga s" "length (tasks (count_tick s)) = length (tasks s)"
  by (simp_all add: count_tick_def Let_def outb_def ring_def ring_len_def ring_ok_def editor_ok_def line_def cursor_ok_def)

lemma count_tick_same_stacks: "same_stacks s (count_tick s)"
proof -
  have t: "tasks (count_tick s) ! i = (if i = unat (current_task (sch s)) \<and> i < length (tasks s)
      then (tasks s ! i)\<lparr>run_ticks := run_ticks (tasks s ! i) + 1\<rparr> else tasks s ! i)" for i
    by (cases "unat (current_task (sch s)) < length (tasks s)")
       (simp_all add: count_tick_def Let_def outb_def nth_list_update list_update_beyond)
  show ?thesis by (simp add: same_stacks_def count_tick_fields) (simp add: t)
qed

lemma count_tick_ok:
  assumes "contexts_ok s g"
  shows "contexts_ok (count_tick s) g"
proof (rule contexts_ok_same [OF assms _ count_tick_same_stacks])
  have "state (tasks (count_tick s) ! i) = state (tasks s ! i)" if "i < 8" for i
    using count_tick_same_stacks [of s] that by (simp add: same_stacks_def)
  then show "sched_ok (count_tick s)"
    using assms by (auto simp: contexts_ok_def sched_ok_def kernel_ok_def count_tick_fields word_less_nat_alt)
qed

text \<open>Draining the ring when no Enter is waiting.\<close>

lemma process_key_kernel:
  assumes "editor_ok s" and "sc \<noteq> 0x1C"
  shows "\<exists>s'. process_scancode sh sc s = Some s' \<and> ring s' = ring s \<and> ring_ok s' = ring_ok s \<and> editor_ok s' \<and>
     (shift_held s', line s') = type_key sc (shift_held s, line s) \<and> console.more s' = console.more s"
proof -
  obtain s' where s': "process_scancode sh sc s = Some s'" "ring s' = ring s" "ring_ok s' = ring_ok s" "editor_ok s'"
    "(shift_held s', line s') = type_key sc (shift_held s, line s)"
    using process_scancode_view [OF assms, of sh] by auto
  have "key_of (shift_held s) sc \<noteq> Enter" using assms(2) by (simp add: key_of_enter)
  then have "console.more s' = console.more s"
    using s'(1) by (auto simp: process_scancode_cases split: key.splits if_splits Option.bind_splits)
  then show ?thesis using s' by blast
qed

lemma drain_keys:
  fixes s :: "'a console_scheme"
  assumes "ring_ok s" and "editor_ok s" and "0x1C \<notin> set (ring s)"
  shows "\<exists>s'. scancode_drain (process_scancode sh) s = Some s' \<and> ring s' = [] \<and> ring_ok s' \<and> editor_ok s' \<and>
     (shift_held s', line s') = fold type_key (ring s) (shift_held s, line s) \<and> console.more s' = console.more s"
proof -
  let ?view = "\<lambda>s. (shift_held s, line s)"
  let ?I = "\<lambda>t. editor_ok t \<and> console.more t = console.more s"
  have "set (ring s) \<subseteq> {sc. sc \<noteq> 0x1C}" using assms(3) by auto
  have "\<exists>s'. scancode_drain (process_scancode sh) s = Some s' \<and> ring_ok s' \<and> ring s' = [] \<and>
      ?I s' \<and> ?view s' = fold type_key (ring s) (?view s)"
  proof (rule kbd.drain_all [OF assms(1) _ \<open>set (ring s) \<subseteq> _\<close>])
    show "?I s" using assms(2) by simp
  next
    fix x :: u8 and t :: "'a console_scheme" assume "ring_ok t" "?I t" "x \<in> {sc. sc \<noteq> 0x1C}"
    with process_key_kernel [of t x sh]
    show "\<exists>t'. process_scancode sh x t = Some t' \<and> ring_ok t' \<and> ring t' = ring t \<and> ?I t' \<and> ?view t' = type_key x (?view t)"
      by auto
  next
    fix t t' :: "'a console_scheme" and x assume "scancode_pop t = Some (Some x, t')" "?I t"
    then show "?I t' \<and> ?view t' = ?view t"
      by (auto simp: scancode_pop_def editor_ok_def line_def split: if_splits Option.bind_splits)
  qed
  then show ?thesis by auto
qed

text \<open>What the scheduler and Prajna may change.\<close>

definition sched_frame :: "'a kernel_scheme \<Rightarrow> 'a kernel_scheme \<Rightarrow> bool" where
  "sched_frame s s' \<longleftrightarrow> s' = s\<lparr>vga := vga s', tasks := tasks s', sch := sch s', ai := ai s'\<rparr>"

lemma sched_frame_fields:
  assumes "sched_frame s s'"
  shows "ticks s' = ticks s" "pages s' = pages s" "stackmem s' = stackmem s" "ring s' = ring s" "ring_ok s' = ring_ok s"
    "editor_ok s' = editor_ok s" "line s' = line s" "shift_held s' = shift_held s" "cursor_ok s' = cursor_ok s"
    "cur_row s' = cur_row s" "cur_col s' = cur_col s" "weights s' = weights s"
proof -
  have s': "s' = s\<lparr>vga := vga s', tasks := tasks s', sch := sch s', ai := ai s'\<rparr>" using assms by (simp add: sched_frame_def)
  show "ticks s' = ticks s" "pages s' = pages s" "stackmem s' = stackmem s" "ring s' = ring s" "ring_ok s' = ring_ok s"
    "editor_ok s' = editor_ok s" "line s' = line s" "shift_held s' = shift_held s" "cursor_ok s' = cursor_ok s"
    "cur_row s' = cur_row s" "cur_col s' = cur_col s" "weights s' = weights s"
    by (subst s', simp add: ring_def ring_len_def ring_ok_def editor_ok_def line_def cursor_ok_def)+
qed

lemma sched_frame_trans: "sched_frame s t \<Longrightarrow> sched_frame t u \<Longrightarrow> sched_frame s u"
proof -
  assume a: "sched_frame s t" and b: "sched_frame t u"
  have t: "t = s\<lparr>vga := vga t, tasks := tasks t, sch := sch t, ai := ai t\<rparr>" using a by (simp add: sched_frame_def)
  have u: "u = t\<lparr>vga := vga u, tasks := tasks u, sch := sch u, ai := ai u\<rparr>" using b by (simp add: sched_frame_def)
  have "u = s\<lparr>vga := vga u, tasks := tasks u, sch := sch u, ai := ai u\<rparr>" by (subst u, subst t) simp
  then show ?thesis by (simp add: sched_frame_def)
qed

lemma ai_frame_sched: "ai_frame s s' \<Longrightarrow> sched_frame s s'"
proof -
  assume "ai_frame s s'"
  then have s': "s' = s\<lparr>vga := vga s', tasks := tasks s', ai := ai s'\<rparr>" by (simp add: ai_frame_def)
  show ?thesis unfolding sched_frame_def by (subst s', subst (2) s') simp
qed

lemma sched_frame_upd: "sched_frame s s" "sched_frame s (s\<lparr>tasks := ts\<rparr>)" "sched_frame s (s\<lparr>sch := v\<rparr>)" "sched_frame s (s\<lparr>vga := w\<rparr>)"
  by (simp_all add: sched_frame_def)

lemma scheduler_choose_frame:
  assumes "scheduler_choose prev s = Some s'"
  shows "sched_frame s s'"
proof -
  obtain s1 best b where s1: "for_each (choose_step prev) [0..<MAX_TASKS] (s, MAX_TASKS, flit (- 1)) = Some (s1, best, b)"
    using assms by (auto simp: scheduler_choose_def split: Option.bind_splits)
  have "sched_frame s (fst (s1, best, b))"
  proof (rule for_each_invariant [OF s1])
    fix i and x y :: "'a kernel_scheme \<times> nat \<times> flt"
    assume x: "sched_frame s (fst x)" and y: "choose_step prev i x = Some y"
    have "sched_frame (fst x) (fst y)"
      using y by (cases x) (auto simp: choose_step_def Let_def sched_frame_upd split: if_splits Option.bind_splits)
    then show "sched_frame s (fst y)" using sched_frame_trans x by blast
  qed (simp add: sched_frame_def)
  then have "sched_frame s s1" by simp
  moreover have "sched_frame s1 s'"
    using assms s1 by (auto simp: scheduler_choose_def sched_frame_upd sched_frame_def split: if_splits Option.bind_splits)
  ultimately show ?thesis by (rule sched_frame_trans)
qed

lemma scheduler_tick_frame:
  assumes "sched_ok s" and "scheduler_tick s = Some s'"
  shows "sched_frame s s'"
proof (cases "task_count (sch s) = 0")
  case True
  then show ?thesis using assms(2) by (simp add: scheduler_tick_def sched_frame_def)
next
  case False
  obtain s1 where s1: "ai_kernel_tick s = Some s1" "ai_frame s s1"
    using ai_kernel_tick_total assms(1) by (auto simp: sched_ok_def)
  then obtain s2 where s2: "ml_score_tasks s1 = Some s2" "scheduler_choose (unat (current_task (sch s))) s2 = Some s'"
    using assms(2) False by (auto simp: scheduler_tick_def Let_def split: Option.bind_splits)
  have "sched_frame s1 s2" using s2(1) by (auto simp: ml_score_tasks_def sched_frame_upd split: Option.bind_splits)
  then show ?thesis
    using ai_frame_sched [OF s1(2)] scheduler_choose_frame [OF s2(2)] sched_frame_trans by blast
qed

text \<open>Switching leaves the console and the clock alone.\<close>

lemma do_switch_frame:
  assumes "scheduler_do_pending_switch c s = Some (left, c', s')"
  shows "ticks s' = ticks s" "ring s' = ring s" "ring_ok s' = ring_ok s" "editor_ok s' = editor_ok s" "line s' = line s"
    "shift_held s' = shift_held s" "cursor_ok s' = cursor_ok s" "vga s' = vga s" "left \<longleftrightarrow> switch_pending (sch s) \<noteq> 0"
  using assms
  by (auto simp: scheduler_do_pending_switch_def Let_def ring_def ring_len_def ring_ok_def editor_ok_def line_def cursor_ok_def
      split: if_splits Option.bind_splits)

lemma draw_top_bar_frame:
  assumes "contexts_ok s g"
  shows "\<exists>v. draw_top_bar s = Some (s\<lparr>vga := v\<rparr>) \<and> contexts_ok (s\<lparr>vga := v\<rparr>) g"
proof -
  have "kernel_ok s" using assms by (simp add: contexts_ok_def sched_ok_def)
  moreover have "contexts_ok (s\<lparr>vga := v\<rparr>) g" for v by (rule contexts_ok_kernel_part [OF assms]) simp
  ultimately show ?thesis using draw_top_bar_eq by blast
qed

text \<open>The handler after the keys are handled and the cursor has blinked.\<close>

definition scheduled :: "cpu \<Rightarrow> 'a kernel_scheme \<Rightarrow> (bool \<times> cpu \<times> 'a kernel_scheme) option" where
  "scheduled c s = do {
     (left, c, s) \<leftarrow> (if ticks s mod 100 = 0 then do { s \<leftarrow> scheduler_tick s; scheduler_do_pending_switch c s } else Some (False, c, s));
     if left then Some (True, c, s) else do { s \<leftarrow> pit_handler_rest s; Some (False, c, s) } }"

lemma pit_handler_eq:
  assumes "unat (current_task (sch s)) < length (tasks s)"
  shows "pit_handler sh c s = do {
     s \<leftarrow> scancode_drain (process_scancode sh) (count_tick s);
     scheduled c (if ticks s mod 10 = 0 then blink s else s) }"
  using assms by (simp add: pit_handler_def scheduled_def count_tick_def Let_def outb_def scheduler_get_current_task_def)

lemma drained_blink:
  "ring (blink s) = ring s" "ring_ok (blink s) = ring_ok s" "editor_ok (blink s) = editor_ok s" "line (blink s) = line s"
  "shift_held (blink s) = shift_held s" "cursor_ok (blink s) = cursor_ok s" "console.more (blink s) = console.more s"
  by (simp_all add: blink_def ring_def ring_len_def ring_ok_def editor_ok_def line_def cursor_ok_def)

text \<open>The first half, when no Enter is waiting: the clock, the keys, the cursor.\<close>

lemma handler_keys:
  fixes s :: "'a kernel_scheme"
  assumes "contexts_ok s g" and "ring_ok s" and "editor_ok s" and "0x1C \<notin> set (ring s)"
  shows "\<exists>t. pit_handler sh c s = scheduled c t \<and> contexts_ok t g \<and> same_stacks s t \<and> sch t = sch s \<and>
     ticks t = ticks s + 1 \<and> outs t = outs s @ [(0x20, 0x20)] \<and> ring t = [] \<and> ring_ok t \<and> editor_ok t \<and>
     (shift_held t, line t) = fold type_key (ring s) (shift_held s, line s)"
proof -
  define s1 where "s1 = count_tick s"
  note s1f = count_tick_fields [of s, folded s1_def]
  obtain s2 where s2: "scancode_drain (process_scancode sh) s1 = Some s2" "ring s2 = []" "ring_ok s2" "editor_ok s2"
    "(shift_held s2, line s2) = fold type_key (ring s) (shift_held s, line s)" "console.more s2 = console.more s1"
    using drain_keys [of s1 sh] assms(2-4) s1f by auto
  define t where "t = (if ticks s2 mod 10 = 0 then blink s2 else s2)"
  have m: "console.more t = console.more s1" using s2(6) by (simp add: t_def drained_blink)
  note k = kernel_part [OF m]
  have cur: "unat (current_task (sch s)) < length (tasks s)"
    using assms(1) by (simp add: contexts_ok_def sched_ok_def kernel_ok_def word_less_nat_alt)
  have "pit_handler sh c s = scheduled c t"
    using s2(1) unfolding pit_handler_eq [OF cur] s1_def [symmetric] by (simp flip: t_def)
  moreover have "contexts_ok t g" using contexts_ok_kernel_part [OF _ m] count_tick_ok [OF assms(1)] by (simp add: s1_def)
  moreover have "same_stacks s t" using count_tick_same_stacks [of s] k by (simp add: same_stacks_def s1_def)
  moreover have "sch t = sch s" "ticks t = ticks s + 1" "outs t = outs s @ [(0x20, 0x20)]"
    using k s1f by (simp_all add: s1_def count_tick_def Let_def outb_def)
  ultimately show ?thesis using s2 by (intro exI [of _ t]) (simp add: t_def drained_blink)
qed

text \<open>The second half: every hundredth tick the scheduler runs and may leave for another task.\<close>

definition same_line :: "'a console_scheme \<Rightarrow> 'a console_scheme \<Rightarrow> bool" where
  "same_line s s' \<longleftrightarrow> ring s' = ring s \<and> ring_ok s' = ring_ok s \<and> editor_ok s' = editor_ok s \<and> line s' = line s \<and>
     shift_held s' = shift_held s"

lemma scheduled_live:
  assumes "contexts_ok s g" and "on_stack s c (unat (current_task (sch s)))"
  shows "\<exists>left c' s'. scheduled c s = Some (left, c', s') \<and> ticks s' = ticks s \<and> same_line s s' \<and>
     contexts_ok s' (if left then g(unat (current_task (sch s)) := return_context c (stackmem s)) else g) \<and>
     (left \<longleftrightarrow> ticks s mod 100 = 0 \<and> (switch_pending (sch s) \<noteq> 0 \<or>
        task_count (sch s) \<noteq> 0 \<and> (\<exists>i<8. candidate (unat (current_task (sch s))) s i)))"
proof (cases "ticks s mod 100 = 0")
  case False
  then show ?thesis using assms(1) by (intro exI [of _ False]) (simp add: scheduled_def pit_handler_rest_def same_line_def)
next
  case True
  let ?cur = "unat (current_task (sch s))"
  have so: "sched_ok s" using assms(1) by (simp add: contexts_ok_def)
  obtain t where t: "scheduler_tick s = Some t" "contexts_ok t g" "same_stacks s t" using contexts_ok_tick [OF assms(1)] by blast
  have pend: "switch_pending (sch t) \<noteq> 0 \<longleftrightarrow> switch_pending (sch s) \<noteq> 0 \<or>
      task_count (sch s) \<noteq> 0 \<and> (\<exists>i<8. candidate ?cur s i)"
    using scheduler_tick_ok [OF so] t(1) by auto
  note f = sched_frame_fields [OF scheduler_tick_frame [OF so t(1)]]
  have c8: "?cur < 8" using so by (simp add: sched_ok_def kernel_ok_def word_less_nat_alt)
  have c: "current_task (sch t) = current_task (sch s)" "stackmem t = stackmem s" "stack (tasks t ! ?cur) = stack (tasks s ! ?cur)"
    using t(3) c8 by (simp_all add: same_stacks_def)
  show ?thesis
  proof (cases "switch_pending (sch t) = 0")
    case idle: True
    obtain v where v: "draw_top_bar t = Some (t\<lparr>vga := v\<rparr>)" "contexts_ok (t\<lparr>vga := v\<rparr>) g"
      using draw_top_bar_frame [OF t(2)] by blast
    have "scheduled c s = Some (False, c, t\<lparr>vga := v\<rparr>)"
      using True t(1) do_pending_idle [OF idle] v(1) f(1) by (simp add: scheduled_def pit_handler_rest_def)
    moreover have "same_line s (t\<lparr>vga := v\<rparr>)"
      using f by (simp add: same_line_def) (simp add: ring_def ring_len_def ring_ok_def editor_ok_def line_def)
    ultimately show ?thesis using idle pend f(1) v(2) by auto
  next
    case False
    have on: "on_stack t c (unat (current_task (sch t)))" using assms(2) c by (simp add: on_stack_def)
    obtain c' s' where s': "scheduler_do_pending_switch c t = Some (True, c', s')"
      "contexts_ok s' (g(?cur := return_context c (stackmem s)))"
      using contexts_ok_switch [OF t(2) False on] c by (auto simp del: fun_upd_apply)
    note d = do_switch_frame [OF s'(1)]
    have "scheduled c s = Some (True, c', s')" using True t(1) s'(1) by (simp add: scheduled_def)
    then show ?thesis using False pend f d s'(2) True by (simp add: same_line_def del: fun_upd_apply) blast
  qed
qed

text \<open>What the second half does to memory, to the ports and to the stacks: nothing, except for the switch.\<close>

lemma scheduled_effect:
  assumes "contexts_ok s g" and "on_stack s c (unat (current_task (sch s)))" and "scheduled c s = Some (left, c', s')"
  shows "outs s' = outs s \<and> stackmem s' = (if left then pushed c (stackmem s) else stackmem s) \<and> (\<not> left \<longrightarrow> c' = c) \<and>
     (\<forall>i<8. stack (tasks s' ! i) = stack (tasks s ! i)) \<and> (\<forall>i. live s i \<longrightarrow> live s' i) \<and> (left \<longleftrightarrow> current_task (sch s') \<noteq> current_task (sch s))"
proof (cases "ticks s mod 100 = 0")
  case False
  then show ?thesis using assms(3) by (auto simp: scheduled_def pit_handler_rest_def)
next
  case True
  have so: "sched_ok s" using assms(1) by (simp add: contexts_ok_def)
  obtain t where t: "scheduler_tick s = Some t" "contexts_ok t g" "same_stacks s t" using contexts_ok_tick [OF assms(1)] by blast
  have f: "t = s\<lparr>vga := vga t, tasks := tasks t, sch := sch t, ai := ai t\<rparr>" using scheduler_tick_frame [OF so t(1)] by (simp add: sched_frame_def)
  have ou: "outs t = outs s" "ticks t = ticks s" by (subst f, simp)+
  have c8: "unat (current_task (sch s)) < 8" using so by (simp add: sched_ok_def kernel_ok_def word_less_nat_alt)
  have m: "stackmem t = stackmem s" "current_task (sch t) = current_task (sch s)" "\<forall>i<8. stack (tasks t ! i) = stack (tasks s ! i)"
    "\<forall>i. live t i = live s i"
    using t(3) same_stacks_live [OF t(3)] by (simp_all add: same_stacks_def)
  show ?thesis
  proof (cases "switch_pending (sch t) = 0")
    case idle: True
    obtain v where "draw_top_bar t = Some (t\<lparr>vga := v\<rparr>)" using draw_top_bar_frame [OF t(2)] by blast
    then have "\<not> left \<and> c' = c \<and> s' = t\<lparr>vga := v\<rparr>" using assms(3) True t(1) do_pending_idle [OF idle] ou(2)
      by (auto simp: scheduled_def pit_handler_rest_def)
    moreover have "live (t\<lparr>vga := v\<rparr>) i = live t i" for i by (simp add: live_def)
    ultimately show ?thesis using m ou by simp
  next
    case False
    have on: "on_stack t c (unat (current_task (sch t)))" using assms(2) m c8 by (simp add: on_stack_def)
    have "left \<and> s' = switched c t"
      using assms(3) True t(1) contexts_ok_switched [OF t(2) False on] by (simp add: scheduled_def)
    moreover have "pending_target (sch t) \<noteq> current_task (sch t)"
    proof
      assume e: "pending_target (sch t) = current_task (sch t)"
      have "state (tasks t ! unat (pending_target (sch t))) = TASK_READY" "state (tasks t ! unat (current_task (sch t))) = TASK_RUNNING"
        using t(2) False c8 m(2) by (auto simp: contexts_ok_def sched_ok_def)
      then show False using e by simp
    qed
    ultimately show ?thesis using m ou switched_live [OF t(2) False] by (simp add: switched_fields switched_tasks)
  qed
qed

section \<open>Properties\<close>

text \<open>
  The status bar tells the truth: drawing it never fails and touches nothing but rows 0 and 1,
  which then show the name of Prajna's state in its colour, the number of free pages, the uptime in
  seconds and the number of live tasks in decimal - the fields never run into each other, whatever
  the values - and the divider.
\<close>

theorem status_bar:
  assumes "kernel_ok s"
  shows "\<exists>v. draw_top_bar s = Some (s\<lparr>vga := v\<rparr>) \<and> (\<forall>n\<ge>160. v n = vga s n) \<and>
     shows_text v 12 (snd (state_field (ai_get_state s))) (lit (state_text (ai_get_state s))) \<and>
     (let free = decimal (card (free_set (pages s))); up = decimal (unat (ticks s) div 100) in
      shows_text v 25 0x1F free \<and> shows_text v (25 + length free) 0x17 (lit ''pg'') \<and>
      shows_text v 48 0x1F up \<and> shows_text v (48 + length up) 0x17 (lit ''s'')) \<and>
     shows_text v 70 0x1F (decimal (live_tasks (tasks s))) \<and> shows_text v 80 0x08 (replicate 80 0xC4)"
proof -
  have len: "length (tasks s) = 8" using assms by (simp add: kernel_ok_def)
  have up: "unat (ticks s div 100) = unat (ticks s) div 100" by (simp add: unat_div)
  have f: "length (decimal (card (free_set (pages s)))) \<le> 6"
    using length_decimal [of "card (free_set (pages s))" 5] card_free_le [of "pages s"] by (simp add: TOTAL_PAGES_eq)
  have u: "length (decimal (unat (ticks s) div 100)) \<le> 8"
    using length_decimal [of "unat (ticks s) div 100" 7] unsigned_less [of "ticks s", where 'a = nat] by simp
  have c: "length (decimal (live_tasks (tasks s))) \<le> 2"
    using length_decimal [of "live_tasks (tasks s)" 1] live_tasks_le [OF len] by simp
  show ?thesis
    using draw_top_bar_eq [OF assms] bar_cells_content [OF f u c, where st = "ai_get_state s" and v = "vga s"]
    unfolding up Let_def by blast
qed

lemma status_bar_witness: "\<exists>v. draw_top_bar bss_kernel = Some (bss_kernel\<lparr>vga := v\<rparr>) \<and> shows_text v 12 0x1A (lit ''CALM  '')"
  using status_bar [OF kernel_ok_bss]
  by (auto simp: ai_get_state_def bss_kernel_def ai_init_def state_field_def state_text_def)

text \<open>
  C13: The timer interrupt is live and safe.  On any state satisfying the scheduler's invariant, with
  any keys but Enter waiting, the handler returns: the clock has advanced by one, every waiting key
  has been applied to the line in order and none is left, the invariants of the ring, the line
  editor, the scheduler and all suspended contexts hold - and the handler leaves for another task
  exactly at the hundredth ticks at which a switch was pending or another task is ready.
\<close>

theorem timer_interrupt_live:
  assumes "contexts_ok s g" and "on_stack s c (unat (current_task (sch s)))"
    and "ring_ok s" and "editor_ok s" and "0x1C \<notin> set (ring s)"
  shows "\<exists>left c' s'. pit_handler sh c s = Some (left, c', s') \<and> ticks s' = ticks s + 1 \<and>
     ring s' = [] \<and> ring_ok s' \<and> editor_ok s' \<and>
     (shift_held s', line s') = fold type_key (ring s) (shift_held s, line s) \<and>
     contexts_ok s' (if left then g(unat (current_task (sch s)) := return_context c (stackmem s)) else g) \<and>
     (left \<longleftrightarrow> (ticks s + 1) mod 100 = 0 \<and> (switch_pending (sch s) \<noteq> 0 \<or>
        task_count (sch s) \<noteq> 0 \<and> (\<exists>i<8. candidate (unat (current_task (sch s))) s i)))"
proof -
  obtain t where t: "pit_handler sh c s = scheduled c t" "contexts_ok t g" "same_stacks s t" "sch t = sch s" "ticks t = ticks s + 1"
    "ring t = []" "ring_ok t" "editor_ok t" "(shift_held t, line t) = fold type_key (ring s) (shift_held s, line s)"
    using handler_keys [OF assms(1,3-5), of sh c] by blast
  have "unat (current_task (sch s)) < 8" using assms(1) by (simp add: contexts_ok_def sched_ok_def kernel_ok_def word_less_nat_alt)
  then have on: "on_stack t c (unat (current_task (sch t)))" using assms(2) t(3,4) by (simp add: on_stack_def same_stacks_def)
  have st: "stackmem t = stackmem s" using t(3) by (simp add: same_stacks_def)
  have cand: "candidate p t = candidate p s" for p using t(3) by (intro ext) (auto simp: candidate_def same_stacks_def)
  obtain left c' s' where u: "scheduled c t = Some (left, c', s')" "ticks s' = ticks t" "same_line t s'"
    "contexts_ok s' (if left then g(unat (current_task (sch t)) := return_context c (stackmem t)) else g)"
    "left \<longleftrightarrow> ticks t mod 100 = 0 \<and> (switch_pending (sch t) \<noteq> 0 \<or>
       task_count (sch t) \<noteq> 0 \<and> (\<exists>i<8. candidate (unat (current_task (sch t))) t i))"
    using scheduled_live [OF t(2) on] by blast
  note u = u [unfolded t(4,5) st cand]
  show ?thesis using t(1,6-9) u(1-3)
    by (intro exI [of _ left] exI [of _ c'] exI [of _ s'] conjI u(4,5)) (simp_all add: same_line_def)
qed

lemma timer_interrupt_live_witness:
  "\<exists>(s :: kernel) c c' s'. pit_handler (\<lambda>_. Some) c s = Some (True, c', s') \<and> ring s = [0x1F] \<and> line s' = lit ''s'' \<and> ring s' = []"
proof -
  obtain s0 :: kernel and g p where s0: "contexts_ok s0 g" "task_count (sch s0) = 2" "current_task (sch s0) = 0"
     "state (tasks s0 ! 1) = TASK_READY" using two_booted by blast
  define s where "s = s0\<lparr>input_buf := replicate 256 0, buf_pos := 0, shift_held := False, scancode_buffer := replicate 16 0x1F,
     scancode_head := 1, scancode_tail := 0, ticks := 99\<rparr>"
  have k: "tasks s = tasks s0" "sch s = sch s0" "pages s = pages s0" "stackmem s = stackmem s0" "ai s = ai s0" "weights s = weights s0"
    by (simp_all add: s_def)
  have ok: "contexts_ok s g"
    by (rule contexts_ok_same [OF s0(1)])
       (use s0(1) in \<open>simp_all add: k contexts_ok_def sched_ok_def kernel_ok_def same_stacks_def\<close>)
  obtain c where c: "on_stack s c (unat (current_task (sch s)))" using room_on_stack [OF ok] by blast
  have cand: "\<exists>i<8. candidate 0 s i" using s0(4) by (intro exI [of _ 1]) (simp add: candidate_def k)
  have r: "ring s = [0x1F]" "ring_ok s" "editor_ok s" "line s = []" "\<not> shift_held s" "ticks s = 99"
    by (simp_all add: s_def ring_def ring_len_def ring_ok_def editor_ok_def line_def)
  have ty: "type_key 0x1F (False, []) = (False, lit ''s'')"
    by (simp add: type_key_def key_of_def keys_normal_def lit_def)
  obtain c' s' where "pit_handler (\<lambda>_. Some) c s = Some (True, c', s')" "ring s' = []" "line s' = lit ''s''"
    using timer_interrupt_live [OF ok c r(2,3), of "\<lambda>_. Some"] r cand s0(2,3) ty by (auto simp: k simp del: fun_upd_apply)
  then show ?thesis using r(1) by blast
qed

end
