(* ===== verification/Fat_Mount.thy ===== *)
theory Fat_Mount
  imports Fat_Dir
begin

text \<open>
  Mounting a volume (\<^verbatim>\<open>fat32_init\<close> of \<^verbatim>\<open>kernel/fat32.c\<close>, \<^verbatim>\<open>FAT32_Boot\<close> of \<^verbatim>\<open>include/fat32.h\<close>): the boot
  sector as a record with its packed layout, what \<open>fat32_init\<close> makes of it, and the layout of the
  volume it describes - where the table and the sectors of each cluster lie.
\<close>

section \<open>The boot sector\<close>

record fat32_boot =
  bt_jump :: "u8 list"
  bt_oem :: "u8 list"
  bt_bytes_per_sector :: u16
  bt_sectors_per_cluster :: u8
  bt_reserved_sectors :: u16
  bt_fat_count :: u8
  bt_root_entry_count :: u16
  bt_total_sectors_16 :: u16
  bt_media_type :: u8
  bt_fat_size_16 :: u16
  bt_sectors_per_track :: u16
  bt_head_count :: u16
  bt_hidden_sectors :: u32
  bt_total_sectors_32 :: u32
  bt_fat_size_32 :: u32
  bt_flags :: u16
  bt_version :: u16
  bt_root_cluster :: u32
  bt_fs_info_sector :: u16
  bt_reserved :: "u8 list"

definition le16 :: "u16 \<Rightarrow> u8 list" where
  "le16 v = [ucast v, ucast (drop_bit 8 v)]"

definition le32 :: "u32 \<Rightarrow> u8 list" where
  "le32 v = le16 (ucast v) @ le16 (ucast (drop_bit 16 v))"

text \<open>The bytes of the packed structure: 514 of them, of which the sector holds the first 512.\<close>

definition boot_bytes :: "fat32_boot \<Rightarrow> u8 list" where
  "boot_bytes b = bt_jump b @ bt_oem b @ le16 (bt_bytes_per_sector b) @ [bt_sectors_per_cluster b] @
     le16 (bt_reserved_sectors b) @ [bt_fat_count b] @ le16 (bt_root_entry_count b) @ le16 (bt_total_sectors_16 b) @
     [bt_media_type b] @ le16 (bt_fat_size_16 b) @ le16 (bt_sectors_per_track b) @ le16 (bt_head_count b) @
     le32 (bt_hidden_sectors b) @ le32 (bt_total_sectors_32 b) @ le32 (bt_fat_size_32 b) @ le16 (bt_flags b) @
     le16 (bt_version b) @ le32 (bt_root_cluster b) @ le16 (bt_fs_info_sector b) @ bt_reserved b"

definition boot_sizes :: "fat32_boot \<Rightarrow> bool" where
  "boot_sizes b \<longleftrightarrow> length (bt_jump b) = 3 \<and> length (bt_oem b) = 8 \<and> length (bt_reserved b) = 464"

text \<open>The signature of the sector lies in the padding of the structure.\<close>

definition boot_marked :: "fat32_boot \<Rightarrow> bool" where
  "boot_marked b \<longleftrightarrow> bt_reserved b ! 460 = 0x55 \<and> bt_reserved b ! 461 = 0xAA"

lemma unat_ucast_le: "LENGTH('a::len) \<le> LENGTH('b::len) \<Longrightarrow> unat (ucast (x :: 'a word) :: 'b word) = unat x"
  using less_le_trans [OF unsigned_less [of x] power_increasing [of "LENGTH('a)" "LENGTH('b)" "2 :: nat"]]
  by (simp add: unsigned_ucast_eq take_bit_nat_eq_self)

lemma length_le [simp]: "length (le16 v) = 2" "length (le32 w) = 4"
  by (simp_all add: le16_def le32_def)

lemma length_boot_bytes: "boot_sizes b \<Longrightarrow> length (boot_bytes b) = 514"
  by (simp add: boot_sizes_def boot_bytes_def)

lemma get16_le16: "length xs = p \<Longrightarrow> get16 (xs @ le16 v @ ys) p = Some v"
  by (auto simp: get16_def le16_def nth_append join_bytes)

lemma get32_le32:
  assumes "length xs = p"
  shows "get32 (xs @ le32 v @ ys) p = Some v"
proof -
  have "get16 (xs @ le32 v @ ys) p = Some (ucast v)" "get16 (xs @ le32 v @ ys) (p + 2) = Some (ucast (drop_bit 16 v))"
    using get16_le16 [OF assms, of "ucast v" "le16 (ucast (drop_bit 16 v)) @ ys"]
      get16_le16 [of "xs @ le16 (ucast v)" "p + 2" "ucast (drop_bit 16 v)" ys] assms by (simp_all add: le32_def)
  then show ?thesis by (simp add: get32_def join_halves)
qed

lemma take_append_shorter: "length xs \<le> n \<Longrightarrow> take n (xs @ ys) = xs @ take (n - length xs) ys"
  by simp

text \<open>What \<open>fat32_init\<close> reads in the sector.\<close>

lemma boot_fields:
  assumes "boot_sizes b"
  defines "s \<equiv> take 512 (boot_bytes b)"
  shows "length s = 512" and "s ! 13 = bt_sectors_per_cluster b" and "get16 s 14 = Some (bt_reserved_sectors b)"
    and "s ! 16 = bt_fat_count b" and "get32 s 36 = Some (bt_fat_size_32 b)" and "get32 s 44 = Some (bt_root_cluster b)"
    and "s ! 510 = bt_reserved b ! 460" and "s ! 511 = bt_reserved b ! 461"
proof -
  define a where "a = bt_jump b @ bt_oem b @ le16 (bt_bytes_per_sector b)"
  define c where "c = le16 (bt_root_entry_count b) @ le16 (bt_total_sectors_16 b) @
     [bt_media_type b] @ le16 (bt_fat_size_16 b) @ le16 (bt_sectors_per_track b) @ le16 (bt_head_count b) @
     le32 (bt_hidden_sectors b) @ le32 (bt_total_sectors_32 b)"
  define e where "e = le16 (bt_flags b) @ le16 (bt_version b)"
  define g where "g = le16 (bt_fs_info_sector b) @ take 462 (bt_reserved b)"
  have len: "length a = 13" "length c = 19" "length e = 4" "length g = 464" "length (bt_reserved b) = 464"
    using assms(1) by (simp_all add: a_def c_def e_def g_def boot_sizes_def)
  have s: "s = a @ [bt_sectors_per_cluster b] @ le16 (bt_reserved_sectors b) @ [bt_fat_count b] @ c @
      le32 (bt_fat_size_32 b) @ e @ le32 (bt_root_cluster b) @ g"
    using assms(1) by (simp add: s_def boot_bytes_def a_def c_def e_def g_def boot_sizes_def)
  show "length s = 512" "s ! 13 = bt_sectors_per_cluster b" "s ! 16 = bt_fat_count b"
    using len by (simp_all add: s nth_append)
  show "get16 s 14 = Some (bt_reserved_sectors b)"
    using get16_le16 [of "a @ [bt_sectors_per_cluster b]"] len by (simp add: s)
  show "get32 s 36 = Some (bt_fat_size_32 b)"
    using get32_le32 [of "a @ [bt_sectors_per_cluster b] @ le16 (bt_reserved_sectors b) @ [bt_fat_count b] @ c"] len by (simp add: s)
  show "get32 s 44 = Some (bt_root_cluster b)"
    using get32_le32 [of "a @ [bt_sectors_per_cluster b] @ le16 (bt_reserved_sectors b) @ [bt_fat_count b] @ c @
      le32 (bt_fat_size_32 b) @ e"] len by (simp add: s)
  show "s ! 510 = bt_reserved b ! 460" "s ! 511 = bt_reserved b ! 461"
    using len by (simp_all add: s nth_append g_def)
qed

text \<open>The structure can be laid over every sector.\<close>

lemma le16_get16: "p + 2 \<le> length s \<Longrightarrow> le16 (the (get16 s p)) = take 2 (drop p s)"
proof -
  assume p: "p + 2 \<le> length s"
  have "ucast (ucast x OR push_bit 8 (ucast y) :: u16) = x" for x y :: u8 by (rule bit_word_eqI) (auto simp: bit_simps)
  moreover have "ucast (drop_bit 8 (ucast x OR push_bit 8 (ucast y) :: u16)) = y" for x y :: u8
    by (rule bit_word_eqI) (auto simp: bit_simps dest: bit_imp_possible_bit)
  moreover have "take 2 (drop p s) = [s ! p, s ! (p + 1)]" using p by (simp add: numeral_2_eq_2 take_Suc_conv_app_nth)
  ultimately show ?thesis using p by (simp add: get16_def le16_def)
qed

lemma le32_get32:
  assumes "p + 4 \<le> length s"
  shows "le32 (the (get32 s p)) = take 4 (drop p s)"
proof -
  obtain v w where vw: "get16 s p = Some v" "get16 s (p + 2) = Some w" using assms get16_in [of p s] get16_in [of "p + 2" s] by auto
  let ?u = "ucast v OR push_bit 16 (ucast w) :: u32"
  have "ucast ?u = v" by (rule bit_word_eqI) (auto simp: bit_simps)
  moreover have "ucast (drop_bit 16 ?u) = w" by (rule bit_word_eqI) (auto simp: bit_simps dest: bit_imp_possible_bit)
  moreover have "le16 v @ le16 w = take 4 (drop p s)"
    using le16_get16 [of p s] le16_get16 [of "p + 2" s] vw assms take_add [of 2 2 "drop p s"] by (simp add: add.commute)
  ultimately show ?thesis using vw by (simp add: get32_def le32_def)
qed

lemma boot_overlay:
  assumes "length s = 512"
  shows "\<exists>b. boot_sizes b \<and> s = take 512 (boot_bytes b)"
proof -
  let ?w = "\<lambda>p. the (get16 s p)" and ?l = "\<lambda>p. the (get32 s p)"
  let ?b = "\<lparr>bt_jump = take 3 (drop 0 s), bt_oem = take 8 (drop 3 s), bt_bytes_per_sector = ?w 11, bt_sectors_per_cluster = s ! 13,
     bt_reserved_sectors = ?w 14, bt_fat_count = s ! 16, bt_root_entry_count = ?w 17, bt_total_sectors_16 = ?w 19, bt_media_type = s ! 21,
     bt_fat_size_16 = ?w 22, bt_sectors_per_track = ?w 24, bt_head_count = ?w 26, bt_hidden_sectors = ?l 28, bt_total_sectors_32 = ?l 32,
     bt_fat_size_32 = ?l 36, bt_flags = ?w 40, bt_version = ?w 42, bt_root_cluster = ?l 44, bt_fs_info_sector = ?w 48,
     bt_reserved = drop 50 s @ [0, 0]\<rparr>"
  have w: "le16 (?w p) = take 2 (drop p s)" if "p + 2 \<le> 512" for p using le16_get16 that assms by simp
  have l: "le32 (?l p) = take 4 (drop p s)" if "p + 4 \<le> 512" for p using le32_get32 that assms by simp
  have one: "[s ! p] = take 1 (drop p s)" if "p < 512" for p using that assms by (simp add: take_Suc_conv_app_nth)
  have glue: "take m (drop p s) @ drop q s @ ys = drop p s @ ys" if "q = p + m" for m p q ys
    using append_take_drop_id [of m "drop p s"] that by (simp add: add.commute flip: append_assoc)
  have "boot_bytes ?b = drop 0 s @ [0, 0]"
    unfolding boot_bytes_def fat32_boot.select_convs by (simp add: w l one glue del: drop_0 append_Cons)
  moreover have "boot_sizes ?b" using assms by (simp add: boot_sizes_def)
  ultimately show ?thesis using assms by (intro exI [of _ ?b]) simp
qed

section \<open>The mounted volume\<close>

definition mounted :: "u32 \<Rightarrow> fat32_boot \<Rightarrow> fat" where
  "mounted lba b = (let start = lba + ucast (bt_reserved_sectors b) in
     \<lparr>fat_start_lba = start, data_start_lba = start + ucast (bt_fat_count b) * bt_fat_size_32 b,
      root_cluster = bt_root_cluster b, sectors_per_cluster = bt_sectors_per_cluster b,
      current_cluster = bt_root_cluster b, previous_cluster = bt_root_cluster b\<rparr>)"

context block_device
begin

lemma mount:
  assumes "good d" and "lba < 2 ^ 28" and "boot_sizes b" and "sectors d lba = take 512 (boot_bytes b)"
  shows "\<exists>d'. fat32_init D lba f d = Some (if boot_marked b then (0, mounted lba b, d') else (2, f, d')) \<and>
    good d' \<and> sectors d' = sectors d"
proof -
  obtain d' where d': "ata_read_sector D lba 0 (replicate 512 0) d = Some (0, sectors d lba, d')" "good d'" "sectors d' = sectors d"
    using read_whole [OF assms(1,2)] .
  note b = boot_fields [OF assms(3), folded assms(4)]
  have "fat32_init D lba f d = Some (if boot_marked b then (0, mounted lba b, d') else (2, f, d'))"
    using d'(1) b by (simp add: fat32_init_def boot_marked_def mounted_def Let_def)
  then show ?thesis using d' by blast
qed

end

text \<open>
  A boot sector whose volume fits below sector \<open>2\<^sup>2\<^sup>8\<close>: the table starts below \<open>2\<^sup>2\<^sup>7\<close>, has an entry for each of
  the \<open>n\<close> clusters, and the root directory is one of them.
\<close>

definition data_start :: "u32 \<Rightarrow> fat32_boot \<Rightarrow> nat" where
  "data_start lba b = unat lba + unat (bt_reserved_sectors b) + unat (bt_fat_count b) * unat (bt_fat_size_32 b)"

definition volume_fits :: "u32 \<Rightarrow> fat32_boot \<Rightarrow> nat \<Rightarrow> bool" where
  "volume_fits lba b n \<longleftrightarrow> unat lba + unat (bt_reserved_sectors b) < 2 ^ 27 \<and> bt_fat_count b \<noteq> 0 \<and> bt_sectors_per_cluster b \<noteq> 0 \<and>
     n + 2 \<le> 128 * unat (bt_fat_size_32 b) \<and> n + 2 \<le> unat END_OF_CHAIN \<and>
     data_start lba b + n * unat (bt_sectors_per_cluster b) \<le> 2 ^ 28 \<and>
     2 \<le> unat (bt_root_cluster b) \<and> unat (bt_root_cluster b) < n + 2"

lemma mounted_starts:
  assumes "volume_fits lba b n"
  shows "unat (fat_start_lba (mounted lba b)) = unat lba + unat (bt_reserved_sectors b)"
    and "unat (data_start_lba (mounted lba b)) = data_start lba b"
proof -
  have start: "unat (lba + ucast (bt_reserved_sectors b)) = unat lba + unat (bt_reserved_sectors b)"
    using assms by (simp add: volume_fits_def unat_word_ariths(1) unat_ucast_le)
  then show "unat (fat_start_lba (mounted lba b)) = unat lba + unat (bt_reserved_sectors b)" by (simp add: mounted_def Let_def)
  have le: "unat (bt_fat_count b) * unat (bt_fat_size_32 b) \<le> 2 ^ 28" "data_start lba b \<le> 2 ^ 28"
    using assms by (simp_all add: volume_fits_def data_start_def)
  have "unat (ucast (bt_fat_count b) * bt_fat_size_32 b) = unat (bt_fat_count b) * unat (bt_fat_size_32 b)"
    using le(1) by (simp add: unat_word_ariths(2) unat_ucast_le)
  then show "unat (data_start_lba (mounted lba b)) = data_start lba b"
    using start le(2) by (simp add: mounted_def Let_def unat_word_ariths(1) [of "lba + _"] data_start_def)
qed

text \<open>The number of the \<open>k\<close>-th sector of a cluster, without wrap-around.\<close>

lemma cluster_sector:
  assumes "volume_fits lba b n" and "2 \<le> unat c" and "unat c < n + 2" and "k < unat (bt_sectors_per_cluster b)"
  shows "unat (cluster_to_lba (mounted lba b) c + of_nat k) = data_start lba b + (unat c - 2) * unat (bt_sectors_per_cluster b) + k"
    and "data_start lba b + (unat c - 2) * unat (bt_sectors_per_cluster b) + k < 2 ^ 28"
proof -
  let ?s = "unat (bt_sectors_per_cluster b)"
  have "unat c - 2 + 1 \<le> n" using assms(2,3) by linarith
  from mult_le_mono1 [OF this, of ?s] have "(unat c - 2) * ?s + ?s \<le> n * ?s" by (simp add: distrib_right)
  then show less: "data_start lba b + (unat c - 2) * ?s + k < 2 ^ 28" using assms(1,4) by (simp add: volume_fits_def)
  have "unat (c - 2) = unat c - 2" using assms(2) by (simp add: unat_sub word_le_nat_alt)
  then have m: "unat ((c - 2) * ucast (bt_sectors_per_cluster b)) = (unat c - 2) * ?s"
    using less by (simp add: unat_word_ariths(2) unat_ucast_le)
  have spc: "sectors_per_cluster (mounted lba b) = bt_sectors_per_cluster b" by (simp add: mounted_def Let_def)
  have "unat (cluster_to_lba (mounted lba b) c) = data_start lba b + (unat c - 2) * ?s"
    using less m mounted_starts(2) [OF assms(1)] by (simp add: cluster_to_lba_def spc unat_word_ariths(1))
  then show "unat (cluster_to_lba (mounted lba b) c + of_nat k) = data_start lba b + (unat c - 2) * ?s + k"
    using less by (simp add: unat_word_ariths(1) unat_of_nat)
qed

lemma cluster_sectors_range:
  assumes "volume_fits lba b n" and "2 \<le> unat c" and "unat c < n + 2" and "x \<in> set (cluster_sectors (mounted lba b) c)"
  shows "data_start lba b + (unat c - 2) * unat (bt_sectors_per_cluster b) \<le> unat x"
    and "unat x < data_start lba b + (unat c - 1) * unat (bt_sectors_per_cluster b)" and "x < 2 ^ 28"
proof -
  obtain k where k: "k < unat (bt_sectors_per_cluster b)" "x = cluster_to_lba (mounted lba b) c + of_nat k"
    using assms(4) by (auto simp: cluster_sectors_def mounted_def Let_def)
  note s = cluster_sector [OF assms(1-3) k(1)]
  have "unat c - 1 = unat c - 2 + 1" using assms(2) by simp
  then have "(unat c - 1) * unat (bt_sectors_per_cluster b) = (unat c - 2) * unat (bt_sectors_per_cluster b) + unat (bt_sectors_per_cluster b)"
    by (simp only: distrib_right mult_1)
  then show "data_start lba b + (unat c - 2) * unat (bt_sectors_per_cluster b) \<le> unat x"
    "unat x < data_start lba b + (unat c - 1) * unat (bt_sectors_per_cluster b)" "x < 2 ^ 28"
    using s k by (simp_all add: word_less_nat_alt)
qed

text \<open>The clusters of the volume, and where their entries and sectors lie.\<close>

definition in_volume :: "nat \<Rightarrow> u32 \<Rightarrow> bool" where
  "in_volume n c \<longleftrightarrow> 2 \<le> unat c \<and> unat c < n + 2"

lemma in_volume_less:
  assumes "volume_fits lba b n" and "in_volume n c"
  shows "c < END_OF_CHAIN" and "c < 2 ^ 28" and "c \<noteq> 0"
proof -
  show "c < END_OF_CHAIN" using assms by (simp add: in_volume_def volume_fits_def word_less_nat_alt)
  then show "c < 2 ^ 28" by (rule end_of_chain_less)
  show "c \<noteq> 0" using assms(2) by (auto simp: in_volume_def)
qed

lemma mounted_start_less: "volume_fits lba b n \<Longrightarrow> fat_start_lba (mounted lba b) < 2 ^ 27"
  using mounted_starts(1) [of lba b n] by (simp add: volume_fits_def word_less_nat_alt)

lemma first_sector: "volume_fits lba b n \<Longrightarrow> cluster_to_lba (mounted lba b) c \<in> set (cluster_sectors (mounted lba b) c)"
  by (auto simp: cluster_sectors_def volume_fits_def mounted_def Let_def unat_gt_0 intro: image_eqI [of _ _ 0])

lemma data_sector_less: "volume_fits lba b n \<Longrightarrow> in_volume n c \<Longrightarrow> x \<in> set (cluster_sectors (mounted lba b) c) \<Longrightarrow> x < 2 ^ 28"
  using cluster_sectors_range(3) unfolding in_volume_def by blast

lemma table_below_data:
  assumes "volume_fits lba b n" and "in_volume n c" and "in_volume n c'" and "x \<in> set (cluster_sectors (mounted lba b) c)"
  shows "fat_sector (mounted lba b) c' < x"
proof -
  let ?f = "mounted lba b"
  have "unat c' div 128 < unat (bt_fat_size_32 b)" using assms(1,3) by (simp add: in_volume_def volume_fits_def div_less_iff_less_mult)
  moreover have "unat (bt_fat_size_32 b) \<le> unat (bt_fat_count b) * unat (bt_fat_size_32 b)"
    using assms(1) unat_gt_0 [of "bt_fat_count b"] by (simp add: volume_fits_def Suc_le_eq)
  moreover have "unat (fat_sector ?f c') = unat lba + unat (bt_reserved_sectors b) + unat c' div 128"
    using fat_sector_less(2) [OF in_volume_less(2) [OF assms(1,3)] mounted_start_less [OF assms(1)]] mounted_starts(1) [OF assms(1)] by simp
  moreover have "data_start lba b \<le> unat x" using cluster_sectors_range(1) [OF assms(1) _ _ assms(4)] assms(2) by (simp add: in_volume_def)
  ultimately show ?thesis unfolding word_less_nat_alt data_start_def by linarith
qed

lemma block_less: "m + a * s \<le> x \<Longrightarrow> x < m + b * s \<Longrightarrow> a < (b :: nat)"
  using mult_le_mono1 [of b a s] by linarith

lemma clusters_apart:
  assumes "volume_fits lba b n" and "in_volume n c" and "in_volume n c'" and "c \<noteq> c'" and "x \<in> set (cluster_sectors (mounted lba b) c)"
  shows "x \<notin> set (cluster_sectors (mounted lba b) c')"
proof
  assume x': "x \<in> set (cluster_sectors (mounted lba b) c')"
  let ?s = "unat (bt_sectors_per_cluster b)"
  have v: "2 \<le> unat c" "unat c < n + 2" "2 \<le> unat c'" "unat c' < n + 2" using assms(2,3) by (simp_all add: in_volume_def)
  note r = cluster_sectors_range(1,2) [OF assms(1) v(1,2) assms(5)] and r' = cluster_sectors_range(1,2) [OF assms(1) v(3,4) x']
  have "unat c - 2 < unat c' - 1" "unat c' - 2 < unat c - 1" by (rule block_less [OF r(1) r'(2)], rule block_less [OF r'(1) r(2)])
  then have "unat c = unat c'" using v by linarith
  then show False using assms(4) by (simp only: word_unat_eq_iff)
qed

lemma mounted_dir_ok:
  assumes "volume_fits lba b n"
  shows "dir_ok (mounted lba b)"
proof -
  let ?f = "mounted lba b"
  have r: "in_volume n (bt_root_cluster b)" "current_cluster ?f = bt_root_cluster b" "sectors_per_cluster ?f = bt_sectors_per_cluster b"
    using assms by (simp_all add: in_volume_def volume_fits_def mounted_def Let_def)
  have "dir_lba ?f < 2 ^ 28"
    using cluster_sectors_range(3) [OF assms _ _ first_sector [OF assms, of "bt_root_cluster b"]] r by (simp add: in_volume_def dir_lba_def)
  moreover have "bt_sectors_per_cluster b \<noteq> 0" using assms by (simp add: volume_fits_def)
  ultimately show ?thesis
    using in_volume_less(1) [OF assms r(1)] mounted_start_less [OF assms] r(2,3) by (simp add: dir_ok_def)
qed

section \<open>Files do not interfere\<close>

lemma data_sectors_in: "y \<in> set (data_sectors f cs) \<longleftrightarrow> (\<exists>c\<in>set cs. y \<in> set (cluster_sectors f c))"
  by (auto simp: data_sectors_def)

text \<open>The entries and sectors of a chain are the same on two disks.\<close>

definition undisturbed :: "fat \<Rightarrow> u32 list \<Rightarrow> (u32 \<Rightarrow> u8 list) \<Rightarrow> (u32 \<Rightarrow> u8 list) \<Rightarrow> bool" where
  "undisturbed f cs secs secs' \<longleftrightarrow> (\<forall>c\<in>set cs. fat_value f secs' c = fat_value f secs c) \<and>
     (\<forall>y\<in>set (data_sectors f cs). secs' y = secs y)"

lemma write_undisturbed:
  assumes "volume_fits lba b n" and "in_volume n c" and "\<forall>x\<in>set cs. in_volume n x" and "c \<notin> set cs"
  shows "undisturbed (mounted lba b) cs secs (secs(cluster_to_lba (mounted lba b) c := data))"
proof -
  let ?f = "mounted lba b"
  note first = first_sector [OF assms(1), of c]
  have "fat_sector ?f x \<noteq> cluster_to_lba ?f c" if "x \<in> set cs" for x
    using table_below_data [OF assms(1,2) _ first, of x] assms(3) that by auto
  moreover have "y \<noteq> cluster_to_lba ?f c" if "x \<in> set cs" "y \<in> set (cluster_sectors ?f x)" for x y
    using clusters_apart [OF assms(1,2) _ _ first, of x] assms(3,4) that by auto
  ultimately show ?thesis by (auto simp: undisturbed_def fat_value_def data_sectors_in)
qed

lemma delete_undisturbed:
  assumes "volume_fits lba b n" and "\<forall>x\<in>set cs. in_volume n x" and "\<forall>x\<in>set cs'. in_volume n x" and "set cs \<inter> set cs' = {}"
    and "in_volume n r" and "r \<notin> set cs'" and dir: "dir \<in> set (cluster_sectors (mounted lba b) r)"
    and "\<And>x. x < 2 ^ 28 \<Longrightarrow> fat_sector (mounted lba b) x \<noteq> dir \<Longrightarrow>
      fat_value (mounted lba b) secs' x = (if x \<in> set cs then 0 else fat_value (mounted lba b) secs x)"
    and "\<And>y. y \<noteq> dir \<Longrightarrow> y \<notin> fat_sector (mounted lba b) ` set cs \<Longrightarrow> secs' y = secs y"
  shows "undisturbed (mounted lba b) cs' secs secs'"
proof -
  let ?f = "mounted lba b"
  have "fat_value ?f secs' x = fat_value ?f secs x" if "x \<in> set cs'" for x
  proof -
    have x: "in_volume n x" "x \<notin> set cs" using assms(3,4) that by auto
    have "fat_sector ?f x \<noteq> dir" using table_below_data [OF assms(1,5) x(1) dir] by simp
    then show ?thesis using assms(8) [OF in_volume_less(2) [OF assms(1) x(1)]] x(2) by simp
  qed
  moreover have "secs' y = secs y" if x: "x \<in> set cs'" "y \<in> set (cluster_sectors ?f x)" for x y
  proof (rule assms(9))
    have v: "in_volume n x" "r \<noteq> x" using assms(3,6) x(1) by auto
    show "y \<noteq> dir" using clusters_apart [OF assms(1) v(1) assms(5) v(2) [symmetric] x(2)] dir by auto
    show "y \<notin> fat_sector ?f ` set cs" using table_below_data [OF assms(1) v(1) _ x(2)] assms(2) by force
  qed
  ultimately show ?thesis by (auto simp: undisturbed_def data_sectors_in)
qed

text \<open>What reading a file gives, the state of the drive aside.\<close>

definition read_result ::
    "('d, 'x) ata_device_scheme \<Rightarrow> fat \<Rightarrow> fat_entry \<Rightarrow> u8 list \<Rightarrow> u32 \<Rightarrow> 'd \<Rightarrow> (u8 \<times> u8 list) option" where
  "read_result D f e buf mx d = map_option (\<lambda>(r, buf, d). (r, buf)) (fat32_read_file D f e buf mx d)"

context block_device
begin

lemma read_undisturbed:
  assumes "good d" and "good d'" and "fat_start_lba f < 2 ^ 27"
    and "fat_chain f (sectors d) (entry_cluster e) cs" and "\<forall>y\<in>set (data_sectors f cs). y < 2 ^ 28"
    and "undisturbed f cs (sectors d) (sectors d')"
    and "length buf < 2 ^ 32" and "512 * min (length (data_sectors f (take 129 cs))) (wanted mx) \<le> length buf"
  shows "read_result D f e buf mx d' = read_result D f e buf mx d \<and> read_result D f e buf mx d \<noteq> None"
proof -
  have chain: "fat_chain f (sectors d') (entry_cluster e) cs"
    using fat_chain_cong [OF assms(4)] assms(6) by (simp add: undisturbed_def)
  have "set (take (wanted mx) (data_sectors f (take 129 cs))) \<subseteq> set (data_sectors f cs)"
    by (fastforce simp: data_sectors_def dest!: in_set_takeD)
  then have "map (sectors d') (take (wanted mx) (data_sectors f (take 129 cs))) = map (sectors d) (take (wanted mx) (data_sectors f (take 129 cs)))"
    using assms(6) by (auto simp: undisturbed_def)
  note same = this
  obtain s where "fat32_read_file D f e buf mx d =
      Some (0, put_sectors buf 0 (map (sectors d) (take (wanted mx) (data_sectors f (take 129 cs)))), s)"
    using read_contents [OF assms(1,3,4,5,7,8)] by blast
  moreover obtain s' where "fat32_read_file D f e buf mx d' =
      Some (0, put_sectors buf 0 (map (sectors d) (take (wanted mx) (data_sectors f (take 129 cs)))), s')"
    using read_contents [OF assms(2,3) chain assms(5,7,8)] unfolding same by blast
  ultimately show ?thesis by (simp add: read_result_def)
qed

end

section \<open>Properties of a mounted volume\<close>

text \<open>
  C10: What the driver mounts is the volume the boot sector describes: on any readable sector - the packed
  boot structure can be laid over every one - \<open>fat32_init\<close> returns 0 with the geometry of its fields and
  the root as current directory, or 2 with nothing changed when the signature is missing.  When the
  volume described fits the disk, the directory can be read and the layout is sound: the sectors of every
  cluster have 28-bit numbers, lie after every table entry and belong to no other cluster.
\<close>

theorem fat_mount:
  assumes "block_device D sectors good" and "good d" and "lba < 2 ^ 28"
  shows "(\<exists>b. boot_sizes b \<and> sectors d lba = take 512 (boot_bytes b)) \<and>
     (\<forall>b. boot_sizes b \<and> sectors d lba = take 512 (boot_bytes b) \<longrightarrow>
       (\<exists>d'. fat32_init D lba f d = Some (if boot_marked b then (0, mounted lba b, d') else (2, f, d')) \<and> sectors d' = sectors d) \<and>
       (\<forall>n. volume_fits lba b n \<longrightarrow> dir_ok (mounted lba b) \<and>
          (\<forall>c c' x. in_volume n c \<and> in_volume n c' \<and> x \<in> set (cluster_sectors (mounted lba b) c) \<longrightarrow>
             x < 2 ^ 28 \<and> fat_sector (mounted lba b) c' < x \<and> (c \<noteq> c' \<longrightarrow> x \<notin> set (cluster_sectors (mounted lba b) c')))))"
proof (intro conjI allI impI)
  show "\<exists>b. boot_sizes b \<and> sectors d lba = take 512 (boot_bytes b)"
    using boot_overlay block_device.sector_length [OF assms(1,2)] by metis
next
  fix b assume "boot_sizes b \<and> sectors d lba = take 512 (boot_bytes b)"
  then show "\<exists>d'. fat32_init D lba f d = Some (if boot_marked b then (0, mounted lba b, d') else (2, f, d')) \<and> sectors d' = sectors d"
    using block_device.mount [OF assms] by blast
next
  fix b n assume vf: "volume_fits lba b n"
  then show "dir_ok (mounted lba b)" by (rule mounted_dir_ok)
  fix c c' x assume "in_volume n c \<and> in_volume n c' \<and> x \<in> set (cluster_sectors (mounted lba b) c)"
  then have v: "in_volume n c" "in_volume n c'" "x \<in> set (cluster_sectors (mounted lba b) c)" by blast+
  show "x < 2 ^ 28" "fat_sector (mounted lba b) c' < x" using data_sector_less [OF vf v(1,3)] table_below_data [OF vf v] by blast+
  show "x \<notin> set (cluster_sectors (mounted lba b) c')" if "c \<noteq> c'" using clusters_apart [OF vf v(1,2) that v(3)] .
qed

definition small_volume :: fat32_boot where
  "small_volume = \<lparr>bt_jump = [0xEB, 0x58, 0x90], bt_oem = replicate 8 0x20, bt_bytes_per_sector = 512, bt_sectors_per_cluster = 2,
     bt_reserved_sectors = 32, bt_fat_count = 2, bt_root_entry_count = 0, bt_total_sectors_16 = 0, bt_media_type = 0xF8,
     bt_fat_size_16 = 0, bt_sectors_per_track = 63, bt_head_count = 255, bt_hidden_sectors = 0, bt_total_sectors_32 = 234,
     bt_fat_size_32 = 1, bt_flags = 0, bt_version = 0, bt_root_cluster = 2, bt_fs_info_sector = 1,
     bt_reserved = replicate 460 0 @ [0x55, 0xAA, 0, 0]\<rparr>"

text \<open>A disk with that volume: the file in cluster 4 is listed in the first slot of the root, cluster 5 ends a chain.\<close>

definition small_disk :: pio where
  "small_disk = blank_pio\<lparr>p_sectors := (\<lambda>lba. replicate 512 0)
     (0 := take 512 (boot_bytes small_volume),
      32 := replicate 8 0 @ [0xFF, 0xFF, 0xFF, 0x0F] @ replicate 4 0 @ [0xFF, 0xFF, 0xFF, 0x0F, 0xFF, 0xFF, 0xFF, 0x0F] @ replicate 488 0,
      34 := take 0 (replicate 512 0) @ new_entry [0x49, 0x52, 0x49, 0x53, 0x20, 0x20, 0x20, 0x20] [0x42, 0x49, 0x4E] 4 @
        drop 32 (replicate 512 0))\<rparr>"

lemma small_volume:
  "boot_sizes small_volume" "boot_marked small_volume" "volume_fits 0 small_volume 100"
  "mounted 0 small_volume = \<lparr>fat_start_lba = 32, data_start_lba = 34, root_cluster = 2, sectors_per_cluster = 2, current_cluster = 2, previous_cluster = 2\<rparr>"
  by (simp_all add: boot_sizes_def boot_marked_def volume_fits_def data_start_def END_OF_CHAIN_def mounted_def small_volume_def nth_append)

lemma small_disk:
  "pio_good small_disk" "p_sectors small_disk 0 = take 512 (boot_bytes small_volume)"
  using length_boot_bytes [OF small_volume(1)] by (simp_all add: pio_good_def small_disk_def new_entry_def)

lemma fat_mount_witness:
  "\<exists>d'. fat32_init pio_drive 0 blank_fat small_disk = Some (0, mounted 0 small_volume, d') \<and> dir_ok (mounted 0 small_volume) \<and>
     (\<forall>x\<in>set (cluster_sectors (mounted 0 small_volume) 7). fat_sector (mounted 0 small_volume) 99 < x)"
proof -
  have v: "in_volume 100 7" "in_volume 100 99" by (simp_all add: in_volume_def)
  have z: "(0 :: u32) < 2 ^ 28" by simp
  note m = fat_mount [OF pio.block_device_axioms small_disk(1) z, of blank_fat, THEN conjunct2, THEN spec, THEN mp,
      OF conjI [OF small_volume(1) small_disk(2)]]
  obtain d' where "fat32_init pio_drive 0 blank_fat small_disk = Some (0, mounted 0 small_volume, d')"
    using m [THEN conjunct1] small_volume(2) by auto
  moreover have "dir_ok (mounted 0 small_volume)" "\<forall>x\<in>set (cluster_sectors (mounted 0 small_volume) 7). fat_sector (mounted 0 small_volume) 99 < x"
    using m [THEN conjunct2, THEN spec, THEN mp, OF small_volume(3)] v by blast+
  ultimately show ?thesis by blast
qed

text \<open>
  C5: Files do not interfere.  On a mounted volume, take a file whose name the search finds anywhere in the root
  directory and any other file whose chain shares no cluster with it or with the directory: writing to
  the first (non-empty data) and deleting the first both succeed, and the second reads exactly as before -
  same result, same bytes - for every buffer that holds whole sectors and every number of bytes asked for.
  The clusters of the directory and of both files are those of the volume.
\<close>

theorem fat_files_isolated:
  fixes lba :: u32 and b :: fat32_boot and f :: fat
  defines "f \<equiv> mounted lba b"
  assumes "block_device D sectors good" and "good d" and "volume_fits lba b n"
    and "pad_field 8 name = Some pn" and "pad_field 3 ext = Some px"
    and "fat_chain f (sectors d) (bt_root_cluster b) ds" and "find_slot pn px (sectors d) (data_sectors f ds) = Some (dir, i)"
    and "e = dir_entry (sectors d dir) i" and "fat_chain f (sectors d) (entry_cluster e) cs" and "cs \<noteq> []"
    and "fat_chain f (sectors d) (entry_cluster e') cs'" and "\<forall>c\<in>set ds \<union> set cs \<union> set cs'. in_volume n c"
    and "set cs \<inter> set cs' = {}" and "set ds \<inter> set cs' = {}"
    and "0 < sz" and "min (unat sz) 512 \<le> length data"
    and "length buf < 2 ^ 32" and "512 * min (length (data_sectors f (take 129 cs'))) (wanted mx) \<le> length buf"
  shows "\<exists>d1 d2. fat32_write_file D f e sec off data sz d = Some (0, e, d1) \<and> fat32_file_delete D f name ext d = Some (0, d2) \<and>
     read_result D f e' buf mx d \<noteq> None \<and>
     read_result D f e' buf mx d1 = read_result D f e' buf mx d \<and> read_result D f e' buf mx d2 = read_result D f e' buf mx d"
proof -
  note vf = assms(4)
  have v: "in_volume n c" if "c \<in> set ds \<union> set cs \<union> set cs'" for c using assms(13) that by blast
  have c: "entry_cluster e \<in> set cs" using assms(10,11) by (cases cs) auto
  then have cv: "in_volume n (entry_cluster e)" using v by blast
  have st: "fat_start_lba f < 2 ^ 27" using mounted_start_less [OF vf] by (simp add: f_def)
  have cur: "current_cluster f = bt_root_cluster b" by (simp add: f_def mounted_def Let_def)
  have first: "cluster_to_lba f x < 2 ^ 28" if "in_volume n x" for x
    using data_sector_less [OF vf that first_sector [OF vf]] by (simp add: f_def)
  have less: "\<forall>y\<in>set (data_sectors f ds). y < 2 ^ 28" "\<forall>y\<in>set (data_sectors f cs'). y < 2 ^ 28"
    unfolding Ball_def data_sectors_in f_def using data_sector_less [OF vf v] by blast+
  obtain d1 where d1: "fat32_write_file D f e sec off data sz d = Some (0, e, d1)" "good d1"
    "sectors d1 = (sectors d)(cluster_to_lba f (entry_cluster e) := first_block data sz)"
    using block_device.write_file_effect [OF assms(2,3) st in_volume_less(3,1) [OF vf cv] first [OF cv] assms(16,17)] by metis
  have u1: "undisturbed f cs' (sectors d) (sectors d1)"
    unfolding d1(3) f_def by (rule write_undisturbed [OF vf cv]) (use v c assms(14) in auto)
  obtain r where r: "r \<in> set ds" "dir \<in> set (cluster_sectors f r)" using find_slot_Some(1) [OF assms(8)] by (auto simp: data_sectors_in)
  have nd: "dir \<notin> fat_sector f ` set cs"
    using table_below_data [OF vf _ _ r(2) [unfolded f_def]] v r(1) by (force simp: f_def)
  obtain d2 where d2: "fat32_file_delete D f name ext d = Some (0, d2)" "good d2"
    "\<And>x. x < 2 ^ 28 \<Longrightarrow> fat_sector f x \<noteq> dir \<Longrightarrow> fat_value f (sectors d2) x = (if x \<in> set cs then 0 else fat_value f (sectors d) x)"
    "\<And>y. y \<noteq> dir \<Longrightarrow> y \<notin> fat_sector f ` set cs \<Longrightarrow> sectors d2 y = sectors d y"
    using block_device.delete_effect [OF assms(2,3) st assms(5,6) assms(7) [folded cur] less(1) assms(8) assms(10) [unfolded assms(9)] nd]
    by metis
  have u2: "undisturbed f cs' (sectors d) (sectors d2)"
    unfolding f_def by (rule delete_undisturbed [OF vf _ _ assms(14) v [of r] _ r(2) [unfolded f_def]])
      (use v r(1) assms(15) d2(3,4) in \<open>auto simp: f_def\<close>)
  show ?thesis
    using d1(1) d2(1) block_device.read_undisturbed [OF assms(2,3) _ st assms(12) less(2) _ assms(18,19)] d1(2) d2(2) u1 u2 by blast
qed

lemma fat_files_isolated_witness:
  "\<exists>d2. fat32_file_delete pio_drive (mounted 0 small_volume) [0x69, 0x72, 0x69, 0x73, 0] [0x62, 0x69, 0x6E, 0] small_disk = Some (0, d2) \<and>
     read_result pio_drive (mounted 0 small_volume) (file_at 5) (replicate 1024 1) 1024 d2 =
     read_result pio_drive (mounted 0 small_volume) (file_at 5) (replicate 1024 1) 1024 small_disk"
proof -
  let ?f = "mounted 0 small_volume"
  let ?b = "take (0 * 32) (replicate 512 0) @
    new_entry [0x49, 0x52, 0x49, 0x53, 0x20, 0x20, 0x20, 0x20] [0x42, 0x49, 0x4E] 4 @ drop (0 * 32 + 32) (replicate 512 0)"
  have dir: "p_sectors small_disk 34 = ?b" by (simp add: small_disk_def)
  have found: "find_in_sector [0x69, 0x72, 0x69, 0x73, 0] [0x62, 0x69, 0x6E, 0] ?b = Some (Inl (Some 0))"
    by (rule find_new_entry [OF _ iris_bin]) (simp_all add: find_upt_Some slot_free_def)
  have cl: "entry_cluster (dir_entry ?b 0) = 4" by (rule new_entry_fields) simp_all
  have ds: "data_sectors ?f [2] = [34, 35]" by (simp add: data_sectors_def cluster_sectors_def cluster_to_lba_def small_volume(4) upt_rec)
  have slot: "find_slot [0x49, 0x52, 0x49, 0x53, 0x20, 0x20, 0x20, 0x20] [0x42, 0x49, 0x4E] (p_sectors small_disk) (data_sectors ?f [2]) = Some (34, 0)"
    unfolding ds by (rule find_slot_first [OF iris_bin]) (simp_all only: dir found, simp add: new_entry_def)
  have "fat_value ?f (p_sectors small_disk) c = 0x0FFFFFFF" if "c \<in> {2, 4, 5}" for c
    using that by (auto simp: fat_value_def fat_sector_def small_volume(4) small_disk_def get32_def get16_def nth_append)
  then have "fat_chain ?f (p_sectors small_disk) (bt_root_cluster small_volume) [2]"
    "fat_chain ?f (p_sectors small_disk) 4 [4]" "fat_chain ?f (p_sectors small_disk) 5 [5]" by (simp_all add: END_OF_CHAIN_def small_volume_def)
  moreover have "entry_cluster (file_at 5) = 5" by (simp add: entry_cluster_def file_at_def)
  ultimately have chain: "fat_chain ?f (p_sectors small_disk) (bt_root_cluster small_volume) [2]"
    "fat_chain ?f (p_sectors small_disk) (entry_cluster (dir_entry (p_sectors small_disk 34) 0)) [4]"
    "fat_chain ?f (p_sectors small_disk) (entry_cluster (file_at 5)) [5]" by (simp_all only: cl dir)
  have sz: "length (data_sectors ?f (take 129 [5])) = 2" by (simp add: data_sectors_def cluster_sectors_def small_volume(4))
  have v: "\<forall>c\<in>set [2] \<union> set [4] \<union> set [5]. in_volume 100 c" by (simp add: in_volume_def)
  have p: "[4 :: u32] \<noteq> []" "set [4 :: u32] \<inter> set [5] = {}" "set [2 :: u32] \<inter> set [5] = {}" "(0 :: u32) < 1"
    "min (unat (1 :: u32)) 512 \<le> length [1 :: u8]" "length (replicate 1024 (1 :: u8)) < 2 ^ 32" by simp_all
  have room: "512 * min (length (data_sectors ?f (take 129 [5]))) (wanted 1024) \<le> length (replicate 1024 (1 :: u8))" unfolding sz by simp
  show ?thesis
    using fat_files_isolated [OF pio.block_device_axioms small_disk(1) small_volume(3) iris_bin chain(1) slot refl chain(2) p(1) chain(3) v p(2-6) room]
    by blast
qed

end
