(* ===== verification/Shell.thy ===== *)
theory Shell
  imports Pit Weights
begin

text \<open>
  The command shell (\<^verbatim>\<open>kernel/shell.c\<close>).  Its state is the kernel state extended by the mounted
  file system and the drive; the drive's port interface \<open>D\<close> is a parameter, as in the file system.
  One definition per command, and the dispatcher in the order of the code.
\<close>

section \<open>State\<close>

record 'd system = kernel +
  fs :: fat
  disk :: 'd

text \<open>
  What uninitialised local variables of the C functions hold: the sector buffer, and the directory
  entry, sector and offset that \<open>write\<close> uses when the file was not found.  The other local arrays
  are written before they are read and start out as zeros here.
\<close>

record stack_junk =
  junk_buf :: "u8 list"
  junk_entry :: fat_entry
  junk_sector :: u32
  junk_offset :: u32

section \<open>Printing\<close>

fun print_prompt :: "u8 list \<Rightarrow> u8 \<Rightarrow> 'a console_scheme \<Rightarrow> 'a console_scheme option" where
  "print_prompt [] color s = None"
| "print_prompt (c # cs) color s = (if c = 0 then Some s else print_prompt cs color (put_char c color s))"

definition print_line :: "u8 list \<Rightarrow> u8 \<Rightarrow> 'a console_scheme \<Rightarrow> 'a console_scheme option" where
  "print_line cs color s = do { s \<leftarrow> print_prompt cs color s; Some (put_char 10 color s) }"

abbreviation say :: "string \<Rightarrow> u8 \<Rightarrow> 'a console_scheme \<Rightarrow> 'a console_scheme option" where
  "say t color s \<equiv> print_line (cstr t) color s"

section \<open>The iris classifier\<close>

definition classify_iris :: "flt \<Rightarrow> flt \<Rightarrow> flt \<Rightarrow> flt \<Rightarrow> int" where
  "classify_iris sl sw pl pw =
     (if pl \<le> flit (245 / 100) then 0
      else if pw \<le> flit (175 / 100) then (if pl \<le> flit (495 / 100) then 1 else 2)
      else 2)"

definition classify_iris_from_disk ::
    "('d, 'x) ata_device_scheme \<Rightarrow> stack_junk \<Rightarrow> fat \<Rightarrow> flt \<Rightarrow> flt \<Rightarrow> flt \<Rightarrow> flt \<Rightarrow> 'd \<Rightarrow> (int \<times> 'd) option" where
  "classify_iris_from_disk D J f sl sw pl pw d = do {
     (r, d) \<leftarrow> fat32_find_file D f (cstr ''IRIS'') (cstr ''BIN'') d;
     case r of None \<Rightarrow> Some (- 1, d)
     | Some (entry, dir_sector, dir_offset) \<Rightarrow> do {
         (_, buf, d) \<leftarrow> fat32_read_file D f entry (junk_buf J) 512 d;
         t1 \<leftarrow> get32 buf 0;
         t2 \<leftarrow> get32 buf 4;
         t3 \<leftarrow> get32 buf 8;
         t4 \<leftarrow> get32 buf 12;
         Some (if pl \<le> float_of_bits t1 then 0
               else if pl \<le> float_of_bits t2 then (if pw \<le> float_of_bits t3 then 1 else 2)
               else if pw \<le> float_of_bits t4 then 1 else 2, d) } }"

section \<open>Splitting a file name\<close>

text \<open>\<open>while (arg[j] && arg[j] != '.' && j < 8) { name[j] = arg[j]; j++; }\<close>\<close>

function parse_name :: "u8 list \<Rightarrow> nat \<Rightarrow> u8 list \<Rightarrow> (nat \<times> u8 list) option" where
  "parse_name arg j name = do {
     c \<leftarrow> arr_get arg j;
     if c \<noteq> 0 \<and> c \<noteq> 0x2E \<and> j < 8 then do { name \<leftarrow> arr_set name j c; parse_name arg (j + 1) name }
     else Some (j, name) }"
  by pat_completeness auto
termination by (relation "measure (\<lambda>(arg, j, name). 8 - j)") auto

text \<open>\<open>while (arg[j] && e < 3) { ext[e++] = arg[j++]; }\<close>; \<open>write\<close> also stops at \<open>stop\<close>, a space.\<close>

function parse_ext :: "(u8 \<Rightarrow> bool) \<Rightarrow> u8 list \<Rightarrow> nat \<Rightarrow> nat \<Rightarrow> u8 list \<Rightarrow> (nat \<times> nat \<times> u8 list) option" where
  "parse_ext stop arg j e ext = do {
     c \<leftarrow> arr_get arg j;
     if c \<noteq> 0 \<and> \<not> stop c \<and> e < 3 then do { ext \<leftarrow> arr_set ext e c; parse_ext stop arg (j + 1) (e + 1) ext }
     else Some (j, e, ext) }"
  by pat_completeness auto
termination by (relation "measure (\<lambda>(stop, arg, j, e, ext). 3 - e)") auto

declare parse_name.simps [simp del] parse_ext.simps [simp del]

definition parse_file :: "(u8 \<Rightarrow> bool) \<Rightarrow> u8 list \<Rightarrow> (u8 list \<times> u8 list \<times> nat) option" where
  "parse_file stop arg = do {
     (j, name) \<leftarrow> parse_name arg 0 (replicate 8 0x20 @ [0]);
     name \<leftarrow> arr_set name j 0;
     c \<leftarrow> arr_get arg j;
     let j = (if c = 0x2E then j + 1 else j);
     (j, e, ext) \<leftarrow> parse_ext stop arg j 0 (replicate 3 0x20 @ [0]);
     ext \<leftarrow> arr_set ext e 0;
     Some (name, ext, j) }"

section \<open>Commands without files\<close>

definition cmd_about :: "'a kernel_scheme \<Rightarrow> 'a kernel_scheme option" where
  "cmd_about s = do {
     s \<leftarrow> say ''PrajnaOS - Consciousness. Intelligence. Control.'' 0x01 s;
     say ''Built from scratch in C and x86 Assembly.'' 0x01 s }"

text \<open>The digit loops are those of \<open>uint_to_str\<close>; at tick 0 nothing is printed.\<close>

definition cmd_uptime :: "'a kernel_scheme \<Rightarrow> 'a kernel_scheme option" where
  "cmd_uptime s = do {
     let t = pit_get_ticks s;
     if t = 0 then Some s
     else do {
       (i, buf) \<leftarrow> uts_digits t 0 (replicate 32 0);
       buf \<leftarrow> uts_reverse 0 (i - 1) buf;
       buf \<leftarrow> arr_set buf i 0;
       s \<leftarrow> say ''Ticks: '' 0x0E s;
       print_line buf 0x0E s } }"

definition cmd_echo :: "u8 list \<Rightarrow> 'a kernel_scheme \<Rightarrow> 'a kernel_scheme option" where
  "cmd_echo cmd s = do {
     c \<leftarrow> arr_get cmd 4;
     if c = 0x20 then print_line (drop 5 cmd) 0x0A s
     else say ''Usage: echo <text>'' 0x0C s }"

text \<open>The loop of \<open>hlt\<close> behind \<open>cli\<close>: nothing wakes the processor, so it is a loop without a result.\<close>

partial_function (option) halt :: "'a \<Rightarrow> 'a option" where
  "halt s = do { s \<leftarrow> Some s; halt s }"

lemma halt_never: "halt s = None"
proof (cases "halt s")
  case (Some t)
  then have False by (rule halt.raw_induct [where P = "\<lambda>_ _. False", rotated]) auto
  then show ?thesis ..
qed

text \<open>Waiting for the keyboard controller; the machine resets after the command.\<close>

partial_function (option) wait_controller :: "('d, 'x) ata_device_scheme \<Rightarrow> 'd \<Rightarrow> 'd option" where
  "wait_controller D d = (let (status, d) = dev_inb D 0x64 d in if status AND 0x02 \<noteq> 0 then wait_controller D d else Some d)"

definition reboot :: "('d, 'x) ata_device_scheme \<Rightarrow> ('d, 'b) system_scheme \<Rightarrow> ('d, 'b) system_scheme option" where
  "reboot D s = do {
     d \<leftarrow> wait_controller D (disk s);
     Some (s\<lparr>disk := dev_outb D 0x64 0xFE d\<rparr>) }"

definition cmd_status :: "'a kernel_scheme \<Rightarrow> 'a kernel_scheme option" where
  "cmd_status s =
     (let state = ai_get_state s in
      if state = STATE_CALM then say ''Prajna: CALM - system healthy, all tasks normal'' 0x0A s
      else if state = STATE_NORMAL then say ''Prajna: NORMAL - moderate load, monitoring'' 0x0E s
      else say ''Prajna: ALERT -   low memory, non-shell tasks blocked'' 0x0C s)"

text \<open>\<open>(uint32_t)x\<close> of a \<open>float\<close>; out of range it is undefined.\<close>

definition uint_of_float :: "flt \<Rightarrow> u32 option" where
  "uint_of_float x = (case x of
     Fin r \<Rightarrow> if - 1 < r \<and> r < 2 ^ 32 then Some (of_int (if 0 \<le> r then \<lfloor>r\<rfloor> else 0)) else None
   | _ \<Rightarrow> None)"

definition ps_task :: "nat \<Rightarrow> 'a kernel_scheme \<Rightarrow> 'a kernel_scheme option" where
  "ps_task i s = do {
     t \<leftarrow> arr_get (tasks s) i;
     if state t = TASK_DEAD then Some s
     else do {
       let s = put_char (48 + of_nat i) 0x0F s;
       let s = put_char 0x20 0x0F s;
       s \<leftarrow> print_prompt (9 # (if state t = TASK_RUNNING then cstr ''RUN  '' else if state t = TASK_READY then cstr ''READY''
                              else cstr ''DEAD '')) 0x0F s;
       let s = put_char 9 0x0F s;
       buf \<leftarrow> ml_float_to_str (cpu_usage t) (replicate 16 0) 1;
       s \<leftarrow> print_prompt buf 0x0A s;
       let s = put_char 9 0x0F s;
       buf \<leftarrow> ml_float_to_str (mem_usage t) buf 1;
       s \<leftarrow> print_prompt buf 0x0B s;
       let s = put_char 9 0x0F s;
       p \<leftarrow> uint_of_float (priority t);
       buf \<leftarrow> uint_to_str p buf;
       s \<leftarrow> print_prompt buf 0x0F s;
       let s = put_char 9 0x0F s;
       buf \<leftarrow> ml_float_to_str (ml_score t) buf 2;
       s \<leftarrow> print_prompt buf 0x0D s;
       let s = put_char 9 0x0F s;
       buf \<leftarrow> uint_to_str (wait_ticks t) buf;
       s \<leftarrow> print_prompt buf 0x0F s;
       Some (put_char 10 0x0F s) } }"

definition ps_header :: "u8 list" where
  "ps_header = lit ''ID'' @ [9] @ lit ''STATE'' @ [9] @ lit ''CPU%'' @ [9] @ lit ''MEM%'' @ [9] @ lit ''PRI'' @ [9] @
     lit ''SCORE'' @ [9] @ lit ''WAIT'' @ [0]"

definition cmd_ps :: "'a kernel_scheme \<Rightarrow> 'a kernel_scheme option" where
  "cmd_ps s = do { s \<leftarrow> print_line ps_header 0x0E s; for_each ps_task [0..<MAX_TASKS] s }"

text \<open>The event arrays are filled by \<open>ai_get_log\<close> before they are read.\<close>

definition blank_event :: prajna_event where
  "blank_event = \<lparr>ev_tick = 0, ev_state = STATE_CALM, ev_perm = replicate MAX_TASKS 0, ev_priority = replicate MAX_TASKS 0,
     ev_anomaly = replicate MAX_TASKS 0, free_pages_at_decision = 0, starvation_task_id = 0, anomaly_task_id = 0\<rparr>"

definition why_decision :: "prajna_event \<Rightarrow> 'a kernel_scheme \<Rightarrow> 'a kernel_scheme option" where
  "why_decision e s =
     (if ev_state e = STATE_CALM then say ''Last decision: CALM'' 0x0A s
      else if ev_state e = STATE_NORMAL then say ''Last decision: NORMAL'' 0x0E s
      else do {
        s \<leftarrow> say ''Last decision: ALERT'' 0x0C s;
        s \<leftarrow> say ''  reason: free pages ('' 0x0C s;
        buf \<leftarrow> uint_to_str (ucast (free_pages_at_decision e)) (replicate 16 0);
        s \<leftarrow> print_line buf 0x0C s;
        say '') below PMM_ALERT_THRESHOLD'' 0x0C s })"

definition why_guard :: "string \<Rightarrow> u8 \<Rightarrow> 'a kernel_scheme \<Rightarrow> 'a kernel_scheme option" where
  "why_guard text i s =
     (if i \<noteq> 0xFF then do {
        s \<leftarrow> say text 0x0E s;
        Some (put_char 10 0x0E (put_char (48 + i) 0x0E s)) }
      else Some s)"

definition why_blocked :: "prajna_event \<Rightarrow> 'a kernel_scheme \<Rightarrow> 'a kernel_scheme option" where
  "why_blocked e s = do {
     s \<leftarrow> say ''Blocked tasks: '' 0x07 s;
     (s, any) \<leftarrow> for_each (\<lambda>i (s, any). do {
         t \<leftarrow> arr_get (tasks s) i;
         if state t = TASK_DEAD then Some (s, any)
         else do {
           p \<leftarrow> arr_get (ev_perm e) i;
           Some (if p = 0 then (put_char 0x20 0x0C (put_char (48 + of_nat i) 0x0C s), True) else (s, any)) } })
       [0..<MAX_TASKS] (s, False);
     if \<not> any then say ''none'' 0x0A s else Some (put_char 10 0x07 s) }"

definition cmd_why :: "'a kernel_scheme \<Rightarrow> 'a kernel_scheme option" where
  "cmd_why s = do {
     (got, log) \<leftarrow> ai_get_log [blank_event] 1 (ai s);
     if got = 0 then say ''Prajna: no decisions logged yet'' 0x07 s
     else do {
       e \<leftarrow> arr_get log 0;
       s \<leftarrow> why_decision e s;
       s \<leftarrow> why_guard ''  starvation guard: task '' (starvation_task_id e) s;
       s \<leftarrow> why_guard ''  anomaly guard: task '' (anomaly_task_id e) s;
       why_blocked e s } }"

fun history_entry :: "u32 list \<Rightarrow> u32 list \<Rightarrow> nat \<Rightarrow> 'a kernel_scheme \<times> u8 list \<Rightarrow> ('a kernel_scheme \<times> u8 list) option" where
  "history_entry pgs tks i (s, buf) = do {
     s \<leftarrow> say ''Tick: '' 0x07 s;
     t \<leftarrow> arr_get tks i;
     buf \<leftarrow> uint_to_str (t div 1000) buf;
     s \<leftarrow> print_line buf 0x0A s;
     s \<leftarrow> say ''  Free Pages: '' 0x07 s;
     p \<leftarrow> arr_get pgs i;
     buf \<leftarrow> uint_to_str p buf;
     s \<leftarrow> print_line buf 0x0A s;
     s \<leftarrow> print_line [10, 0] 0x07 s;
     Some (s, buf) }"

declare history_entry.simps [simp del]

definition cmd_history :: "'a kernel_scheme \<Rightarrow> 'a kernel_scheme option" where
  "cmd_history s = do {
     (got, pgs, tks) \<leftarrow> ai_get_memory_history (replicate HISTORY_LEN 0) (replicate HISTORY_LEN 0) (ai s);
     if got = 0 then say ''No memory history available.'' 0x0C s
     else do {
       s \<leftarrow> say ''Memory History:'' 0x0A s;
       (s, buf) \<leftarrow> for_each (history_entry pgs tks) [0..<unat got] (s, replicate 32 0);
       Some s } }"

definition cmd_log :: "'a kernel_scheme \<Rightarrow> 'a kernel_scheme option" where
  "cmd_log s = do {
     (got, log) \<leftarrow> ai_get_log (replicate 5 blank_event) 5 (ai s);
     if got = 0 then say ''Prajna: no log entries yet'' 0x07 s
     else do {
       s \<leftarrow> say ''Last 5 Prajna decisions:'' 0x03 s;
       for_each (\<lambda>i s. do {
         e \<leftarrow> arr_get log i;
         say (if ev_state e = STATE_CALM then ''CALM  '' else if ev_state e = STATE_NORMAL then ''NORML '' else ''ALERT '')
             (if ev_state e = STATE_ALERT then 0x0C else 0x0A) s }) [0..<unat got] s } }"

section \<open>Commands on files\<close>

definition cmd_classify ::
    "('d, 'x) ata_device_scheme \<Rightarrow> stack_junk \<Rightarrow> ('d, 'b) system_scheme \<Rightarrow> ('d, 'b) system_scheme option" where
  "cmd_classify D J s = do {
     let sl = flit (51 / 10); let sw = flit (35 / 10); let pl = flit (14 / 10); let pw = flit (2 / 10);
     (species, d) \<leftarrow> classify_iris_from_disk D J (fs s) sl sw pl pw (disk s);
     let s = s\<lparr>disk := d\<rparr>;
     (species, s) \<leftarrow> (if species = 1
        then do { s \<leftarrow> say ''hardcoded: '' 0x0A s; Some (classify_iris sl sw pl pw, s) }
        else Some (species, s));
     say (if species = 0 then ''Setosa'' else if species = 1 then ''Versicolor'' else ''Virginica'') 0x0A s }"

definition cmd_ls ::
    "('d, 'x) ata_device_scheme \<Rightarrow> ('d, 'b) system_scheme \<Rightarrow> ('d, 'b) system_scheme option" where
  "cmd_ls D s = do {
     (s, d) \<leftarrow> fat32_list_dir D (fs s) (s, disk s);
     Some (s\<lparr>disk := d\<rparr>) }"

text \<open>The number of bytes \<open>cat\<close> prints: \<open>file_size\<close> as a signed \<open>int\<close>, at most 512.\<close>

definition shown_bytes :: "u32 \<Rightarrow> nat" where
  "shown_bytes sz = min (nat (sint sz)) 512"

definition cmd_cat ::
    "('d, 'x) ata_device_scheme \<Rightarrow> stack_junk \<Rightarrow> u8 list \<Rightarrow> ('d, 'b) system_scheme \<Rightarrow> ('d, 'b) system_scheme option" where
  "cmd_cat D J cmd s = do {
     c \<leftarrow> arr_get cmd 3;
     if c \<noteq> 0x20 then say ''Usage: cat FILENAME.EXT'' 0x0C s
     else do {
       (name, ext, j) \<leftarrow> parse_file (\<lambda>_. False) (drop 4 cmd);
       (r, d) \<leftarrow> fat32_find_file D (fs s) name ext (disk s);
       let s = s\<lparr>disk := d\<rparr>;
       case r of None \<Rightarrow> say ''File not found'' 0x0C s
       | Some (entry, dir_sector, dir_offset) \<Rightarrow> do {
           (_, file_buf, d) \<leftarrow> fat32_read_file D (fs s) entry (junk_buf J) 512 (disk s);
           let s = s\<lparr>disk := d\<rparr>;
           s \<leftarrow> for_each (\<lambda>k s. do { c \<leftarrow> arr_get file_buf k; Some (put_char c 0x0F s) }) [0..<shown_bytes (file_size entry)] s;
           Some (put_char 10 0x0F s) } } }"

definition cmd_cd ::
    "('d, 'x) ata_device_scheme \<Rightarrow> u8 list \<Rightarrow> ('d, 'b) system_scheme \<Rightarrow> ('d, 'b) system_scheme option" where
  "cmd_cd D cmd s = do {
     c \<leftarrow> arr_get cmd 2;
     if c \<noteq> 0x20 then say ''Usage: cd FOLDERNAME'' 0x0C s
     else do {
       let arg = drop 3 cmd;
       a0 \<leftarrow> arr_get arg 0;
       dots \<leftarrow> (if a0 = 0x2E then do { a1 \<leftarrow> arr_get arg 1; Some (a1 = 0x2E) } else Some False);
       if dots then do {
         let s = s\<lparr>fs := (fs s)\<lparr>current_cluster := previous_cluster (fs s)\<rparr>\<rparr>;
         let s = s\<lparr>fs := (fs s)\<lparr>previous_cluster := root_cluster (fs s)\<rparr>\<rparr>;
         say ''OK'' 0x0A s }
       else do {
         (res, found, d) \<leftarrow> fat32_find_dir D (fs s) arg (disk s);
         let s = s\<lparr>disk := d\<rparr>;
         case found of
           Some entry \<Rightarrow> do {
             let s = s\<lparr>fs := (fs s)\<lparr>previous_cluster := current_cluster (fs s)\<rparr>\<rparr>;
             let s = s\<lparr>fs := (fs s)\<lparr>current_cluster := entry_cluster entry\<rparr>\<rparr>;
             let s = (if current_cluster (fs s) = 0 then s\<lparr>fs := (fs s)\<lparr>current_cluster := root_cluster (fs s)\<rparr>\<rparr> else s);
             say ''OK'' 0x0A s }
         | None \<Rightarrow> say ''Directory not found'' 0x0C s } } }"

definition cmd_touch ::
    "('d, 'x) ata_device_scheme \<Rightarrow> u8 list \<Rightarrow> ('d, 'b) system_scheme \<Rightarrow> ('d, 'b) system_scheme option" where
  "cmd_touch D cmd s = do {
     c \<leftarrow> arr_get cmd 5;
     if c \<noteq> 0x20 then say ''Usage: touch FILENAME.TXT'' 0x0C s
     else do {
       (name, ext, j) \<leftarrow> parse_file (\<lambda>_. False) (drop 6 cmd);
       (res, d) \<leftarrow> fat32_create_file D (fs s) name ext (disk s);
       let s = s\<lparr>disk := d\<rparr>;
       if res = 0 then say ''File created'' 0x0A s else say ''Failed to create file'' 0x0C s } }"

definition cmd_write ::
    "('d, 'x) ata_device_scheme \<Rightarrow> stack_junk \<Rightarrow> u8 list \<Rightarrow> ('d, 'b) system_scheme \<Rightarrow> ('d, 'b) system_scheme option" where
  "cmd_write D J cmd s = do {
     c \<leftarrow> arr_get cmd 5;
     if c \<noteq> 0x20 then say ''Usage: write FILENAME.EXT text'' 0x0C s
     else do {
       let arg = drop 6 cmd;
       (name, ext, j) \<leftarrow> parse_file (\<lambda>c. c = 0x20) arg;
       c \<leftarrow> arr_get arg j;
       let j = (if c = 0x20 then j + 1 else j);
       let content = drop j arg;
       content_len \<leftarrow> kstrlen content;
       (r, d) \<leftarrow> fat32_find_file D (fs s) name ext (disk s);
       case r of
         Some (entry, dir_sector, dir_offset) \<Rightarrow> do {
           (res, entry, d) \<leftarrow> fat32_write_file D (fs s) entry dir_sector dir_offset content (of_nat content_len) d;
           let s = s\<lparr>disk := d\<rparr>;
           if res = 0 then say ''Written'' 0x0A s else say ''Write failed'' 0x0C s }
       | None \<Rightarrow> do {
           (crea, d) \<leftarrow> fat32_create_file D (fs s) name ext d;
           (res, entry, d) \<leftarrow> fat32_write_file D (fs s) (junk_entry J) (junk_sector J) (junk_offset J) content (of_nat content_len) d;
           let s = s\<lparr>disk := d\<rparr>;
           if res = 0 then say ''File created and written'' 0x0A s else say ''Write failed'' 0x0C s } } }"

definition cmd_rm ::
    "('d, 'x) ata_device_scheme \<Rightarrow> u8 list \<Rightarrow> ('d, 'b) system_scheme \<Rightarrow> ('d, 'b) system_scheme option" where
  "cmd_rm D cmd s = do {
     c \<leftarrow> arr_get cmd 2;
     if c \<noteq> 0x20 then say ''Usage: rm FILENAME.EXT'' 0x0C s
     else do {
       (name, ext, j) \<leftarrow> parse_file (\<lambda>_. False) (drop 3 cmd);
       (res, d) \<leftarrow> fat32_file_delete D (fs s) name ext (disk s);
       let s = s\<lparr>disk := d\<rparr>;
       if res = 0 then say ''File deleted'' 0x0A s else say ''Failed to delete file'' 0x0C s } }"

section \<open>The dispatcher\<close>

definition is_cmd :: "u8 list \<Rightarrow> string \<Rightarrow> bool option" where
  "is_cmd cmd name = do { r \<leftarrow> kstrcmp cmd (cstr name); Some (r = 0) }"

text \<open>One link of the chain of tests.\<close>

definition branch :: "bool option \<Rightarrow> 'r option \<Rightarrow> 'r option \<Rightarrow> 'r option" where
  "branch test yes no = do { b \<leftarrow> test; if b then yes else no }"

text \<open>The prompt that follows every command but \<open>clear\<close>.\<close>

definition prompt :: "'a console_scheme option \<Rightarrow> 'a console_scheme option" where
  "prompt r = do { s \<leftarrow> r; print_prompt (cstr ''PrajnaOS>'') 0x03 s }"

text \<open>
  \<open>poweroff\<close> never returns.  The empty command is recognised by its first character.
\<close>

definition shell_handle ::
    "('d, 'x) ata_device_scheme \<Rightarrow> stack_junk \<Rightarrow> u8 list \<Rightarrow> ('d, 'b) system_scheme \<Rightarrow> ('d, 'b) system_scheme option" where
  "shell_handle D J cmd s =
     branch (is_cmd cmd ''help'')
       (prompt (say ''Commands: help, clear, about, uptime, reboot, poweroff, ls ,cat'' 0x0E s))
    (branch (is_cmd cmd ''about'') (prompt (cmd_about s))
    (branch (do { c \<leftarrow> arr_get cmd 0; Some (c = 0) }) (prompt (Some s))
    (branch (is_cmd cmd ''clear'') (clear_screen s)
    (branch (is_cmd cmd ''uptime'') (prompt (cmd_uptime s))
    (branch (is_cmd cmd ''echo'') (prompt (cmd_echo cmd s))
    (branch (is_cmd cmd ''version'') (prompt (say ''PrajnaOS v0.1 - Bare Metal'' 0x0E s))
    (branch (is_cmd cmd ''hello'') (prompt (say ''Hello from PrajnaOS!'' 0x0A s))
    (branch (is_cmd cmd ''beep'') (prompt (Some (put_char 7 0x07 s)))
    (branch (is_cmd cmd ''poweroff'') (halt s)
    (branch (is_cmd cmd ''reboot'') (prompt (reboot D s))
    (branch (is_cmd cmd ''classify'') (prompt (cmd_classify D J s))
    (branch (is_cmd cmd ''ls'') (prompt (cmd_ls D s))
    (branch (is_cmd cmd ''cat'') (prompt (cmd_cat D J cmd s))
    (branch (is_cmd cmd ''cd'') (prompt (cmd_cd D cmd s))
    (branch (is_cmd cmd ''touch'') (prompt (cmd_touch D cmd s))
    (branch (is_cmd cmd ''write'') (prompt (cmd_write D J cmd s))
    (branch (is_cmd cmd ''prajna status'') (prompt (cmd_status s))
    (branch (is_cmd cmd ''ps'') (prompt (cmd_ps s))
    (branch (is_cmd cmd ''prajna why'') (prompt (cmd_why s))
    (branch (is_cmd cmd ''memory history'') (prompt (cmd_history s))
    (branch (is_cmd cmd ''rm'') (prompt (cmd_rm D cmd s))
    (branch (is_cmd cmd ''prajna log'') (prompt (cmd_log s))
      (prompt (say ''Unknown command. Type help.'' 0x04 s))))))))))))))))))))))))"

section \<open>What printing leaves alone\<close>

text \<open>Everything the shell prints goes through \<open>put_char\<close>.\<close>

definition emit :: "u8 \<Rightarrow> u8 list \<Rightarrow> 'a console_scheme \<Rightarrow> 'a console_scheme" where
  "emit color cs s = fold (\<lambda>c. put_char c color) cs s"

definition screen_frame :: "'a console_scheme \<Rightarrow> 'a console_scheme \<Rightarrow> bool" where
  "screen_frame s s' \<longleftrightarrow> same_keyboard s s' \<and>
     (cursor_ok s \<longrightarrow> cursor_ok s' \<and> (\<forall>n. n < 160 \<or> 2000 < n \<longrightarrow> vga s' n = vga s n))"

named_theorems frames \<open>what an operation leaves alone\<close>

lemma screen_frame_refl [simp]: "screen_frame s s"
  by (simp add: screen_frame_def same_keyboard_def)

lemma same_keyboard_trans: "same_keyboard s t \<Longrightarrow> same_keyboard t u \<Longrightarrow> same_keyboard s u"
proof -
  assume t: "same_keyboard s t" and u: "same_keyboard t u"
  have t: "t = s\<lparr>vga := vga t, cur_row := cur_row t, cur_col := cur_col t\<rparr>"
    and u: "u = t\<lparr>vga := vga u, cur_row := cur_row u, cur_col := cur_col u\<rparr>" using t u by (simp_all add: same_keyboard_def)
  have "u = s\<lparr>vga := vga u, cur_row := cur_row u, cur_col := cur_col u\<rparr>" by (subst u, subst t) simp
  then show ?thesis by (simp add: same_keyboard_def)
qed

lemma screen_frame_trans: "screen_frame s t \<Longrightarrow> screen_frame t u \<Longrightarrow> screen_frame s u"
  using same_keyboard_trans [of s t u] by (auto simp: screen_frame_def)

lemma screen_frame_put_char: "screen_frame s (put_char c color s)"
  by (simp add: screen_frame_def put_char_keyboard put_char_cursor put_char_frame)

lemma screen_frame_after_put_char: "screen_frame (put_char c color s) t \<Longrightarrow> screen_frame s t"
  using screen_frame_put_char screen_frame_trans by blast

lemma screen_frame_emit: "screen_frame s (emit color cs s)"
  unfolding emit_def
  by (induction cs arbitrary: s) (auto intro: screen_frame_after_put_char)

lemma emit_append: "emit color (cs @ ds) s = emit color ds (emit color cs s)"
  by (simp add: emit_def)

lemma print_prompt_emit: "print_prompt cs color s = (if 0 \<in> set cs then Some (emit color (takeWhile (\<lambda>c. c \<noteq> 0) cs) s) else None)"
  by (induction cs arbitrary: s) (auto simp: emit_def)

lemma print_line_emit:
  "print_line cs color s = (if 0 \<in> set cs then Some (emit color (takeWhile (\<lambda>c. c \<noteq> 0) cs @ [10]) s) else None)"
  by (simp add: print_line_def print_prompt_emit emit_def)

lemma print_prompt_frame [frames]: "print_prompt cs color s = Some t \<Longrightarrow> screen_frame s t"
  by (auto simp: print_prompt_emit screen_frame_emit split: if_splits)

lemma print_line_frame [frames]: "print_line cs color s = Some t \<Longrightarrow> screen_frame s t"
  by (auto simp: print_line_emit screen_frame_emit split: if_splits)

lemma clear_screen_frame [frames]:
  assumes "clear_screen s = Some t"
  shows "screen_frame s t"
proof -
  have row: "fold (\<lambda>j v. v(i * 80 + j := blank)) [0..<80] v n = v n" if "n < 160 \<or> 2000 < n" "2 \<le> i" "i < 23" for i n :: nat and v :: vgamem
    using that fold_fill [of "i * 80" blank 80 v] by auto
  have fill: "fold (\<lambda>i v. fold (\<lambda>j v. v(i * 80 + j := blank)) [0..<80] v) is v n = v n"
    if "n < 160 \<or> 2000 < n" "set is \<subseteq> {2..<23}" for "is" n and v :: vgamem
    using that by (induction "is" arbitrary: v) (simp_all add: row del: upt_Suc)
  have pr: "print_isr (cstr ''PrajnaOS>'') 2 0 3 v = Some (fold (\<lambda>(k, c) v. v(160 + k := cell 3 c)) (enumerate 0 (lit ''PrajnaOS>'')) v)" for v
    by (simp add: cstr_def lit_def)
  obtain v where v: "print_isr (cstr ''PrajnaOS>'') 2 0 3 (fold (\<lambda>i v. fold (\<lambda>j v. v(i * 80 + j := blank)) [0..<80] v) [2..<23] (vga s)) = Some v"
    "t = s\<lparr>vga := v, cur_col := 9, cur_row := 2\<rparr>"
    using assms by (auto simp: clear_screen_def Let_def split: Option.bind_splits)
  have "v n = vga s n" if "n < 160 \<or> 2000 < n" for n
    using v(1) that fill [OF that, of "[2..<23]" "vga s"] unfolding pr
    by (auto simp: lit_def simp del: upt_Suc)
  then show ?thesis using v(2) by (simp add: screen_frame_def same_keyboard_def cursor_ok_def)
qed

text \<open>Loops and early returns.\<close>

lemma for_each_frame:
  assumes "for_each f is s = Some t" and "\<And>i s s'. f i s = Some s' \<Longrightarrow> screen_frame s s'"
  shows "screen_frame s t"
  by (rule for_each_invariant [OF assms(1)]) (auto intro: screen_frame_trans dest: assms(2))

lemma for_each_frame_fst:
  assumes "for_each f is x = Some y" and "\<And>i x y. f i x = Some y \<Longrightarrow> screen_frame (fst x) (fst y)"
  shows "screen_frame (fst x) (fst y)"
  by (rule for_each_invariant [OF assms(1)]) (auto intro: screen_frame_trans dest: assms(2))

lemma put_name_frame: "screen_frame s (put_name cs color s)"
  by (induction cs arbitrary: s) (auto intro: screen_frame_after_put_char)

lemma list_entry_frame: "screen_frame s (list_entry e s)"
  unfolding list_entry_def Let_def
  using put_name_frame screen_frame_put_char screen_frame_trans by (smt (verit))

lemma list_sector_frame:
  assumes "list_sector buf s = Some r"
  shows "case r of Inl t \<Rightarrow> screen_frame s t | Inr t \<Rightarrow> screen_frame s t"
  using assms unfolding list_sector_def
  by (rule for_until_invariant)
    (auto split: Option.bind_splits if_splits intro: screen_frame_trans [OF _ list_entry_frame])

lemma list_cluster_frame:
  assumes "list_cluster D f lba x = Some r"
  shows "case r of Inl y \<Rightarrow> screen_frame (fst x) (fst y) | Inr y \<Rightarrow> screen_frame (fst x) (fst y)"
  using assms unfolding list_cluster_def
proof (rule for_until_invariant)
  fix i y r
  assume y: "screen_frame (fst x) (fst y)"
    and r: "(case y of (s, d) \<Rightarrow> do {
     (err, buf, d) \<leftarrow> ata_read_sector D (lba + of_nat i) 0 (replicate 512 0) d;
     if err \<noteq> 0 then Some (Inl (s, d))
     else do {
       r \<leftarrow> list_sector buf s;
       case r of Inl s \<Rightarrow> Some (Inl (s, d)) | Inr s \<Rightarrow> Some (Inr (s, d)) } }) = Some r"
  show "case r of Inl y \<Rightarrow> screen_frame (fst x) (fst y) | Inr y \<Rightarrow> screen_frame (fst x) (fst y)"
    using y r list_sector_frame [where s = "fst y"]
    by (fastforce split: prod.splits Option.bind_splits if_splits sum.splits intro: screen_frame_trans)
qed simp

lemma list_from_frame:
  assumes "list_from D f cluster x = Some y"
  shows "screen_frame (fst x) (fst y)"
proof (rule list_from.raw_induct [OF _ assms, where P = "\<lambda>D f cluster x y. screen_frame (fst x) (fst y)"], goal_cases)
  case (1 g D f cluster x y)
  show ?case
  proof (cases "cluster < END_OF_CHAIN")
    case True
    then obtain r where r: "list_cluster D f (cluster_to_lba f cluster) x = Some r"
      using 1(2) by (auto split: Option.bind_splits)
    note fr = list_cluster_frame [OF r]
    show ?thesis
    proof (cases r)
      case (Inl z)
      then show ?thesis using 1(2) True r fr by simp
    next
      case (Inr z)
      then obtain c' d' where "g D f c' (fst z, d') = Some y" using 1(2) True r by (auto split: Option.bind_splits prod.splits)
      from 1(1) [OF this] show ?thesis using fr Inr screen_frame_trans by auto
    qed
  qed (use 1(2) in simp)
qed

section \<open>What a command leaves alone\<close>

text \<open>Commands may also move the drive and the working directory.\<close>

definition sys_frame :: "('d, 'b) system_scheme \<Rightarrow> ('d, 'b) system_scheme \<Rightarrow> bool" where
  "sys_frame s s' \<longleftrightarrow> (\<exists>d cc pc. screen_frame
     (s\<lparr>fs := (fs s)\<lparr>current_cluster := cc, previous_cluster := pc\<rparr>, disk := d\<rparr>) s')"

lemma screen_frame_more: "screen_frame s s' \<Longrightarrow> console.more s' = console.more s"
proof -
  assume "screen_frame s s'"
  then have s': "s' = s\<lparr>vga := vga s', cur_row := cur_row s', cur_col := cur_col s'\<rparr>" by (simp add: screen_frame_def same_keyboard_def)
  show ?thesis by (subst s') simp
qed

lemma system_same:
  fixes s :: "('d, 'b) system_scheme"
  assumes "console.more s' = console.more s"
  shows "fs s' = fs s" "disk s' = disk s" "system.more s' = system.more s"
  using assms by (cases s; cases s'; simp)+

lemma screen_frame_system_upd:
  fixes s :: "('d, 'b) system_scheme"
  assumes "screen_frame s t"
  shows "screen_frame (s\<lparr>fs := f, disk := d\<rparr>) (t\<lparr>fs := f, disk := d\<rparr>)"
proof -
  have t: "t = s\<lparr>vga := vga t, cur_row := cur_row t, cur_col := cur_col t\<rparr>" using assms by (simp add: screen_frame_def same_keyboard_def)
  have "same_keyboard (s\<lparr>fs := f, disk := d\<rparr>) (t\<lparr>fs := f, disk := d\<rparr>)"
    unfolding same_keyboard_def by (subst t) simp
  then show ?thesis using assms by (simp add: screen_frame_def cursor_ok_def)
qed

lemma sys_frame_screen [frames]: "screen_frame s s' \<Longrightarrow> sys_frame s s'"
proof -
  assume f: "screen_frame s s'"
  have "s\<lparr>fs := (fs s)\<lparr>current_cluster := current_cluster (fs s), previous_cluster := previous_cluster (fs s)\<rparr>, disk := disk s\<rparr> = s" by simp
  with f show ?thesis unfolding sys_frame_def by metis
qed

lemma sys_frame_trans: "sys_frame s t \<Longrightarrow> sys_frame t u \<Longrightarrow> sys_frame s u"
proof -
  assume "sys_frame s t" "sys_frame t u"
  then obtain d cc pc d' cc' pc' where t: "screen_frame (s\<lparr>fs := (fs s)\<lparr>current_cluster := cc, previous_cluster := pc\<rparr>, disk := d\<rparr>) t"
    and u: "screen_frame (t\<lparr>fs := (fs t)\<lparr>current_cluster := cc', previous_cluster := pc'\<rparr>, disk := d'\<rparr>) u"
    unfolding sys_frame_def by blast
  have "fs t = (fs s)\<lparr>current_cluster := cc, previous_cluster := pc\<rparr>"
    using system_same(1) [OF screen_frame_more [OF t]] by simp
  with screen_frame_system_upd [OF t, of d' "(fs t)\<lparr>current_cluster := cc', previous_cluster := pc'\<rparr>"] u
  have "screen_frame (s\<lparr>fs := (fs s)\<lparr>current_cluster := cc', previous_cluster := pc'\<rparr>, disk := d'\<rparr>) u"
    using screen_frame_trans by fastforce
  then show ?thesis unfolding sys_frame_def by blast
qed

lemma sys_frame_disk: "sys_frame s (s\<lparr>disk := d\<rparr>)"
proof -
  have "s\<lparr>fs := (fs s)\<lparr>current_cluster := current_cluster (fs s), previous_cluster := previous_cluster (fs s)\<rparr>, disk := d\<rparr> = s\<lparr>disk := d\<rparr>" by simp
  then show ?thesis unfolding sys_frame_def by (metis screen_frame_refl)
qed

lemma sys_frame_dir:
  "sys_frame s (s\<lparr>fs := (fs s)\<lparr>current_cluster := cc\<rparr>\<rparr>)" "sys_frame s (s\<lparr>fs := (fs s)\<lparr>previous_cluster := pc\<rparr>\<rparr>)"
proof -
  have "s\<lparr>fs := (fs s)\<lparr>current_cluster := cc, previous_cluster := previous_cluster (fs s)\<rparr>, disk := disk s\<rparr> = s\<lparr>fs := (fs s)\<lparr>current_cluster := cc\<rparr>\<rparr>"
    "s\<lparr>fs := (fs s)\<lparr>current_cluster := current_cluster (fs s), previous_cluster := pc\<rparr>, disk := disk s\<rparr> = s\<lparr>fs := (fs s)\<lparr>previous_cluster := pc\<rparr>\<rparr>" by simp_all
  then show "sys_frame s (s\<lparr>fs := (fs s)\<lparr>current_cluster := cc\<rparr>\<rparr>)" "sys_frame s (s\<lparr>fs := (fs s)\<lparr>previous_cluster := pc\<rparr>\<rparr>)"
    unfolding sys_frame_def by (metis screen_frame_refl)+
qed

text \<open>
  The contract of a frame: a preorder on states that contains what printing may change.  A command
  is a composition of prints, computed values, tests and loops, so its frame follows by these rules.
\<close>

definition keeps :: "('s \<Rightarrow> 's \<Rightarrow> bool) \<Rightarrow> 's \<Rightarrow> 's option \<Rightarrow> bool" where
  "keeps R s m \<longleftrightarrow> (\<forall>t. m = Some t \<longrightarrow> R s t)"

definition keeps_fst :: "('s \<Rightarrow> 's \<Rightarrow> bool) \<Rightarrow> 's \<Rightarrow> ('s \<times> 'v) option \<Rightarrow> bool" where
  "keeps_fst R s m \<longleftrightarrow> (\<forall>t v. m = Some (t, v) \<longrightarrow> R s t)"

locale console_frame =
  fixes R :: "'a console_scheme \<Rightarrow> 'a console_scheme \<Rightarrow> bool"
  assumes refl: "R s s"
    and trans: "R s t \<Longrightarrow> R t u \<Longrightarrow> R s u"
    and prints: "screen_frame s t \<Longrightarrow> R s t"
begin

lemma bind_state:
  assumes "keeps R s m" and "\<And>t. keeps R t (f t)"
  shows "keeps R s (m \<bind> f)"
  using assms trans by (fastforce simp: keeps_def split: Option.bind_splits)

lemma bind_value: "(\<And>x. m = Some x \<Longrightarrow> keeps R s (f x)) \<Longrightarrow> keeps R s (m \<bind> f)"
  by (auto simp: keeps_def split: Option.bind_splits)

lemma put: "R s u \<Longrightarrow> R s (put_char c color u)"
  using prints [OF screen_frame_put_char] trans by blast

lemma some: "R s u \<Longrightarrow> keeps R s (Some u)"
  by (simp add: keeps_def)

lemma none: "keeps R s None"
  by (simp add: keeps_def)

lemma line: "R s u \<Longrightarrow> keeps R s (print_line cs color u)"
  using prints [OF print_line_frame] trans by (fastforce simp: keeps_def)

lemma prompted: "R s u \<Longrightarrow> keeps R s (print_prompt cs color u)"
  using prints [OF print_prompt_frame] trans by (fastforce simp: keeps_def)

lemma clear: "keeps R s (clear_screen s)"
  using prints [OF clear_screen_frame] by (simp add: keeps_def)

lemma test: "keeps R s m \<Longrightarrow> keeps R s m' \<Longrightarrow> keeps R s (if b then m else m')"
  by simp

lemma pair: "(\<And>a b. keeps R s (f a b)) \<Longrightarrow> keeps R s (case x of (a, b) \<Rightarrow> f a b)"
  by (simp split: prod.split)

lemma found: "keeps R s m \<Longrightarrow> (\<And>a. keeps R s (f a)) \<Longrightarrow> keeps R s (case r of None \<Rightarrow> m | Some a \<Rightarrow> f a)"
  by (simp split: option.split)

lemma loop:
  assumes "\<And>i t. keeps R t (f i t)" and "R s u"
  shows "keeps R s (for_each f is u)"
  unfolding keeps_def
proof (intro allI impI)
  fix t assume "for_each f is u = Some t"
  then show "R s t"
    using assms(2) by (rule for_each_invariant) (use assms(1) trans in \<open>auto simp: keeps_def\<close>)
qed

lemma fst_bind_state:
  assumes "keeps R s m" and "\<And>t. keeps_fst R t (f t)"
  shows "keeps_fst R s (m \<bind> f)"
  using assms trans by (fastforce simp: keeps_def keeps_fst_def split: Option.bind_splits)

lemma fst_bind_value: "(\<And>x. m = Some x \<Longrightarrow> keeps_fst R s (f x)) \<Longrightarrow> keeps_fst R s (m \<bind> f)"
  by (auto simp: keeps_fst_def split: Option.bind_splits)

lemma fst_some: "R s u \<Longrightarrow> keeps_fst R s (Some (u, v))"
  by (simp add: keeps_fst_def)

lemma fst_test: "keeps_fst R s m \<Longrightarrow> keeps_fst R s m' \<Longrightarrow> keeps_fst R s (if b then m else m')"
  by simp

lemma fst_pair: "(\<And>a b. keeps R a (f a b)) \<Longrightarrow> keeps_fst R s m \<Longrightarrow> keeps R s (m \<bind> (\<lambda>x. case x of (a, b) \<Rightarrow> f a b))"
  unfolding keeps_def keeps_fst_def using trans by (fastforce split: Option.bind_splits)

lemma fst_loop:
  assumes "\<And>i t v. keeps_fst R t (f i (t, v))" and "R s u"
  shows "keeps_fst R s (for_each f is (u, v))"
  unfolding keeps_fst_def
proof (intro allI impI)
  fix t w assume "for_each f is (u, v) = Some (t, w)"
  then have "R s (fst (t, w))"
  proof (rule for_each_invariant)
    fix i x x' assume "R s (fst x)" "f i x = Some x'"
    then show "R s (fst x')" using assms(1) [of "fst x" i "snd x"] trans by (cases x') (auto simp: keeps_fst_def)
  qed (simp add: assms(2))
  then show "R s t" by simp
qed

lemmas fst_rules = fst_some fst_test
lemmas rules = some none line prompted clear test pair found put refl

end

interpretation scr: console_frame screen_frame
  by unfold_locales (auto intro: screen_frame_trans)

interpretation sys: console_frame sys_frame
  by unfold_locales (auto intro: sys_frame_trans sys_frame_screen)

lemma simple_commands_frame:
  "keeps screen_frame s (cmd_about s)" "keeps screen_frame s (cmd_uptime s)" "keeps screen_frame s (cmd_echo cmd s)"
  "keeps screen_frame s (cmd_status s)"
  unfolding cmd_about_def cmd_uptime_def cmd_echo_def cmd_status_def Let_def
  by (intro scr.bind_state scr.bind_value scr.rules)+

lemma cmd_ps_frame: "keeps screen_frame s (cmd_ps s)"
  unfolding cmd_ps_def ps_task_def Let_def
  by (intro scr.bind_state scr.bind_value scr.loop scr.rules)

lemma if_pair: "(if b then (u, v) else (u', v')) = (if b then u else u', if b then v else v')"
  by simp

lemma why_blocked_frame: "keeps screen_frame s (why_blocked e s)"
  unfolding why_blocked_def
  by (intro scr.bind_state [OF scr.line] scr.fst_pair scr.fst_loop scr.refl; (unfold prod.case if_pair)?;
      intro scr.rules scr.fst_bind_value scr.fst_rules; simp add: scr.put)

lemma cmd_why_frame: "keeps screen_frame s (cmd_why s)"
  unfolding cmd_why_def why_decision_def why_guard_def Let_def
  by (intro why_blocked_frame scr.bind_state scr.bind_value scr.rules)

lemma cmd_history_frame: "keeps screen_frame s (cmd_history s)"
  unfolding cmd_history_def Let_def
  apply (rule scr.bind_value; (intro scr.pair scr.test scr.line scr.bind_state scr.refl); intro scr.fst_pair)
  apply (intro scr.rules)
  by (intro scr.fst_loop; (unfold history_entry.simps)?; intro scr.fst_bind_state scr.fst_bind_value scr.fst_rules scr.rules)

lemma cmd_log_frame: "keeps screen_frame s (cmd_log s)"
  unfolding cmd_log_def Let_def
  by (intro scr.bind_state scr.bind_value scr.loop scr.rules)

lemma sys_disk: "sys_frame s u \<Longrightarrow> sys_frame s (u\<lparr>disk := d\<rparr>)"
  by (rule sys_frame_trans [OF _ sys_frame_disk])

lemma sys_dir:
  "sys_frame s u \<Longrightarrow> sys_frame s (u\<lparr>fs := (fs u)\<lparr>current_cluster := cc\<rparr>\<rparr>)"
  "sys_frame s u \<Longrightarrow> sys_frame s (u\<lparr>fs := (fs u)\<lparr>previous_cluster := pc\<rparr>\<rparr>)"
  by (erule sys_frame_trans [OF _ sys_frame_dir(1)], erule sys_frame_trans [OF _ sys_frame_dir(2)])

lemma keeps_screen: "keeps screen_frame s m \<Longrightarrow> keeps sys_frame s m"
  by (simp add: keeps_def sys_frame_screen)

lemma reboot_frame: "keeps sys_frame s (reboot D s)"
  unfolding reboot_def by (intro sys.bind_value sys.rules sys_disk)

lemma sys_frame_moved:
  "sys_frame s (s\<lparr>disk := d, fs := (fs s)\<lparr>previous_cluster := pc, current_cluster := cc\<rparr>\<rparr>)"
proof -
  have "s\<lparr>fs := (fs s)\<lparr>current_cluster := cc, previous_cluster := pc\<rparr>, disk := d\<rparr> =
      s\<lparr>disk := d, fs := (fs s)\<lparr>previous_cluster := pc, current_cluster := cc\<rparr>\<rparr>" by simp
  then show ?thesis unfolding sys_frame_def by (metis screen_frame_refl)
qed

lemma if_bind: "Option.bind (if b then m else m') f = (if b then Option.bind m f else Option.bind m' f)"
  by simp

lemma cmd_classify_frame: "keeps sys_frame s (cmd_classify D J s)"
  unfolding cmd_classify_def Let_def
  unfolding if_bind Option.bind_assoc Option.bind.bind_lunit prod.case
  by (intro sys.bind_value sys.pair sys.test sys.bind_state [OF sys.line] sys.line sys.refl sys_disk)

lemma cmd_ls_frame: "keeps sys_frame s (cmd_ls D s)"
  unfolding cmd_ls_def fat32_list_dir_def
  by (auto simp: keeps_def split: Option.bind_splits dest!: list_from_frame intro!: sys_disk [OF sys_frame_screen])

lemma cmd_cat_frame: "keeps sys_frame s (cmd_cat D J cmd s)"
  unfolding cmd_cat_def Let_def
  by (intro sys.bind_value sys.bind_state [OF sys.loop] sys.rules sys_disk)

lemma cmd_cd_frame: "keeps sys_frame s (cmd_cd D cmd s)"
  unfolding cmd_cd_def Let_def
  apply (intro sys.bind_value sys.rules sys_disk sys_dir)
  apply (simp_all add: sys_frame_moved)
  done

lemma cmd_touch_frame: "keeps sys_frame s (cmd_touch D cmd s)"
  unfolding cmd_touch_def Let_def
  by (intro sys.bind_value sys.rules sys_disk)

lemma cmd_write_frame: "keeps sys_frame s (cmd_write D J cmd s)"
  unfolding cmd_write_def Let_def
  by (intro sys.bind_value sys.rules sys_disk)

lemma cmd_rm_frame: "keeps sys_frame s (cmd_rm D cmd s)"
  unfolding cmd_rm_def Let_def
  by (intro sys.bind_value sys.rules sys_disk)

section \<open>The commands as a table\<close>

datatype command = Help | About | Empty | Clear | Uptime | Echo | Version | Hello | Beep | Poweroff | Reboot | Classify
  | Ls | Cat | Cd | Touch | Write | Status | Ps | Why | History | Rm | Log | Unknown

definition command_words :: "(string \<times> command) list" where
  "command_words = [(''help'', Help), (''about'', About), (''clear'', Clear), (''uptime'', Uptime), (''echo'', Echo),
     (''version'', Version), (''hello'', Hello), (''beep'', Beep), (''poweroff'', Poweroff), (''reboot'', Reboot),
     (''classify'', Classify), (''ls'', Ls), (''cat'', Cat), (''cd'', Cd), (''touch'', Touch), (''write'', Write),
     (''prajna status'', Status), (''ps'', Ps), (''prajna why'', Why), (''memory history'', History), (''rm'', Rm),
     (''prajna log'', Log)]"

text \<open>A line runs a command when it is the command word, alone or followed by a space.\<close>

definition runs :: "string \<Rightarrow> u8 list \<Rightarrow> bool" where
  "runs w inp \<longleftrightarrow> take (length w) inp = lit w \<and> (length inp = length w \<or> length w < length inp \<and> inp ! length w = 0x20)"

definition command_of :: "u8 list \<Rightarrow> command" where
  "command_of inp = (if inp = [] then Empty
     else case find (\<lambda>(w, c). runs w inp) command_words of Some (w, c) \<Rightarrow> c | None \<Rightarrow> Unknown)"

definition run_command ::
    "('d, 'x) ata_device_scheme \<Rightarrow> stack_junk \<Rightarrow> command \<Rightarrow> u8 list \<Rightarrow> ('d, 'b) system_scheme \<Rightarrow> ('d, 'b) system_scheme option" where
  "run_command D J c cmd s = (case c of
     Help \<Rightarrow> prompt (say ''Commands: help, clear, about, uptime, reboot, poweroff, ls ,cat'' 0x0E s)
   | About \<Rightarrow> prompt (cmd_about s)
   | Empty \<Rightarrow> prompt (Some s)
   | Clear \<Rightarrow> clear_screen s
   | Uptime \<Rightarrow> prompt (cmd_uptime s)
   | Echo \<Rightarrow> prompt (cmd_echo cmd s)
   | Version \<Rightarrow> prompt (say ''PrajnaOS v0.1 - Bare Metal'' 0x0E s)
   | Hello \<Rightarrow> prompt (say ''Hello from PrajnaOS!'' 0x0A s)
   | Beep \<Rightarrow> prompt (Some (put_char 7 0x07 s))
   | Poweroff \<Rightarrow> None
   | Reboot \<Rightarrow> prompt (reboot D s)
   | Classify \<Rightarrow> prompt (cmd_classify D J s)
   | Ls \<Rightarrow> prompt (cmd_ls D s)
   | Cat \<Rightarrow> prompt (cmd_cat D J cmd s)
   | Cd \<Rightarrow> prompt (cmd_cd D cmd s)
   | Touch \<Rightarrow> prompt (cmd_touch D cmd s)
   | Write \<Rightarrow> prompt (cmd_write D J cmd s)
   | Status \<Rightarrow> prompt (cmd_status s)
   | Ps \<Rightarrow> prompt (cmd_ps s)
   | Why \<Rightarrow> prompt (cmd_why s)
   | History \<Rightarrow> prompt (cmd_history s)
   | Rm \<Rightarrow> prompt (cmd_rm D cmd s)
   | Log \<Rightarrow> prompt (cmd_log s)
   | Unknown \<Rightarrow> prompt (say ''Unknown command. Type help.'' 0x04 s))"

lemma length_lit [simp]: "length (lit w) = length w"
  by (simp add: lit_def)

lemma runs_split: "runs w inp \<longleftrightarrow> (\<exists>r. inp = lit w @ r \<and> (r = [] \<or> hd r = 32))"
proof
  assume r: "runs w inp"
  then have "inp = lit w @ drop (length w) inp" unfolding runs_def by (metis append_take_drop_id)
  moreover have "drop (length w) inp = [] \<or> hd (drop (length w) inp) = 32"
    using r by (auto simp: runs_def hd_drop_conv_nth)
  ultimately show "\<exists>r. inp = lit w @ r \<and> (r = [] \<or> hd r = 32)" by blast
next
  assume "\<exists>r. inp = lit w @ r \<and> (r = [] \<or> hd r = 32)"
  then obtain r where "inp = lit w @ r" "r = [] \<or> hd r = 32" by blast
  then show "runs w inp" by (cases r) (auto simp: runs_def nth_append)
qed

lemma is_cmd_runs:
  assumes "holds cmd inp" and "0 \<notin> set (lit w)"
  shows "is_cmd cmd w = Some (runs w inp)"
proof -
  have "holds (cstr w) (lit w)" using assms(2) by (simp add: holds_def cstr_def)
  from kstrcmp_at_eq [OF assms(1) this, of 0] show ?thesis
    by (simp add: is_cmd_def kstrcmp_def runs_split)
qed

text \<open>No line runs two commands: no command word continues another one after a space.\<close>

lemma of_char_u8: "(of_char c :: u8) = of_char d \<longleftrightarrow> c = d"
proof
  assume "(of_char c :: u8) = of_char d"
  then have "(of_nat (of_char c) :: u8) = of_nat (of_char d)" by (cases c; cases d) (simp add: of_char_def)
  then have "unat (of_nat (of_char c) :: u8) = unat (of_nat (of_char d) :: u8)" by simp
  moreover have "unat (of_nat (of_char x) :: u8) = of_char x" for x
    using nat_of_char_less_256 [of x] by (intro unat_of_nat_small) simp
  ultimately show "c = d" by simp
qed simp

lemma lit_eq: "lit w = lit w' \<longleftrightarrow> w = w'"
  unfolding lit_def by (rule inj_map_eq_map) (simp add: inj_def of_char_u8)

lemma words_not_prefixes:
  "list_all (\<lambda>(w, c). w \<noteq> [] \<and> CHR 0x00 \<notin> set w \<and> list_all (\<lambda>(w', c'). take (length w) w' = w \<longrightarrow>
     (w', c') = (w, c) \<or> length w < length w' \<and> w' ! length w \<noteq> CHR '' '') command_words) command_words"
  by code_simp

lemma words_apart:
  assumes "(w, c) \<in> set command_words"
  shows "w \<noteq> []" and "0 \<notin> set (lit w)"
    and "(w', c') \<in> set command_words \<Longrightarrow> runs w (lit w') \<Longrightarrow> (w', c') = (w, c)"
proof -
  have nz: "(0 :: u8) = of_char (CHR 0x00)" "(32 :: u8) = of_char (CHR '' '')" by simp_all
  note all = words_not_prefixes [unfolded list_all_iff, rule_format, OF assms, unfolded prod.case]
  show "w \<noteq> []" using all by blast
  show "0 \<notin> set (lit w)" using all unfolding nz lit_def by (auto simp: of_char_u8 simp del: of_char_Char)
  assume w': "(w', c') \<in> set command_words" and r: "runs w (lit w')"
  have "take (length w) w' = w" using r by (simp add: runs_def take_map lit_def flip: lit_eq)
  moreover have "\<not> (length w < length w' \<and> w' ! length w \<noteq> CHR '' '')"
    using r unfolding runs_def nz by (auto simp: of_char_u8 lit_def simp del: of_char_Char)
  ultimately show "(w', c') = (w, c)" using all w' by blast
qed

lemma runs_unique:
  assumes "(w, c) \<in> set command_words" and "(w', c') \<in> set command_words" and "runs w inp" and "runs w' inp"
  shows "(w', c') = (w, c)"
proof -
  have step: "(y, d') = (x, d)" if m: "(x, d) \<in> set command_words" "(y, d') \<in> set command_words" "runs x inp" "runs y inp"
     and le: "length x \<le> length y" for x y d d'
  proof -
    have "take (length x) (take (length y) inp) = take (length x) inp" using le by (simp add: min_absorb1)
    then have 1: "take (length x) (lit y) = lit x" using m(3,4) by (simp only: runs_def)
    moreover have "lit y ! length x = 32" if "length x < length y"
    proof -
      have "length y \<le> length inp" using m(4) by (auto simp: runs_def)
      then have "inp ! length x = 32" using that m(3) by (auto simp: runs_def)
      moreover have "lit y ! length x = inp ! length x" using m(4) that by (metis nth_take runs_def)
      ultimately show ?thesis by simp
    qed
    ultimately have "runs x (lit y)" using le by (auto simp: runs_def)
    then show ?thesis using words_apart(3) [OF m(1,2)] by simp
  qed
  show ?thesis using step [OF assms] step [OF assms(2,1,4,3)] by (cases "length w \<le> length w'") auto
qed

lemma command_of_runs:
  assumes "(w, c) \<in> set command_words" and "runs w inp"
  shows "command_of inp = c"
proof -
  have "inp \<noteq> []" using assms(2) words_apart(1) [OF assms(1)] by (auto simp: runs_def)
  moreover have "find (\<lambda>(w, c). runs w inp) command_words = Some (w, c)"
  proof (cases "find (\<lambda>(w, c). runs w inp) command_words")
    case None
    then show ?thesis using assms by (auto simp: find_None_iff)
  next
    case (Some x)
    then have "x \<in> set command_words" "runs (fst x) inp" by (auto simp: find_Some_iff in_set_conv_nth)
    then show ?thesis using runs_unique [OF assms(1), of "fst x" "snd x" inp] assms(2) Some by simp
  qed
  ultimately show ?thesis by (simp add: command_of_def)
qed

lemma branch_chain:
  assumes "\<And>w c. (w, c) \<in> set ws \<Longrightarrow> is_cmd cmd w = Some (runs w inp)"
  shows "foldr (\<lambda>(w, c) rest. branch (is_cmd cmd w) (h c) rest) ws (h d) =
     h (case find (\<lambda>(w, c). runs w inp) ws of Some (w, c) \<Rightarrow> c | None \<Rightarrow> d)"
  using assms
proof (induction ws)
  case (Cons x ws)
  then show ?case using Cons.prems [of "fst x" "snd x"] by (cases x) (auto simp: branch_def)
qed simp

lemma shell_handle_run:
  assumes "holds cmd inp"
  shows "shell_handle D J cmd s = run_command D J (command_of inp) cmd s"
proof -
  have w: "is_cmd cmd w = Some (runs w inp)" if "(w, c) \<in> set command_words" for w c
    using is_cmd_runs [OF assms words_apart(2) [OF that]] .
  have c: "arr_get cmd 0 = Some (if inp = [] then 0 else hd inp) \<and> (inp \<noteq> [] \<longrightarrow> hd inp \<noteq> 0)"
    using assms by (cases inp) (auto simp: holds_def arr_get_def)
  have e: "\<not> runs w []" if "(w, c) \<in> set command_words" for w c
    using words_apart(1) [OF that] by (auto simp: runs_def)
  show ?thesis
  proof (cases "inp = []")
    case True
    have "is_cmd cmd ''help'' = Some False" "is_cmd cmd ''about'' = Some False"
      using w [of "''help''" Help] w [of "''about''" About] e [of "''help''" Help] e [of "''about''" About] True
      by (simp_all add: command_words_def)
    then show ?thesis
      using c True by (simp add: shell_handle_def branch_def command_of_def run_command_def)
  next
    case False
    then have "arr_get cmd 0 \<bind> (\<lambda>c. Some (c = 0)) = Some False" using c by simp
    then have "shell_handle D J cmd s = foldr (\<lambda>(w, c) rest. branch (is_cmd cmd w) (run_command D J c cmd s) rest)
        command_words (run_command D J Unknown cmd s)"
      unfolding shell_handle_def by (simp only: halt_never command_words_def foldr.simps prod.case run_command_def command.case comp_def id_def)
       (simp add: branch_def [where test = "Some False"])
    then show ?thesis using False branch_chain [where ws = command_words and h = "\<lambda>c. run_command D J c cmd s" and d = Unknown, OF w]
      by (simp add: command_of_def)
  qed
qed

section \<open>Commands that always return\<close>

text \<open>Printing a string that ends, in one step.\<close>

lemma cstr_ends [simp]: "0 \<in> set (cstr t)"
  by (simp add: cstr_def)

lemma until_nul: "0 \<notin> set cs \<Longrightarrow> takeWhile (\<lambda>c. c \<noteq> 0) (cs @ 0 # r) = cs"
  by (induction cs) auto

lemma say_emit:
  assumes "CHR 0x00 \<notin> set t"
  shows "say t color s = Some (emit color (lit t @ [10]) s)" and "print_prompt (cstr t) color s = Some (emit color (lit t) s)"
proof -
  have "of_char (CHR 0x00) \<notin> set (lit t)" using assms unfolding lit_def by (auto simp: of_char_u8 simp del: of_char_Char)
  then have "0 \<notin> set (lit t)" by simp
  then show "say t color s = Some (emit color (lit t @ [10]) s)" "print_prompt (cstr t) color s = Some (emit color (lit t) s)"
    by (simp_all add: print_line_emit print_prompt_emit cstr_def until_nul)
qed

lemma decimal_nonzero: "0 \<notin> set (decimal n)"
  using plain_digits by blast

lemma print_decimal:
  "print_line (decimal n @ 0 # r) color s = Some (emit color (decimal n @ [10]) s)"
  "print_prompt (decimal n @ 0 # r) color s = Some (emit color (decimal n) s)"
  by (simp_all add: print_line_emit print_prompt_emit until_nul decimal_nonzero)

lemma float_text:
  assumes "0 < n" and "13 + n \<le> length buf"
  shows "\<exists>b. ml_float_to_str v buf n = Some b \<and> length b = length buf \<and> 0 \<in> set b"
proof -
  let ?k = "length (head_text v) + 1 + n"
  have fit: "?k < length buf" using length_head_text [of v] assms(2) by simp
  obtain b where b: "ml_float_to_str v buf n = arr_set b ?k 0" "length b = length buf"
    using ml_float_to_str_run [OF assms(1), of v buf] fit by auto
  then show ?thesis using fit by (intro exI [of _ "b[?k := 0]"]) (simp add: set_update_memI)
qed

lemma digits_text:
  assumes "length buf = 16"
  shows "\<exists>b. uint_to_str n buf = Some b \<and> length b = length buf \<and> 0 \<in> set b"
  using uint_to_str_16 [OF assms, of n] by (metis assms in_set_conv_decomp)

lemma cmd_uptime_eq:
  "cmd_uptime s = Some (if ticks s = 0 then s else emit 0x0E (lit ''Ticks: '' @ [10] @ decimal (unat (ticks s)) @ [10]) s)"
proof (cases "ticks s = 0")
  case False
  have len: "length (decimal (unat (ticks s))) < length (replicate 32 (0 :: u8))" using length_decimal_u32 [of "ticks s"] by simp
  have "cmd_uptime s = do { buf \<leftarrow> uint_to_str (ticks s) (replicate 32 0); s \<leftarrow> say ''Ticks: '' 0x0E s; print_line buf 0x0E s }"
    using False by (simp add: cmd_uptime_def pit_get_ticks_def uint_to_str_def Let_def case_prod_unfold)
  also have "\<dots> = Some (emit 0x0E (decimal (unat (ticks s)) @ [10]) (emit 0x0E (lit ''Ticks: '' @ [10]) s))"
    using uint_to_str_eq [OF len] by (simp add: print_decimal say_emit)
  finally show ?thesis using False by (simp flip: emit_append)
qed (simp add: cmd_uptime_def pit_get_ticks_def)

lemma emit_more: "console.more (emit color cs s) = console.more s"
  using screen_frame_more [OF screen_frame_emit] .

lemma kernel_same:
  fixes s :: "'a kernel_scheme"
  assumes "console.more s' = console.more s"
  shows "tasks s' = tasks s" "ai s' = ai s" "ticks s' = ticks s"
  using assms by (cases s; cases s'; simp)+

lemma kernel_printed [simp]:
  fixes s :: "'a kernel_scheme"
  shows "tasks (emit color cs s) = tasks s" "ai (emit color cs s) = ai s" "tasks (put_char c color s) = tasks s" "ai (put_char c color s) = ai s"
  using kernel_same [OF emit_more] kernel_same [OF screen_frame_more [OF screen_frame_put_char]] by blast+

lemma ps_task_total:
  fixes s :: "'a kernel_scheme"
  assumes "i < length (tasks s)" and "state (tasks s ! i) = TASK_DEAD \<or> uint_of_float (priority (tasks s ! i)) \<noteq> None"
  shows "\<exists>t. ps_task i s = Some t"
proof (cases "state (tasks s ! i) = TASK_DEAD")
  case False
  let ?t = "tasks s ! i"
  obtain b1 where b1: "ml_float_to_str (cpu_usage ?t) (replicate 16 0) 1 = Some b1" "length b1 = 16" "0 \<in> set b1"
    using float_text [of 1 "replicate 16 0" "cpu_usage ?t"] by auto
  obtain b2 where b2: "ml_float_to_str (mem_usage ?t) b1 1 = Some b2" "length b2 = 16" "0 \<in> set b2"
    using float_text [of 1 b1 "mem_usage ?t"] b1 by auto
  obtain p where p: "uint_of_float (priority ?t) = Some p" using assms(2) False by blast
  obtain b3 where b3: "uint_to_str p b2 = Some b3" "length b3 = 16" "0 \<in> set b3" using digits_text [OF b2(2), of p] b2 by auto
  obtain b4 where b4: "ml_float_to_str (ml_score ?t) b3 2 = Some b4" "length b4 = 16" "0 \<in> set b4"
    using float_text [of 2 b3 "ml_score ?t"] b3 by auto
  obtain b5 where b5: "uint_to_str (wait_ticks ?t) b4 = Some b5" "0 \<in> set b5" using digits_text [OF b4(2)] by auto
  show ?thesis
    using assms(1) False b1 b2 p b3 b4 b5 by (simp add: ps_task_def Let_def print_prompt_emit)
qed (use assms(1) in \<open>simp add: ps_task_def\<close>)

definition tasks_shown :: "'a kernel_scheme \<Rightarrow> bool" where
  "tasks_shown s \<longleftrightarrow> (\<forall>i<8. state (tasks s ! i) = TASK_DEAD \<or> uint_of_float (priority (tasks s ! i)) \<noteq> None)"

lemma cmd_ps_total:
  fixes s :: "'a kernel_scheme"
  assumes "kernel_ok s" and "tasks_shown s"
  shows "\<exists>t. cmd_ps s = Some t"
proof -
  have h: "print_line ps_header 0x0E s = Some (emit 0x0E (takeWhile (\<lambda>c. c \<noteq> 0) ps_header @ [10]) s)"
    by (simp add: print_line_emit ps_header_def)
  have "\<exists>t. for_each ps_task [0..<8] u = Some t \<and> tasks t = tasks s" if "tasks u = tasks s" for u :: "'a kernel_scheme"
    using that
  proof (rule for_each_upt_inv [where I = "\<lambda>i t. tasks t = tasks s"])
    fix i :: nat and t :: "'a kernel_scheme" assume i: "i < 8" and t: "tasks t = tasks s"
    obtain t' where t': "ps_task i t = Some t'"
      using ps_task_total [of i t] i t assms by (auto simp: kernel_ok_def tasks_shown_def)
    have "keeps screen_frame t (ps_task i t)"
      unfolding ps_task_def Let_def by (intro scr.bind_state scr.bind_value scr.loop scr.rules)
    then have "screen_frame t t'" using t' by (simp add: keeps_def)
    then show "\<exists>t'. ps_task i t = Some t' \<and> tasks t' = tasks s"
      using t' t kernel_same(1) [OF screen_frame_more] by metis
  qed
  from this [of "emit 0x0E (takeWhile (\<lambda>c. c \<noteq> 0) ps_header @ [10]) s"] show ?thesis
    using h by (auto simp: cmd_ps_def MAX_TASKS_def)
qed

text \<open>What \<open>prajna log\<close> prints.\<close>

definition log_line :: "prajna_event \<Rightarrow> 'a console_scheme \<Rightarrow> 'a console_scheme" where
  "log_line e = emit (if ev_state e = STATE_ALERT then 0x0C else 0x0A)
     (lit (case ev_state e of STATE_CALM \<Rightarrow> ''CALM  '' | STATE_NORMAL \<Rightarrow> ''NORML '' | STATE_ALERT \<Rightarrow> ''ALERT '') @ [10])"

lemma for_each_nth:
  assumes "\<And>i s. i < n \<Longrightarrow> f i s = Some (g (xs ! i) s)" and "n \<le> length xs"
  shows "for_each f [0..<n] s = Some (fold g (take n xs) s)"
  using for_each_upt [of n f "\<lambda>i. fold g (take i xs) s"] assms by (simp add: take_Suc_conv_app_nth)

lemma cmd_log_eq:
  fixes s :: "'a kernel_scheme"
  assumes "events_ok (ai s)"
  shows "cmd_log s = Some (if events (ai s) = [] then emit 0x07 (lit ''Prajna: no log entries yet'' @ [10]) s
     else fold log_line (take 5 (rev (events (ai s)))) (emit 0x03 (lit ''Last 5 Prajna decisions:'' @ [10]) s))"
proof -
  let ?n = "min 5 (length (events (ai s)))" and ?out = "take 5 (rev (events (ai s))) @ drop (min 5 (length (events (ai s)))) (replicate 5 blank_event)"
  have log: "ai_get_log (replicate 5 blank_event) 5 (ai s) = Some (of_nat ?n, ?out)"
    using ai_get_log_eq [OF assms, of 5 "replicate 5 blank_event"] by (simp add: Let_def min_def)
  have n: "unat (of_nat ?n :: u8) = ?n" by (intro unat_of_nat_small) simp
  have z: "(of_nat ?n :: u8) = 0 \<longleftrightarrow> events (ai s) = []"
  proof -
    have "(of_nat ?n :: u8) = 0 \<longleftrightarrow> unat (of_nat ?n :: u8) = 0" by (simp only: unsigned_eq_0_iff)
    then show ?thesis unfolding n by (auto simp: min_def)
  qed
  have "for_each (\<lambda>i s. do { e \<leftarrow> arr_get ?out i;
       say (if ev_state e = STATE_CALM then ''CALM  '' else if ev_state e = STATE_NORMAL then ''NORML '' else ''ALERT '')
             (if ev_state e = STATE_ALERT then 0x0C else 0x0A) s }) [0..<?n] t = Some (fold log_line (take ?n ?out) t)"
    for t :: "'a kernel_scheme"
  proof (rule for_each_nth)
    fix i and t :: "'a kernel_scheme" assume i: "i < ?n"
    have "arr_get ?out i = Some (?out ! i)" by (rule arr_get_in) (use i in auto)
    then show "do { e \<leftarrow> arr_get ?out i;
       say (if ev_state e = STATE_CALM then ''CALM  '' else if ev_state e = STATE_NORMAL then ''NORML '' else ''ALERT '')
             (if ev_state e = STATE_ALERT then 0x0C else 0x0A) t } = Some (log_line (?out ! i) t)"
      by (cases "ev_state (?out ! i)") (simp_all only: log_line_def say_emit, simp_all add: say_emit)
  qed simp
  moreover have "take ?n ?out = take 5 (rev (events (ai s)))" by (auto simp: min_def)
  ultimately show ?thesis
    unfolding cmd_log_def log using n z by (simp add: say_emit)
qed

lemma why_guard_total: "\<exists>t. why_guard text i s = Some t"
  by (simp add: why_guard_def print_line_emit)

lemma why_decision_total: "\<exists>t. why_decision e s = Some t"
proof -
  obtain b where "uint_to_str (ucast (free_pages_at_decision e)) (replicate 16 0) = Some b" "0 \<in> set b"
    using digits_text [of "replicate 16 0" "ucast (free_pages_at_decision e)"] by auto
  then show ?thesis by (simp add: why_decision_def print_line_emit)
qed

lemma why_blocked_total:
  fixes s :: "'a kernel_scheme"
  assumes "length (tasks s) = 8" and "length (ev_perm e) = 8"
  shows "\<exists>t. why_blocked e s = Some t"
proof -
  let ?f = "\<lambda>i (s :: 'a kernel_scheme, any). do {
         t \<leftarrow> arr_get (tasks s) i;
         if state t = TASK_DEAD then Some (s, any)
         else do {
           p \<leftarrow> arr_get (ev_perm e) i;
           Some (if p = 0 then (put_char 0x20 0x0C (put_char (48 + of_nat i) 0x0C s), True) else (s, any)) } }"
  have "\<exists>x. for_each ?f [0..<8] y = Some x \<and> tasks (fst x) = tasks s" if "tasks (fst y) = tasks s" for y
    using that by (rule for_each_upt_inv) (use assms in auto)
  from this [of "(emit 0x07 (lit ''Blocked tasks: '' @ [10]) s, False)"]
  obtain x where "for_each ?f [0..<8] (emit 0x07 (lit ''Blocked tasks: '' @ [10]) s, False) = Some x" by auto
  then show ?thesis by (cases x) (simp add: why_blocked_def say_emit MAX_TASKS_def)
qed

lemma cmd_why_total:
  fixes s :: "'a kernel_scheme"
  assumes "kernel_ok s"
  shows "\<exists>t. cmd_why s = Some t"
proof -
  let ?es = "events (ai s)"
  have ok: "events_ok (ai s)" "ai_ok (ai s)" using assms by (simp_all add: kernel_ok_def ai_ok_def events_ok_def)
  show ?thesis
  proof (cases "?es = []")
    case True
    then show ?thesis using ai_get_log_eq [OF ok(1), of 1 "[blank_event]"] by (simp add: cmd_why_def say_emit)
  next
    case False
    let ?e = "last ?es"
    have "?e \<in> set ?es" using False by simp
    moreover have "set ?es \<subseteq> set (event_log (ai s))"
      using set_drop_subset [of "unat (event_index (ai s))" "event_log (ai s)"] set_take_subset [of "unat (event_index (ai s))" "event_log (ai s)"]
      by (auto simp: events_def circ_def)
    ultimately have "length (ev_perm ?e) = 8" using ok(2) by (auto simp: ai_ok_def)
    have n: "min 1 (length ?es) = 1" using False by (cases ?es) auto
    have r: "take 1 (rev ?es) = [?e]" using False by (cases ?es rule: rev_cases) auto
    have log: "ai_get_log [blank_event] 1 (ai s) = Some (1, [?e])"
      using ai_get_log_eq [OF ok(1), of 1 "[blank_event]"] n r by (simp add: Let_def)
    obtain s1 where s1: "why_decision ?e s = Some s1" using why_decision_total by blast
    obtain s2 where s2: "why_guard ''  starvation guard: task '' (starvation_task_id ?e) s1 = Some s2" using why_guard_total by blast
    obtain s3 where s3: "why_guard ''  anomaly guard: task '' (anomaly_task_id ?e) s2 = Some s3" using why_guard_total by blast
    have "keeps screen_frame s (do { s \<leftarrow> why_decision ?e s; s \<leftarrow> why_guard ''  starvation guard: task '' (starvation_task_id ?e) s;
        why_guard ''  anomaly guard: task '' (anomaly_task_id ?e) s })"
      unfolding why_decision_def why_guard_def by (intro scr.bind_state scr.bind_value scr.rules)
    then have "screen_frame s s3" using s1 s2 s3 by (simp add: keeps_def)
    then have "length (tasks s3) = 8" using assms kernel_same(1) [OF screen_frame_more] by (metis kernel_ok_def)
    then obtain s4 where "why_blocked ?e s3 = Some s4" using why_blocked_total \<open>length (ev_perm ?e) = 8\<close> by blast
    then show ?thesis using s1 s2 s3 log by (simp add: cmd_why_def)
  qed
qed

lemma cmd_history_total:
  fixes s :: "'a kernel_scheme"
  assumes "kernel_ok s"
  shows "\<exists>t. cmd_history s = Some t"
proof -
  let ?es = "mem_entries (memhist (ai s))"
  have ok: "mem_history_ok (memhist (ai s))" using assms by (simp add: kernel_ok_def ai_ok_def mem_history_ok_def)
  define pgs where "pgs = map fst ?es @ drop (length ?es) (replicate HISTORY_LEN 0)"
  define tks where "tks = map snd ?es @ drop (length ?es) (replicate HISTORY_LEN 0)"
  have le: "length ?es \<le> 8" using ok by (auto simp: mem_history_ok_def mem_entries_def circ_def word_less_nat_alt)
  have h: "ai_get_memory_history (replicate HISTORY_LEN 0) (replicate HISTORY_LEN 0) (ai s) = Some (of_nat (length ?es), pgs, tks)"
    using ai_get_memory_history_eq [OF ok] by (simp add: Let_def HISTORY_LEN_def pgs_def tks_def)
  have n: "unat (of_nat (length ?es) :: u8) = length ?es" using le by (intro unat_of_nat_small) simp
  have len: "length pgs = 8" "length tks = 8" using le by (simp_all add: pgs_def tks_def HISTORY_LEN_def)
  have body: "\<exists>y. history_entry pgs tks i x = Some y \<and> length (snd y) = 32" if i: "i < length ?es" and x: "length (snd x) = 32" for i and x :: "'a kernel_scheme \<times> u8 list"
  proof -
    have long: "length (decimal (unat n)) < length b" if "length b = 32" for n :: u32 and b :: "u8 list"
      using length_decimal_u32 [of n] that by simp
    obtain s b where [simp]: "x = (s, b)" by (cases x)
    note e1 = uint_to_str_eq [OF long, of b "tks ! i div 1000"]
    define b1 where "b1 = decimal (unat (tks ! i div 1000)) @ 0 # drop (Suc (length (decimal (unat (tks ! i div 1000))))) b"
    have b1: "length b1 = 32" unfolding b1_def length_append length_Cons length_drop using long [of b "tks ! i div 1000"] x by simp
    have "0 \<in> set b1" by (simp add: b1_def)
    note e2 = uint_to_str_eq [OF long [OF b1], of "pgs ! i"]
    have "length (decimal (unat (pgs ! i)) @ 0 # drop (Suc (length (decimal (unat (pgs ! i))))) b1) = 32"
      unfolding length_append length_Cons length_drop using long [OF b1, of "pgs ! i"] b1 by simp
    then show ?thesis using e1 e2 x i le len \<open>0 \<in> set b1\<close> by (simp add: history_entry.simps say_emit print_decimal b1_def [symmetric]) (simp add: print_line_emit)
  qed
  show ?thesis
  proof (cases "?es = []")
    case True
    then show ?thesis using h by (simp add: cmd_history_def say_emit)
  next
    case False
    have nz: "(of_nat (length ?es) :: u8) \<noteq> 0" using False n by (metis length_0_conv unat_0)
    have "\<exists>y. for_each (history_entry pgs tks) [0..<length ?es] (emit 0x0A (lit ''Memory History:'' @ [10]) s, replicate 32 0) = Some y \<and> length (snd y) = 32"
      by (rule for_each_upt_inv [where I = "\<lambda>i y. length (snd y) = 32"], simp, rule body)
    then show ?thesis using nz h n by (auto simp: cmd_history_def say_emit)
  qed
qed

lemma cmd_echo_total:
  assumes "holds cmd inp" and "runs ''echo'' inp"
  shows "cmd_echo cmd s = Some (if length inp = 4 then emit 0x0C (lit ''Usage: echo <text>'' @ [10]) s
     else emit 0x0A (drop 5 inp @ [10]) s)"
proof -
  obtain rest where cmd: "cmd = inp @ 0 # rest" "0 \<notin> set inp" using assms(1) by (auto simp: holds_def)
  have len: "length inp = 4 \<or> 4 < length inp \<and> inp ! 4 = 32" using assms(2) by (simp add: runs_def numeral_eq_Suc)
  show ?thesis
  proof (cases "length inp = 4")
    case True
    then show ?thesis using cmd(1) by (simp add: cmd_echo_def nth_append say_emit)
  next
    case False
    then have "drop 5 cmd = drop 5 inp @ 0 # rest" using cmd(1) len by simp
    moreover have "0 \<notin> set (drop 5 inp)" using cmd(2) set_drop_subset by fastforce
    ultimately show ?thesis using False len cmd(1)
      by (simp add: cmd_echo_def nth_append print_line_emit until_nul)
  qed
qed

lemma clear_screen_total: "\<exists>t. clear_screen s = Some t"
  by (simp add: clear_screen_def Let_def cstr_def lit_def)

definition needs_drive :: "command \<Rightarrow> bool" where
  "needs_drive c \<longleftrightarrow> c \<in> {Reboot, Classify, Ls, Cat, Cd, Touch, Write, Rm}"

lemma prompt_total: "(\<exists>t. m = Some t) \<Longrightarrow> \<exists>t. prompt m = Some t"
  by (auto simp: prompt_def print_prompt_emit)

lemma run_command_total:
  fixes s :: "('d, 'b) system_scheme"
  assumes "kernel_ok s" and "tasks_shown s" and "holds cmd inp"
    and "\<not> needs_drive (command_of inp)" and "command_of inp \<noteq> Poweroff"
  shows "\<exists>t. run_command D J (command_of inp) cmd s = Some t"
proof -
  have ok: "events_ok (ai s)" using assms(1) by (simp add: kernel_ok_def ai_ok_def events_ok_def)
  have echo: "runs ''echo'' inp" if "command_of inp = Echo"
    using that by (auto simp: command_of_def command_words_def split: if_splits)
  have st: "\<exists>t. cmd_status s = Some t" by (simp add: cmd_status_def Let_def print_line_emit)
  show ?thesis
    using assms(4,5) prompt_total [OF cmd_ps_total [OF assms(1,2)]] prompt_total [OF cmd_why_total [OF assms(1)]]
      prompt_total [OF cmd_history_total [OF assms(1)]] clear_screen_total [of s] cmd_echo_total [OF assms(3) echo, of s] prompt_total [OF st]
    by (cases "command_of inp")
      (simp_all add: run_command_def needs_drive_def cmd_about_def cmd_uptime_eq cmd_log_eq [OF ok] print_line_emit prompt_def print_prompt_emit)
qed

lemma shell_handle_frame: "keeps sys_frame s (shell_handle D J cmd s)"
proof -
  have b: "keeps sys_frame s (branch c m m')" if "keeps sys_frame s m" "keeps sys_frame s m'" for c m m'
    using that by (auto simp: keeps_def branch_def split: Option.bind_splits if_splits)
  have p: "keeps sys_frame s (prompt m)" if "keeps sys_frame s m" for m
    using that unfolding prompt_def by (intro sys.bind_state sys.rules)
  show ?thesis
    unfolding shell_handle_def halt_never
    by (intro b p sys.rules sys.clear reboot_frame cmd_classify_frame cmd_ls_frame cmd_cat_frame cmd_cd_frame cmd_touch_frame
        cmd_write_frame cmd_rm_frame simple_commands_frame [THEN keeps_screen] cmd_ps_frame [THEN keeps_screen]
        cmd_why_frame [THEN keeps_screen] cmd_history_frame [THEN keeps_screen] cmd_log_frame [THEN keeps_screen])
qed

section \<open>Properties\<close>

text \<open>
  C21: Whatever is typed, and whatever the drive does, a command that returns and makes no access outside its buffers
  (a result \<open>Some\<close>) leaves the rest of the kernel alone: tasks, scheduler, permissions, pages, clock, weights,
  stacks, keyboard ring and line buffer are as before - only the drive, the working directory, the
  cursor and the screen change, of the video memory at most rows 2 to 24 and the one cell behind the
  screen, and the cursor stays within these rows and columns 0 to 80.  Excluded are the inputs with undefined behaviour:
  \<open>write\<close> without text to a file that does not exist stores at an offset no code has set.
\<close>

theorem shell_confined:
  assumes "shell_handle D J cmd s = Some s'" and "cursor_ok s"
  shows "cursor_ok s' \<and> (\<forall>n. n < 160 \<or> 2000 < n \<longrightarrow> vga s' n = vga s n) \<and>
     s' = s\<lparr>vga := vga s', cur_row := cur_row s', cur_col := cur_col s',
            fs := (fs s)\<lparr>current_cluster := current_cluster (fs s'), previous_cluster := previous_cluster (fs s')\<rparr>,
            disk := disk s'\<rparr>"
proof -
  obtain d cc pc where f: "screen_frame (s\<lparr>fs := (fs s)\<lparr>current_cluster := cc, previous_cluster := pc\<rparr>, disk := d\<rparr>) s'"
    using shell_handle_frame [of s D J cmd] assms(1) by (auto simp: keeps_def sys_frame_def)
  let ?u = "s\<lparr>fs := (fs s)\<lparr>current_cluster := cc, previous_cluster := pc\<rparr>, disk := d\<rparr>"
  have s': "s' = ?u\<lparr>vga := vga s', cur_row := cur_row s', cur_col := cur_col s'\<rparr>"
    using f by (simp add: screen_frame_def same_keyboard_def)
  have "disk s' = d" "fs s' = (fs s)\<lparr>current_cluster := cc, previous_cluster := pc\<rparr>"
    using system_same [OF screen_frame_more [OF f]] by simp_all
  then have "s' = s\<lparr>vga := vga s', cur_row := cur_row s', cur_col := cur_col s',
            fs := (fs s)\<lparr>current_cluster := current_cluster (fs s'), previous_cluster := previous_cluster (fs s')\<rparr>,
            disk := disk s'\<rparr>"
    by (subst s') simp
  then show ?thesis using f assms(2) by (simp add: screen_frame_def cursor_ok_def)
qed

definition junk :: stack_junk where
  "junk = \<lparr>junk_buf = replicate 512 0xAA, junk_entry = file_at 0, junk_sector = 0, junk_offset = 0\<rparr>"

definition bss_system :: "'d \<Rightarrow> 'd system" where
  "bss_system d = kernel.extend bss_kernel (system.fields
     \<lparr>fat_start_lba = 0, data_start_lba = 0, root_cluster = 0, sectors_per_cluster = 0, current_cluster = 0, previous_cluster = 0\<rparr> d)"

lemma bss_system_fields:
  "tasks (bss_system d) = replicate 8 zero_task" "ticks (bss_system d) = 0" "ai (bss_system d) = ai_init" "sch (bss_system d) = sch bss_kernel"
  "cur_row (bss_system d) = 2" "cur_col (bss_system d) = 10" "vga (bss_system d) = (\<lambda>_. 0)" "disk (bss_system d) = d"
  "pages (bss_system d) = pages bss_kernel" "input_buf (bss_system d) = replicate 256 0" "buf_pos (bss_system d) = 0"
  by (simp_all add: bss_system_def kernel.extend_def bss_kernel_def system.fields_def MAX_TASKS_def BUF_SIZE_def)

lemma bss_system_ok: "kernel_ok (bss_system d)" "tasks_shown (bss_system d)" "cursor_ok (bss_system d)"
  using kernel_ok_bss
  by (simp_all add: kernel_ok_def bss_system_fields tasks_shown_def zero_task_def TASK_DEAD_def cursor_ok_def)
    (simp_all add: bss_kernel_def MAX_TASKS_def)

lemma holds_cstr: "CHR 0x00 \<notin> set t \<Longrightarrow> holds (cstr t) (lit t)"
proof -
  assume "CHR 0x00 \<notin> set t"
  then have "of_char (CHR 0x00) \<notin> set (lit t)" unfolding lit_def by (auto simp: of_char_u8 simp del: of_char_Char)
  then show ?thesis by (simp add: holds_def cstr_def)
qed

lemma shell_confined_witness:
  "\<exists>s'. shell_handle pio_drive junk (cstr ''uptime'') (bss_system blank_pio) = Some s' \<and> vga s' 79 = 0 \<and> tasks s' = replicate 8 zero_task"
proof -
  have h: "holds (cstr ''uptime'') (lit ''uptime'')" by (rule holds_cstr) simp
  have c: "command_of (lit ''uptime'') = Uptime" by (rule command_of_runs [of "''uptime''"]) (simp_all add: command_words_def runs_def)
  obtain s' where s': "shell_handle pio_drive junk (cstr ''uptime'') (bss_system blank_pio) = Some s'"
    using run_command_total [OF bss_system_ok(1,2) h, of pio_drive junk blank_pio]
    by (auto simp: shell_handle_run [OF h] c needs_drive_def)
  note fr = shell_confined [OF s' bss_system_ok(3)]
  have "tasks s' = tasks (bss_system blank_pio)" by (subst fr [THEN conjunct2, THEN conjunct2]) simp
  moreover have "vga s' 79 = vga (bss_system blank_pio) 79" using fr [THEN conjunct2, THEN conjunct1] by simp
  ultimately show ?thesis using s' by (simp add: bss_system_fields)
qed

text \<open>
  C23: The shell understands whole words: on every line exactly one command runs - the one whose word
  the line is, or starts with before a space; an empty line only prints the prompt, any other line
  the message for unknown commands - and every command but \<open>poweroff\<close> that needs neither the drive nor the reset
  line returns, on any well-formed kernel state whose live tasks have priorities that \<open>ps\<close> can convert to integers.
\<close>

theorem shell_dispatch:
  assumes "holds cmd inp"
  shows "((w, c) \<in> set command_words \<and> runs w inp \<longrightarrow> shell_handle D J cmd s = run_command D J c cmd s) \<and>
     (inp = [] \<longrightarrow> shell_handle D J cmd s = Some (emit 0x03 (lit ''PrajnaOS>'') s)) \<and>
     (inp \<noteq> [] \<and> (\<forall>(w, c) \<in> set command_words. \<not> runs w inp) \<longrightarrow>
        shell_handle D J cmd s = Some (emit 0x03 (lit ''PrajnaOS>'') (emit 0x04 (lit ''Unknown command. Type help.'' @ [10]) s))) \<and>
     (kernel_ok s \<and> tasks_shown s \<and> command_of inp \<noteq> Poweroff \<and> \<not> needs_drive (command_of inp) \<longrightarrow>
        shell_handle D J cmd s \<noteq> None)"
proof (intro conjI impI)
  note run = shell_handle_run [OF assms, of D J s]
  show "shell_handle D J cmd s = run_command D J c cmd s" if "(w, c) \<in> set command_words \<and> runs w inp"
    using run command_of_runs that by auto
  show "shell_handle D J cmd s = Some (emit 0x03 (lit ''PrajnaOS>'') s)" if "inp = []"
    using run that by (simp add: command_of_def run_command_def prompt_def say_emit)
  show "shell_handle D J cmd s = Some (emit 0x03 (lit ''PrajnaOS>'') (emit 0x04 (lit ''Unknown command. Type help.'' @ [10]) s))"
    if "inp \<noteq> [] \<and> (\<forall>(w, c) \<in> set command_words. \<not> runs w inp)"
  proof -
    have "find (\<lambda>(w, c). runs w inp) command_words = None" using that by (auto simp: find_None_iff)
    then show ?thesis using run that by (simp add: command_of_def run_command_def prompt_def say_emit)
  qed
  show "shell_handle D J cmd s \<noteq> None"
    if "kernel_ok s \<and> tasks_shown s \<and> command_of inp \<noteq> Poweroff \<and> \<not> needs_drive (command_of inp)"
    using run run_command_total [of s cmd inp D J] assms that by auto
qed

lemma shell_dispatch_witness:
  "shell_handle pio_drive junk (cstr ''hello you'') (bss_system blank_pio) =
     prompt (say ''Hello from PrajnaOS!'' 0x0A (bss_system blank_pio))"
proof -
  have h: "holds (cstr ''hello you'') (lit ''hello you'')" by (rule holds_cstr) simp
  have "(''hello'', Hello) \<in> set command_words \<and> runs ''hello'' (lit ''hello you'')"
    by (simp add: command_words_def runs_def lit_def)
  with shell_dispatch [OF h, where w = "''hello''" and c = Hello and D = pio_drive and J = junk and s = "bss_system blank_pio"]
  show ?thesis by (simp add: run_command_def)
qed

text \<open>
  Two reports of the shell are exact: \<open>uptime\<close> prints the tick counter in decimal (and nothing at
  all while it is 0), \<open>prajna log\<close> one line for each of the newest decisions, newest first and at
  most five, labelled and coloured by the state decided on.
\<close>

theorem shell_reports_kernel:
  fixes s :: "'a kernel_scheme"
  assumes "kernel_ok s"
  shows "cmd_uptime s = Some (if ticks s = 0 then s else emit 0x0E (lit ''Ticks: '' @ [10] @ decimal (unat (ticks s)) @ [10]) s) \<and>
     cmd_log s = Some (if events (ai s) = [] then emit 0x07 (lit ''Prajna: no log entries yet'' @ [10]) s
       else fold log_line (take 5 (rev (events (ai s)))) (emit 0x03 (lit ''Last 5 Prajna decisions:'' @ [10]) s))"
proof -
  have "events_ok (ai s)" using assms by (simp add: kernel_ok_def ai_ok_def events_ok_def)
  then show ?thesis using cmd_uptime_eq cmd_log_eq by blast
qed

lemma shell_reports_kernel_witness:
  "cmd_uptime (bss_kernel\<lparr>ticks := 407\<rparr>) = Some (emit 0x0E (lit ''Ticks: '' @ [10] @ lit ''407'' @ [10]) (bss_kernel\<lparr>ticks := 407\<rparr>))"
proof -
  have "kernel_ok (bss_kernel\<lparr>ticks := 407\<rparr>)" using kernel_ok_bss by (simp add: kernel_ok_def)
  from shell_reports_kernel [OF this] have "cmd_uptime (bss_kernel\<lparr>ticks := 407\<rparr>) =
      Some (emit 0x0E (lit ''Ticks: '' @ [10] @ decimal 407 @ [10]) (bss_kernel\<lparr>ticks := 407\<rparr>))" by simp
  moreover have "decimal 407 = lit ''407''" by (simp add: decimal.simps [of 407] decimal.simps [of 40] decimal.simps [of 4] lit_def)
  ultimately show ?thesis by simp
qed

end
