(* ===== verification/Shell_Files.thy ===== *)
theory Shell_Files
  imports Shell
begin

text \<open>
  The file commands of the shell, down to the sectors of any block device: how arguments are split
  into 8.3 names, what \<open>touch\<close>, \<open>write\<close> and \<open>cat\<close> do in a session, and what \<open>classify\<close> reports.
\<close>

section \<open>File names on the command line\<close>

text \<open>The name and the extension of an argument: up to 8 characters before a point, up to 3 after it.\<close>

definition base_len :: "u8 list \<Rightarrow> nat" where
  "base_len s = length (takeWhile (\<lambda>c. c \<noteq> 0x2E) (take 8 s))"

definition ext_start :: "u8 list \<Rightarrow> nat" where
  "ext_start s = (if base_len s < length s \<and> s ! base_len s = 0x2E then base_len s + 1 else base_len s)"

definition ext_len :: "(u8 \<Rightarrow> bool) \<Rightarrow> u8 list \<Rightarrow> nat" where
  "ext_len stop s = length (takeWhile (\<lambda>c. \<not> stop c) (take 3 (drop (ext_start s) s)))"

lemma takeWhile_take_Suc:
  "takeWhile P (take (Suc n) (drop j s)) = (if j < length s \<and> P (s ! j) then s ! j # takeWhile P (take n (drop (Suc j) s)) else [])"
  by (cases "j < length s") (simp_all flip: Cons_nth_drop_Suc)

lemma parse_name_run:
  assumes "holds arg s" and "length name = 9" and "j \<le> length s" and "j \<le> 8"
  shows "parse_name arg j name = (let k = length (takeWhile (\<lambda>c. c \<noteq> 0x2E) (take (8 - j) (drop j s))) in
     Some (j + k, take j name @ take k (drop j s) @ drop (j + k) name))"
  using assms(2-4)
proof (induction "8 - j" arbitrary: j name)
  case 0
  then show ?case using holds_at [OF assms(1), of j] by (subst parse_name.simps) simp
next
  case (Suc n)
  then have n: "8 - j = Suc n" "n = 8 - Suc j" "j < 8" by auto
  have get: "arr_get arg j = Some (if j < length s then s ! j else 0)" using holds_at [OF assms(1) Suc.prems(2)] by simp
  show ?case
  proof (cases "j < length s \<and> s ! j \<noteq> 0x2E")
    case True
    then have nz: "s ! j \<noteq> 0" using assms(1) by (metis holds_def nth_mem)
    have "parse_name arg j name = parse_name arg (Suc j) (name[j := s ! j])"
      using True get nz n(3) Suc.prems(1) by (subst parse_name.simps) simp
    then show ?thesis
      using Suc.hyps(1) [OF n(2), of "name[j := s ! j]"] True n Suc.prems
      unfolding n(1) takeWhile_take_Suc
      by (simp add: Let_def take_Suc_conv_app_nth drop_update_cancel Cons_nth_drop_Suc [symmetric])
  next
    case False
    then have "parse_name arg j name = Some (j, name)" using get by (subst parse_name.simps) auto
    moreover have "takeWhile (\<lambda>c. c \<noteq> 0x2E) (take (8 - j) (drop j s)) = []"
      unfolding n(1) takeWhile_take_Suc using False by auto
    ultimately show ?thesis by simp
  qed
qed

lemma parse_ext_run:
  assumes "holds arg s" and "length ext = 4" and "j \<le> length s" and "e \<le> 3"
  shows "parse_ext stop arg j e ext = (let k = length (takeWhile (\<lambda>c. \<not> stop c) (take (3 - e) (drop j s))) in
     Some (j + k, e + k, take e ext @ take k (drop j s) @ drop (e + k) ext))"
  using assms(2-4)
proof (induction "3 - e" arbitrary: j e ext)
  case 0
  then show ?case using holds_at [OF assms(1), of j] by (subst parse_ext.simps) simp
next
  case (Suc n)
  then have n: "3 - e = Suc n" "n = 3 - Suc e" "e < 3" by auto
  have get: "arr_get arg j = Some (if j < length s then s ! j else 0)" using holds_at [OF assms(1) Suc.prems(2)] by simp
  show ?case
  proof (cases "j < length s \<and> \<not> stop (s ! j)")
    case True
    then have nz: "s ! j \<noteq> 0" using assms(1) by (metis holds_def nth_mem)
    have "parse_ext stop arg j e ext = parse_ext stop arg (Suc j) (Suc e) (ext[e := s ! j])"
      using True get nz n(3) Suc.prems(1) by (subst parse_ext.simps) simp
    then show ?thesis
      using Suc.hyps(1) [OF n(2), of "ext[e := s ! j]" "Suc j"] True n Suc.prems
      unfolding n(1) takeWhile_take_Suc
      by (simp add: Let_def take_Suc_conv_app_nth Cons_nth_drop_Suc [symmetric])
  next
    case False
    then have "parse_ext stop arg j e ext = Some (j, e, ext)" using get by (subst parse_ext.simps) auto
    moreover have "takeWhile (\<lambda>c. \<not> stop c) (take (3 - e) (drop j s)) = []"
      unfolding n(1) takeWhile_take_Suc using False by auto
    ultimately show ?thesis by simp
  qed
qed

text \<open>
  Any argument is split without leaving the two local arrays, into NUL-terminated strings.
\<close>

lemma parse_file_eq:
  assumes "holds arg s"
  shows "\<exists>name ext. parse_file stop arg = Some (name, ext, ext_start s + ext_len stop s) \<and>
     holds name (take (base_len s) s) \<and> holds ext (take (ext_len stop s) (drop (ext_start s) s))"
proof -
  have nz: "0 \<notin> set s" using assms by (simp add: holds_def)
  have b: "base_len s \<le> 8" "base_len s \<le> length s"
    using length_takeWhile_le [of "\<lambda>c. c \<noteq> 0x2E" "take 8 s"] by (simp_all add: base_len_def)
  have e: "ext_len stop s \<le> 3" using length_takeWhile_le [of "\<lambda>c. \<not> stop c" "take 3 (drop (ext_start s) s)"] by (simp add: ext_len_def)
  have e': "ext_start s + ext_len stop s \<le> length s" "ext_start s \<le> length s"
    using length_takeWhile_le [of "\<lambda>c. \<not> stop c" "take 3 (drop (ext_start s) s)"] b(2) by (auto simp: ext_len_def ext_start_def)
  have n: "parse_name arg 0 (replicate 8 0x20 @ [0]) = Some (base_len s, take (base_len s) s @ drop (base_len s) (replicate 8 0x20 @ [0]))"
    using parse_name_run [OF assms, of "replicate 8 0x20 @ [0]" 0] by (simp add: Let_def base_len_def)
  have len: "length (take (base_len s) s) = base_len s" using b by simp
  have set1: "arr_set (take (base_len s) s @ drop (base_len s) (replicate 8 0x20 @ [0])) (base_len s) 0 =
      Some (take (base_len s) s @ 0 # drop (Suc (base_len s)) (replicate 8 0x20 @ [0]))"
  proof -
    obtain x xs where x: "drop (base_len s) (replicate 8 0x20 @ [0]) = x # xs" "xs = drop (Suc (base_len s)) (replicate 8 0x20 @ [0 :: u8])"
      using Cons_nth_drop_Suc [of "base_len s" "replicate 8 0x20 @ [0 :: u8]"] b(1) by (metis le_imp_less_Suc length_append_singleton length_replicate)
    show ?thesis unfolding x(1) x(2) [symmetric] using len by (simp add: arr_set_def list_update_append)
  qed
  have get: "arr_get arg (base_len s) = Some (if base_len s < length s then s ! base_len s else 0)"
    using holds_at [OF assms b(2)] by simp
  have ex: "parse_ext stop arg (ext_start s) 0 (replicate 3 0x20 @ [0]) =
      Some (ext_start s + ext_len stop s, ext_len stop s, take (ext_len stop s) (drop (ext_start s) s) @ drop (ext_len stop s) (replicate 3 0x20 @ [0]))"
    using parse_ext_run [OF assms, of "replicate 3 0x20 @ [0]" "ext_start s" 0 stop] e'(2) by (simp add: Let_def ext_len_def)
  have len2: "length (take (ext_len stop s) (drop (ext_start s) s)) = ext_len stop s" using e' by simp
  have set2: "arr_set (take (ext_len stop s) (drop (ext_start s) s) @ drop (ext_len stop s) (replicate 3 0x20 @ [0])) (ext_len stop s) 0 =
      Some (take (ext_len stop s) (drop (ext_start s) s) @ 0 # drop (Suc (ext_len stop s)) (replicate 3 0x20 @ [0]))"
  proof -
    obtain x xs where x: "drop (ext_len stop s) (replicate 3 0x20 @ [0]) = x # xs" "xs = drop (Suc (ext_len stop s)) (replicate 3 0x20 @ [0 :: u8])"
      using Cons_nth_drop_Suc [of "ext_len stop s" "replicate 3 0x20 @ [0 :: u8]"] e by (metis le_imp_less_Suc length_append_singleton length_replicate)
    show ?thesis unfolding x(1) x(2) [symmetric] using len2 by (simp add: arr_set_def list_update_append)
  qed
  have j: "(if (if base_len s < length s then s ! base_len s else 0) = 0x2E then base_len s + 1 else base_len s) = ext_start s"
    by (simp add: ext_start_def)
  have "parse_file stop arg = Some (take (base_len s) s @ 0 # drop (Suc (base_len s)) (replicate 8 0x20 @ [0]),
      take (ext_len stop s) (drop (ext_start s) s) @ 0 # drop (Suc (ext_len stop s)) (replicate 3 0x20 @ [0]), ext_start s + ext_len stop s)"
    unfolding parse_file_def n by (simp only: Option.bind.bind_lunit prod.case set1 get Let_def j ex set2)
  moreover have "0 \<notin> set (take (base_len s) s)" "0 \<notin> set (take (ext_len stop s) (drop (ext_start s) s))"
    using nz by (meson in_set_takeD in_set_dropD)+
  ultimately show ?thesis unfolding holds_def by blast
qed

text \<open>An 8.3 name, possibly followed by a character that stops the extension.\<close>

definition name83 :: "(u8 \<Rightarrow> bool) \<Rightarrow> u8 list \<Rightarrow> u8 list \<Rightarrow> bool" where
  "name83 stop b e \<longleftrightarrow> length b \<le> 8 \<and> 0x2E \<notin> set b \<and> length e \<le> 3 \<and> (\<forall>c \<in> set e. \<not> stop c)"

lemma parse_83:
  assumes "holds arg (b @ 0x2E # e @ r)" and "name83 stop b e" and "r = [] \<or> stop (hd r)"
  shows "\<exists>name ext. parse_file stop arg = Some (name, ext, length b + 1 + length e) \<and> holds name b \<and> holds ext e"
proof -
  let ?s = "b @ 0x2E # e @ r"
  have tb: "takeWhile (\<lambda>c. c \<noteq> 0x2E) (take 8 ?s) = b"
  proof (cases "length b = 8")
    case True
    then show ?thesis using assms(2) by (auto simp: name83_def takeWhile_eq_all_conv)
  next
    case False
    then have "take 8 ?s = b @ 0x2E # take (7 - length b) (e @ r)" using assms(2) by (simp add: name83_def take_Cons' )
    moreover have "takeWhile (\<lambda>c. c \<noteq> 0x2E) (b @ 0x2E # t) = b" for t
      using assms(2) by (subst takeWhile_append2) (auto simp: name83_def)
    ultimately show ?thesis by simp
  qed
  then have bl: "base_len ?s = length b" by (simp add: base_len_def)
  then have es: "ext_start ?s = length b + 1" by (simp add: ext_start_def nth_append)
  have "takeWhile (\<lambda>c. \<not> stop c) (take 3 (e @ r)) = e"
  proof (cases "length e = 3")
    case True
    then show ?thesis using assms(2) by (auto simp: name83_def takeWhile_eq_all_conv)
  next
    case False
    then have "take 3 (e @ r) = e @ take (3 - length e) r" using assms(2) by (simp add: name83_def)
    moreover have "takeWhile (\<lambda>c. \<not> stop c) (take (3 - length e) r) = []"
      using assms(3) False by (cases r; cases "3 - length e") auto
    ultimately show ?thesis using assms(2) by (simp add: name83_def takeWhile_append2)
  qed
  then have el: "ext_len stop ?s = length e" by (simp add: ext_len_def es)
  show ?thesis using parse_file_eq [OF assms(1), of stop] unfolding bl es el by simp
qed

lemma pad_field_holds:
  assumes "holds s cs" and "length cs \<le> n"
  shows "pad_field n s = Some (map to_upper cs @ replicate (n - length cs) 0x20)"
  using assms
proof (induction n arbitrary: s cs)
  case (Suc n)
  obtain rest where s: "s = cs @ 0 # rest" "0 \<notin> set cs" using Suc.prems(1) by (auto simp: holds_def)
  show ?case
  proof (cases cs)
    case (Cons c cs')
    then have "holds (cs' @ 0 # rest) cs'" "length cs' \<le> n" using s Suc.prems(2) by (auto simp: holds_def)
    then show ?thesis using Suc.IH s Cons by simp
  qed (use s in simp)
qed simp

lemma holds_drop: "holds arr (xs @ ys) \<Longrightarrow> n = length xs \<Longrightarrow> holds (drop n arr) ys"
  by (auto simp: holds_def)

lemma holds_get: "holds arr (xs @ c # ys) \<Longrightarrow> n = length xs \<Longrightarrow> arr_get arr n = Some c"
  by (auto simp: holds_def arr_get_def nth_append)

text \<open>Reading and reprinting leaves the drive and the file system variables as they are.\<close>

lemma emit_system [simp]: "fs (emit color cs s) = fs s" "disk (emit color cs s) = disk s"
  using system_same [OF emit_more] by blast+

lemma run_touch:
  assumes "holds cmd (lit ''touch '' @ b @ 0x2E # e)" and "name83 (\<lambda>_. False) b e"
  shows "\<exists>name ext. holds name b \<and> holds ext e \<and> (\<forall>d1. fat32_create_file D (fs s) name ext (disk s) = Some (0, d1) \<longrightarrow>
    shell_handle D J cmd s = Some (emit 0x03 (lit ''PrajnaOS>'') (emit 0x0A (lit ''File created'' @ [10]) (s\<lparr>disk := d1\<rparr>))))"
proof -
  have split: "lit ''touch '' @ b @ 0x2E # e = lit ''touch'' @ 0x20 # b @ 0x2E # e" by (simp add: lit_def)
  have "command_of (lit ''touch '' @ b @ 0x2E # e) = Touch"
    by (rule command_of_runs [of "''touch''"]) (simp_all add: command_words_def runs_split split)
  moreover obtain name ext j where p: "parse_file (\<lambda>_. False) (drop 6 cmd) = Some (name, ext, j)" "holds name b" "holds ext e"
    using parse_83 [OF _ assms(2), of "drop 6 cmd" "[]"] holds_drop [OF assms(1), of 6] by auto
  moreover have "arr_get cmd 5 = Some 0x20" using holds_get [OF assms(1) [unfolded split], of 5] by simp
  ultimately show ?thesis
    by (intro exI [of _ name] exI [of _ ext]) (simp add: shell_handle_run [OF assms(1)] run_command_def cmd_touch_def prompt_def say_emit)
qed

lemma run_cat:
  fixes s :: "('d, 'b) system_scheme"
  assumes "holds cmd (lit ''cat '' @ b @ 0x2E # e)" and "name83 (\<lambda>_. False) b e"
  shows "\<exists>name ext. holds name b \<and> holds ext e \<and> (\<forall>entry ds off d1 r buf d2.
    fat32_find_file D (fs s) name ext (disk s) = Some (Some (entry, ds, off), d1) \<longrightarrow>
    fat32_read_file D (fs s) entry (junk_buf J) 512 d1 = Some (r, buf, d2) \<longrightarrow> shown_bytes (file_size entry) \<le> length buf \<longrightarrow>
    shell_handle D J cmd s = Some (emit 0x03 (lit ''PrajnaOS>'')
    (emit 0x0F (take (shown_bytes (file_size entry)) buf @ [10]) (s\<lparr>disk := d2\<rparr>))))"
proof -
  have split: "lit ''cat '' @ b @ 0x2E # e = lit ''cat'' @ 0x20 # b @ 0x2E # e" by (simp add: lit_def)
  have "command_of (lit ''cat '' @ b @ 0x2E # e) = Cat"
    by (rule command_of_runs [of "''cat''"]) (simp_all add: command_words_def runs_split split)
  moreover obtain name ext j where p: "parse_file (\<lambda>_. False) (drop 4 cmd) = Some (name, ext, j)" "holds name b" "holds ext e"
    using parse_83 [OF _ assms(2), of "drop 4 cmd" "[]"] holds_drop [OF assms(1), of 4] by auto
  moreover have "arr_get cmd 3 = Some 0x20" using holds_get [OF assms(1) [unfolded split], of 3] by simp
  moreover have "for_each (\<lambda>k s. do { c \<leftarrow> arr_get buf k; Some (put_char c 0x0F s) }) [0..<n] t = Some (fold (\<lambda>c. put_char c 0x0F) (take n buf) t)"
    if "n \<le> length buf" for n buf and t :: "('d, 'b) system_scheme"
    by (rule for_each_nth) (use that in auto)
  ultimately show ?thesis
    by (intro exI [of _ name] exI [of _ ext])
      (auto simp: shell_handle_run [OF assms(1)] run_command_def cmd_cat_def prompt_def say_emit emit_def)
qed

lemma run_write:
  assumes "holds cmd (lit ''write '' @ b @ 0x2E # e @ 0x20 # msg)" and "name83 (\<lambda>c. c = 0x20) b e"
  shows "\<exists>name ext content. holds name b \<and> holds ext e \<and> holds content msg \<and> (\<forall>entry ds off d1 entry' d2.
    fat32_find_file D (fs s) name ext (disk s) = Some (Some (entry, ds, off), d1) \<longrightarrow>
    fat32_write_file D (fs s) entry ds off content (of_nat (length msg)) d1 = Some (0, entry', d2) \<longrightarrow>
    shell_handle D J cmd s = Some (emit 0x03 (lit ''PrajnaOS>'') (emit 0x0A (lit ''Written'' @ [10]) (s\<lparr>disk := d2\<rparr>))))"
proof -
  let ?a = "b @ 0x2E # e @ 0x20 # msg"
  have split: "lit ''write '' @ ?a = lit ''write'' @ 0x20 # ?a" by (simp add: lit_def)
  have "command_of (lit ''write '' @ ?a) = Write"
    by (rule command_of_runs [of "''write''"]) (simp_all add: command_words_def runs_split split)
  moreover have a: "holds (drop 6 cmd) ?a" using holds_drop [OF assms(1), of 6] by simp
  moreover obtain name ext where p: "parse_file (\<lambda>c. c = 0x20) (drop 6 cmd) = Some (name, ext, length b + 1 + length e)" "holds name b" "holds ext e"
    using parse_83 [OF a assms(2)] by auto
  moreover have "arr_get cmd 5 = Some 0x20" using holds_get [OF assms(1) [unfolded split], of 5] by simp
  moreover have "arr_get (drop 6 cmd) (length b + 1 + length e) = Some 0x20"
    using holds_get [of "drop 6 cmd" "b @ 0x2E # e" "0x20" msg] a by simp
  moreover have c: "holds (drop (length b + 1 + length e + 1) (drop 6 cmd)) msg"
    using holds_drop [of "drop 6 cmd" "b @ 0x2E # e @ [0x20]" msg] a by simp
  moreover have "kstrlen (drop (length b + 1 + length e + 1) (drop 6 cmd)) = Some (length msg)" using kstrlen_holds [OF c] .
  ultimately show ?thesis
    by (intro exI [of _ name] exI [of _ ext] exI [of _ "drop (length b + 1 + length e + 1) (drop 6 cmd)"])
      (auto simp: shell_handle_run [OF assms(1)] run_command_def cmd_write_def prompt_def say_emit Let_def simp del: drop_drop)
qed

text \<open>One file command each, on a healthy volume.\<close>

abbreviation named :: "u8 list \<Rightarrow> nat \<Rightarrow> u8 list" where
  "named b n \<equiv> map to_upper b @ replicate (n - length b) 0x20"

abbreviation prompted :: "u8 \<Rightarrow> u8 list \<Rightarrow> 'a console_scheme \<Rightarrow> 'a console_scheme" where
  "prompted color cs s \<equiv> emit 0x03 (lit ''PrajnaOS>'') (emit color (cs @ [10]) s)"

lemma touch_new_file:
  fixes s :: "('d, 'b) system_scheme" and f :: fat
  defines "f \<equiv> fs s"
  assumes "block_device D sectors good" and "good (disk s)" and "dir_ok f" and "name83 (\<lambda>_. False) b e"
    and "find (slot_free (sectors (disk s) (dir_lba f))) [0..<16] = Some i"
    and "first_free f (sectors (disk s)) 2 c" and "c \<noteq> 0" and "fat_sector f c \<noteq> dir_lba f"
    and "holds cmd (lit ''touch '' @ b @ 0x2E # e)"
  shows "\<exists>d'. shell_handle D J cmd s = Some (prompted 0x0A (lit ''File created'') (s\<lparr>disk := d'\<rparr>)) \<and> good d' \<and>
     sectors d' (dir_lba f) = take (i * 32) (sectors (disk s) (dir_lba f)) @ new_entry (named b 8) (named e 3) c @
       drop (i * 32 + 32) (sectors (disk s) (dir_lba f))"
proof -
  have le: "length b \<le> 8" "length e \<le> 3" using assms(5) by (simp_all add: name83_def)
  obtain n x where r: "holds n b" "holds x e" "\<And>d'. fat32_create_file D f n x (disk s) = Some (0, d') \<Longrightarrow>
      shell_handle D J cmd s = Some (prompted 0x0A (lit ''File created'') (s\<lparr>disk := d'\<rparr>))"
    using run_touch [OF assms(10,5), of D s J] f_def by blast
  from block_device.create_file_effect [OF assms(2,3,4) pad_field_holds [OF r(1) le(1)] pad_field_holds [OF r(2) le(2)] assms(6-9)]
  show ?thesis using r(3) by metis
qed

lemma write_found_file:
  fixes s :: "('d, 'b) system_scheme" and f :: fat
  defines "f \<equiv> fs s"
  assumes "block_device D sectors good" and "good (disk s)" and "dir_ok f" and "name83 (\<lambda>c. c = 0x20) b e"
    and "\<And>n x. holds n b \<Longrightarrow> holds x e \<Longrightarrow> find_in_sector n x (sectors (disk s) (dir_lba f)) = Some (Inl (Some i))" and "i < 16"
    and "entry_cluster (dir_entry (sectors (disk s) (dir_lba f)) i) = c" and "c \<noteq> 0" and "c < END_OF_CHAIN"
    and "cluster_to_lba f c < 2 ^ 28" and "msg \<noteq> []" and "length msg < 2 ^ 32"
    and "holds cmd (lit ''write '' @ b @ 0x2E # e @ 0x20 # msg)"
  shows "\<exists>d'. shell_handle D J cmd s = Some (prompted 0x0A (lit ''Written'') (s\<lparr>disk := d'\<rparr>)) \<and> good d' \<and>
     sectors d' = (sectors (disk s))(cluster_to_lba f c := first_block msg (of_nat (length msg)))"
proof -
  obtain n x m where r: "holds n b" "holds x e" "holds m msg"
    "\<And>en ds off d1 en' d'. fat32_find_file D f n x (disk s) = Some (Some (en, ds, off), d1) \<Longrightarrow>
      fat32_write_file D f en ds off m (of_nat (length msg)) d1 = Some (0, en', d') \<Longrightarrow>
      shell_handle D J cmd s = Some (prompted 0x0A (lit ''Written'') (s\<lparr>disk := d'\<rparr>))"
    using run_write [OF assms(14,5), of D s J] f_def by auto
  obtain d1 where d1: "good d1" "sectors d1 = sectors (disk s)"
    "fat32_find_file D f n x (disk s) = Some (Some (dir_entry (sectors (disk s) (dir_lba f)) i, dir_lba f, of_nat (i * 32)), d1)"
    using block_device.find_file_first_sector [OF assms(2,3,4), of n x] assms(6) [OF r(1,2)] assms(7) by metis
  have sz: "unat (of_nat (length msg) :: u32) = length msg" using assms(13) by (intro unat_of_nat_small) simp
  have sz0: "(0 :: u32) < of_nat (length msg)" using assms(12) sz by (simp add: word_less_nat_alt)
  have wl: "min (unat (of_nat (length msg) :: u32)) 512 \<le> length m" using r(3) sz by (auto simp: holds_def)
  have small: "fat_start_lba f < 2 ^ 27" using assms(4) by (simp add: dir_ok_def)
  have same: "first_block m (of_nat (length msg)) = first_block msg (of_nat (length msg))"
    using r(3) sz by (auto simp: first_block_def holds_def)
  show ?thesis
    using block_device.write_file_effect [OF assms(2) d1(1) small, of "dir_entry (sectors (disk s) (dir_lba f)) i" "of_nat (length msg)" m
        "dir_lba f" "of_nat (i * 32)"] assms(8-11) sz0 wl d1(2,3) same r(4) by metis
qed

lemma cat_found_file:
  fixes s :: "('d, 'b) system_scheme" and f :: fat
  defines "f \<equiv> fs s"
  assumes "block_device D sectors good" and "good (disk s)" and "dir_ok f" and "name83 (\<lambda>_. False) b e"
    and "\<And>n x. holds n b \<Longrightarrow> holds x e \<Longrightarrow> find_in_sector n x (sectors (disk s) (dir_lba f)) = Some (Inl (Some i))" and "i < 16"
    and "entry_cluster (dir_entry (sectors (disk s) (dir_lba f)) i) = c" and "c < END_OF_CHAIN" and "cluster_to_lba f c < 2 ^ 28"
    and "length (junk_buf J) = 512" and "holds cmd (lit ''cat '' @ b @ 0x2E # e)"
    and "shown_bytes (file_size (dir_entry (sectors (disk s) (dir_lba f)) i)) = n" and "n \<le> 512"
  shows "\<exists>d'. shell_handle D J cmd s = Some (prompted 0x0F (take n (sectors (disk s) (cluster_to_lba f c))) (s\<lparr>disk := d'\<rparr>)) \<and>
     sectors d' = sectors (disk s)"
proof -
  obtain n1 x1 where r: "holds n1 b" "holds x1 e" "\<And>en ds off d1 v buf d'.
      fat32_find_file D f n1 x1 (disk s) = Some (Some (en, ds, off), d1) \<Longrightarrow>
      fat32_read_file D f en (junk_buf J) 512 d1 = Some (v, buf, d') \<Longrightarrow> shown_bytes (file_size en) \<le> length buf \<Longrightarrow>
      shell_handle D J cmd s = Some (prompted 0x0F (take (shown_bytes (file_size en)) buf) (s\<lparr>disk := d'\<rparr>))"
    using run_cat [OF assms(12,5), of D s J] f_def by auto
  let ?en = "dir_entry (sectors (disk s) (dir_lba f)) i"
  obtain d1 where d1: "good d1" "sectors d1 = sectors (disk s)"
    "fat32_find_file D f n1 x1 (disk s) = Some (Some (?en, dir_lba f, of_nat (i * 32)), d1)"
    using block_device.find_file_first_sector [OF assms(2,3,4), of n1 x1] assms(6) [OF r(1,2)] assms(7) by metis
  have spc: "sectors_per_cluster f \<noteq> 0" using assms(4) by (simp add: dir_ok_def)
  obtain d' where d': "fat32_read_file D f ?en (junk_buf J) 512 d1 = Some (0, sectors (disk s) (cluster_to_lba f c), d')"
    "sectors d' = sectors (disk s)"
    using block_device.read_first_sector [OF assms(2) d1(1), of ?en f 512 "junk_buf J"] assms(8-11) spc d1(2) by (metis order_refl)
  have "length (sectors (disk s) (cluster_to_lba f c)) = 512" using block_device.sector_length [OF assms(2,3)] .
  then show ?thesis using r(3) [OF d1(3) d'(1)] d'(2) assms(13,14) by auto
qed

section \<open>Properties of the file commands\<close>

text \<open>
  C39: Any argument is split safely: parsing never leaves the two local arrays or the line and gives
  two NUL-terminated strings, the first up to 8 characters before a point and up to 3 characters
  after it.  For an 8.3 name these are its base and its extension, and the directory fields made
  from them are both parts in upper case, padded with spaces.
\<close>

theorem file_name_split:
  assumes "holds arg s"
  shows "\<exists>name ext j. parse_file stop arg = Some (name, ext, j) \<and> j \<le> length s \<and>
     holds name (takeWhile (\<lambda>c. c \<noteq> 0x2E) (take 8 s)) \<and> holds ext (take (ext_len stop s) (drop (ext_start s) s)) \<and> ext_len stop s \<le> 3 \<and>
     (\<forall>b e. s = b @ 0x2E # e \<and> name83 stop b e \<longrightarrow> j = length s \<and>
        pad_field 8 name = Some (map to_upper b @ replicate (8 - length b) 0x20) \<and>
        pad_field 3 ext = Some (map to_upper e @ replicate (3 - length e) 0x20))"
proof -
  obtain name ext where p: "parse_file stop arg = Some (name, ext, ext_start s + ext_len stop s)"
    "holds name (take (base_len s) s)" "holds ext (take (ext_len stop s) (drop (ext_start s) s))"
    using parse_file_eq [OF assms] by blast
  have n: "take (base_len s) s = takeWhile (\<lambda>c. c \<noteq> 0x2E) (take 8 s)"
  proof -
    have "length (takeWhile (\<lambda>c. c \<noteq> 0x2E) (take 8 s)) \<le> 8" using length_takeWhile_le [of "\<lambda>c. c \<noteq> 0x2E" "take 8 s"] by simp
    then show ?thesis using takeWhile_eq_take [of "\<lambda>c. c \<noteq> 0x2E" "take 8 s"] by (simp add: base_len_def min_def)
  qed
  have e3: "ext_len stop s \<le> 3" using length_takeWhile_le [of "\<lambda>c. \<not> stop c" "take 3 (drop (ext_start s) s)"] by (simp add: ext_len_def)
  have bl: "base_len s \<le> length s" using length_takeWhile_le [of "\<lambda>c. c \<noteq> 0x2E" "take 8 s"] by (simp add: base_len_def)
  have j: "ext_start s + ext_len stop s \<le> length s"
    using length_takeWhile_le [of "\<lambda>c. \<not> stop c" "take 3 (drop (ext_start s) s)"] bl by (auto simp: ext_len_def ext_start_def)
  have 83: "ext_start s + ext_len stop s = length s \<and> pad_field 8 name = Some (map to_upper b @ replicate (8 - length b) 0x20) \<and>
        pad_field 3 ext = Some (map to_upper e @ replicate (3 - length e) 0x20)" if s: "s = b @ 0x2E # e \<and> name83 stop b e" for b e
  proof -
    obtain name' ext' where q: "parse_file stop arg = Some (name', ext', length b + 1 + length e)" "holds name' b" "holds ext' e"
      using parse_83 [of arg b e "[]" stop] s assms by auto
    then show ?thesis using p(1) pad_field_holds s by (simp add: name83_def)
  qed
  show ?thesis using p j e3 83 unfolding n by blast
qed

lemma file_name_split_witness:
  "\<exists>name ext. parse_file (\<lambda>c. c = 0x20) (cstr ''note.md'') = Some (name, ext, 7) \<and>
     pad_field 8 name = Some (lit ''NOTE    '') \<and> pad_field 3 ext = Some (lit ''MD '')"
proof -
  have h: "holds (cstr ''note.md'') (lit ''note.md'')" by (rule holds_cstr) simp
  have "lit ''note.md'' = lit ''note'' @ 0x2E # lit ''md'' \<and> name83 (\<lambda>c. c = 0x20) (lit ''note'') (lit ''md'')"
    by (simp add: lit_def name83_def)
  moreover have "map to_upper (lit ''note'') @ replicate (8 - length (lit ''note'')) 0x20 = lit ''NOTE    ''"
    "map to_upper (lit ''md'') @ replicate (3 - length (lit ''md'')) 0x20 = lit ''MD ''" by code_simp+
  moreover have "length (lit ''note.md'') = 7" by (simp add: lit_def)
  ultimately show ?thesis using file_name_split [OF h, of "\<lambda>c. c = 0x20"] by metis
qed

text \<open>
  C22: A session on a healthy volume: \<open>touch\<close> a new 8.3 name, \<open>write\<close> text to it, \<open>cat\<close> it.  All three
  commands succeed and say so, the first 512 bytes of the text, padded with zeros, are in the first
  sector of the file's new cluster - and \<open>cat\<close> still prints an empty line, because the size in the
  directory entry stays 0.
\<close>

theorem shell_file_session:
  fixes s :: "('d, 'b) system_scheme" and f :: fat
  defines "f \<equiv> fs s"
  assumes "block_device D sectors good" and "good (disk s)" and "dir_ok f" and "length (junk_buf J) = 512"
    and "find (slot_free (sectors (disk s) (dir_lba f))) [0..<16] = Some i"
    and "first_free f (sectors (disk s)) 2 c" and "c \<noteq> 0" and "fat_sector f c \<noteq> dir_lba f"
    and "cluster_to_lba f c < 2 ^ 28" and "cluster_to_lba f c \<noteq> dir_lba f"
    and "name83 (\<lambda>c. c = 0x20) b e" and "to_upper (hd (b @ [0x20])) \<noteq> 0xE5"
    and "\<And>j. j < i \<Longrightarrow> \<not> slot_named (map to_upper b @ replicate (8 - length b) 0x20)
        (map to_upper e @ replicate (3 - length e) 0x20) (sectors (disk s) (dir_lba f)) j"
    and "holds c1 (lit ''touch '' @ b @ 0x2E # e)" and "holds c2 (lit ''write '' @ b @ 0x2E # e @ 0x20 # msg)"
    and "holds c3 (lit ''cat '' @ b @ 0x2E # e)" and "msg \<noteq> []" and "length msg < 2 ^ 32"
  shows "\<exists>d1 d2 d3 s1 s2 s3. shell_handle D J c1 s = Some s1 \<and> shell_handle D J c2 s1 = Some s2 \<and> shell_handle D J c3 s2 = Some s3 \<and>
     s1 = emit 0x03 (lit ''PrajnaOS>'') (emit 0x0A (lit ''File created'' @ [10]) (s\<lparr>disk := d1\<rparr>)) \<and>
     s2 = emit 0x03 (lit ''PrajnaOS>'') (emit 0x0A (lit ''Written'' @ [10]) (s1\<lparr>disk := d2\<rparr>)) \<and>
     s3 = emit 0x03 (lit ''PrajnaOS>'') (emit 0x0F [10] (s2\<lparr>disk := d3\<rparr>)) \<and>
     sectors d3 (cluster_to_lba f c) = first_block msg (of_nat (length msg))"
proof -
  let ?dir = "sectors (disk s) (dir_lba f)"
  let ?dir' = "take (i * 32) ?dir @ new_entry (named b 8) (named e 3) c @ drop (i * 32 + 32) ?dir"
  have n83: "name83 (\<lambda>_. False) b e" and le: "length b \<le> 8" "length e \<le> 3" using assms(12) by (simp_all add: name83_def)
  have i: "i < 16" using assms(6) by (simp add: find_upt_Some)
  have len: "length ?dir = 512" using block_device.sector_length [OF assms(2,3)] .
  have hd: "hd (named b 8) \<noteq> 0xE5" using assms(13) by (cases b) auto
  have cl: "c < END_OF_CHAIN" using assms(7,8) by (auto simp: first_free_def)
  have pl: "length (named b 8) = 8" "length (named e 3) = 3" using le by simp_all
  note ne = new_entry_fields [OF len i pl, of c]
  have found: "find_in_sector n x ?dir' = Some (Inl (Some i))" if "holds n b" "holds x e" for n x
    using find_new_entry [OF len pad_field_holds [OF that(1) le(1)] pad_field_holds [OF that(2) le(2)] hd assms(6) assms(14)] .
  obtain d1 where d1: "shell_handle D J c1 s = Some (prompted 0x0A (lit ''File created'') (s\<lparr>disk := d1\<rparr>))" "good d1"
    "sectors d1 (dir_lba f) = ?dir'"
    using touch_new_file [OF assms(2,3) _ n83 _ _ assms(8) _ assms(15), of i J] assms(4,6,7,9) f_def by blast
  define s1 where "s1 = prompted 0x0A (lit ''File created'') (s\<lparr>disk := d1\<rparr>)"
  have f1: "fs s1 = f" "disk s1 = d1" by (simp_all add: s1_def f_def)
  obtain d2 where d2: "shell_handle D J c2 s1 = Some (prompted 0x0A (lit ''Written'') (s1\<lparr>disk := d2\<rparr>))" "good d2"
    "sectors d2 = (sectors d1)(cluster_to_lba f c := first_block msg (of_nat (length msg)))"
    using write_found_file [OF assms(2) _ _ assms(12) _ i _ assms(8) cl _ assms(18,19,16), of s1 J] f1 assms(4,10) d1(2,3) found ne(6) by auto
  define s2 where "s2 = prompted 0x0A (lit ''Written'') (s1\<lparr>disk := d2\<rparr>)"
  have f2: "fs s2 = f" "disk s2 = d2" "sectors d2 (dir_lba f) = ?dir'" using f1 d2(3) d1(3) assms(11) by (simp_all add: s2_def)
  obtain d3 where d3: "shell_handle D J c3 s2 = Some (prompted 0x0F [] (s2\<lparr>disk := d3\<rparr>))" "sectors d3 = sectors d2"
    using cat_found_file [OF assms(2) _ _ n83 _ i _ cl _ assms(5,17), of s2 0] f2 assms(4,10) d2(2) found ne(6,7)
    by (auto simp: shown_bytes_def)
  have "sectors d3 (cluster_to_lba f c) = first_block msg (of_nat (length msg))" using d3(2) d2(3) by simp
  then show ?thesis using d1(1) d2(1) d3(1) by (intro exI [of _ d1] exI [of _ d2] exI [of _ d3]) (simp add: s1_def s2_def)
qed

lemma shell_file_session_witness:
  "\<exists>d1 d2 d3 s1 s2 s3. shell_handle pio_drive junk
        (cstr ''touch note.md'') ((bss_system blank_pio)\<lparr>fs := blank_fat\<rparr>) = Some s1 \<and>
     shell_handle pio_drive junk
        (cstr ''write note.md hi'') s1 = Some s2 \<and>
     shell_handle pio_drive junk
        (cstr ''cat note.md'') s2 = Some s3 \<and>
     p_sectors d3 1000 = lit ''hi'' @ replicate 510 0 \<and> s3 = emit 0x03 (lit ''PrajnaOS>'') (emit 0x0F [10] (s2\<lparr>disk := d3\<rparr>))"
proof -
  let ?s = "(bss_system blank_pio)\<lparr>fs := blank_fat\<rparr>"
  have jb: "junk_buf junk = replicate 512 0xAA" by (simp add: junk_def)
  have fs: "fs ?s = blank_fat" "disk ?s = blank_pio" by (simp_all add: bss_system_fields)
  have free: "find (slot_free (replicate 512 0)) [0..<16] = Some 0" by (simp add: find_upt_Some slot_free_def)
  have h: "holds (cstr ''touch note.md'') (lit ''touch '' @ lit ''note'' @ 0x2E # lit ''md'')"
    "holds (cstr ''write note.md hi'') (lit ''write '' @ lit ''note'' @ 0x2E # lit ''md'' @ 0x20 # lit ''hi'')"
    "holds (cstr ''cat note.md'') (lit ''cat '' @ lit ''note'' @ 0x2E # lit ''md'')"
    by (simp_all add: holds_def cstr_def lit_def)
  have n: "name83 (\<lambda>c. c = 0x20) (lit ''note'') (lit ''md'')" "to_upper (hd (lit ''note'' @ [0x20])) \<noteq> 0xE5"
    by (simp_all add: name83_def lit_def to_upper_def)
  have lba: "cluster_to_lba blank_fat 2 = 1000" by (simp add: cluster_to_lba_def blank_fat_def)
  have fb: "first_block (lit ''hi'') (of_nat (length (lit ''hi''))) = lit ''hi'' @ replicate 510 0" by (simp add: first_block_def lit_def)
  have num: "length (replicate 512 (0xAA :: u8)) = 512" "(2 :: u32) \<noteq> 0" "(1000 :: u32) < 2 ^ 28" "(1000 :: u32) \<noteq> 1001" "(32 :: u32) \<noteq> 1001"
    "lit ''hi'' \<noteq> []" "length (lit ''hi'') < 2 ^ 32" by (simp_all add: lit_def)
  show ?thesis
    using shell_file_session [OF pio.block_device_axioms, of ?s junk 0 2 "lit ''note''" "lit ''md''" "cstr ''touch note.md''" "cstr ''write note.md hi''"
      "lit ''hi''" "cstr ''cat note.md''", OF _ _ _ _ _ _ _ _ _ n _ h]
    by (simp only: fs blank_volume free lba fb num jb not_less0 simp_thms) blast
qed

text \<open>
  What \<open>classify\<close> says of its built-in flower.  Without the file IRIS.BIN in the directory it
  prints "Virginica"; with it, the species is the leaf its four thresholds select, except that a
  Versicolor leaf is announced as hardcoded and replaced by the answer of the compiled-in tree,
  Setosa - so "Versicolor" is never printed.
\<close>

theorem classify_report:
  fixes s :: "('d, 'b) system_scheme"
  assumes "holds cmd (lit ''classify'')" and "fat32_find_file D (fs s) (cstr ''IRIS'') (cstr ''BIN'') (disk s) = Some (r, d1)"
  shows "(r = None \<longrightarrow> shell_handle D J cmd s =
       Some (emit 0x03 (lit ''PrajnaOS>'') (emit 0x0A (lit ''Virginica'' @ [10]) (s\<lparr>disk := d1\<rparr>)))) \<and>
     (\<forall>e ds off m buf d2 t1 t2 t3 t4. r = Some (e, ds, off) \<and> fat32_read_file D (fs s) e (junk_buf J) 512 d1 = Some (m, buf, d2) \<and>
        get32 buf 0 = Some t1 \<and> get32 buf 4 = Some t2 \<and> get32 buf 8 = Some t3 \<and> get32 buf 12 = Some t4 \<longrightarrow>
        shell_handle D J cmd s = Some (emit 0x03 (lit ''PrajnaOS>'') (emit 0x0A
          (if flit (14 / 10) \<le> float_of_bits t1 then lit ''Setosa'' @ [10]
           else if (if flit (14 / 10) \<le> float_of_bits t2 then flit (2 / 10) \<le> float_of_bits t3 else flit (2 / 10) \<le> float_of_bits t4)
           then lit ''hardcoded: '' @ [10] @ lit ''Setosa'' @ [10]
           else lit ''Virginica'' @ [10]) (s\<lparr>disk := d2\<rparr>))))"
proof -
  have "command_of (lit ''classify'') = Classify"
    by (rule command_of_runs [of "''classify''"]) (simp_all add: command_words_def runs_split)
  then have run: "shell_handle D J cmd s = prompt (cmd_classify D J s)"
    by (simp add: shell_handle_run [OF assms(1)] run_command_def)
  have hard: "flit (14 / 10) \<le> flit (245 / 100)" by code_simp
  show ?thesis
    using assms(2) hard unfolding run
    by (auto simp: cmd_classify_def classify_iris_from_disk_def classify_iris_def prompt_def say_emit Let_def simp flip: emit_append)
qed

lemma classify_report_witness:
  "\<exists>d1. shell_handle pio_drive junk (cstr ''classify'') ((bss_system blank_pio)\<lparr>fs := blank_fat\<rparr>) =
     Some (emit 0x03 (lit ''PrajnaOS>'') (emit 0x0A (lit ''Virginica'' @ [10]) ((bss_system blank_pio)\<lparr>fs := blank_fat, disk := d1\<rparr>)))"
proof -
  have h: "holds (cstr ''classify'') (lit ''classify'')" by (rule holds_cstr) simp
  have "find_in_sector (cstr ''IRIS'') (cstr ''BIN'') (p_sectors blank_pio (dir_lba blank_fat)) = Some (Inl None)"
    unfolding blank_volume by code_simp
  then obtain d1 where "fat32_find_file pio_drive blank_fat (cstr ''IRIS'') (cstr ''BIN'') blank_pio = Some (None, d1)"
    using block_device.find_file_first_sector [OF pio.block_device_axioms blank_volume(1,2)] by metis
  then have "fat32_find_file pio_drive (fs ((bss_system blank_pio)\<lparr>fs := blank_fat\<rparr>)) (cstr ''IRIS'') (cstr ''BIN'')
      (disk ((bss_system blank_pio)\<lparr>fs := blank_fat\<rparr>)) = Some (None, d1)" by (simp add: bss_system_fields)
  from classify_report [OF h this, of junk] show ?thesis by (intro exI [of _ d1]) simp
qed

end
