(* ===== verification/Kernel_Main.thy ===== *)
theory Kernel_Main
  imports Descriptors Shell_Files
begin

text \<open>
  The boot sequence (\<^verbatim>\<open>kernel/kernel.c\<close>): \<open>kernel_main\<close> as a list of steps, run by a step relation
  in which the timer and the keyboard interrupt come in between as soon as interrupts are enabled.
  The state is the one of the shell, extended by the descriptor tables, the processor's table
  registers, the heap and the static variables of the file.
\<close>

section \<open>State\<close>

text \<open>The addresses the linker assigns.\<close>

record linked =
  l_kernel_end :: u32
  l_gdt :: u32
  l_idt :: u32
  l_isr_default :: u32
  l_isr_timer :: u32
  l_isr_keyboard :: u32
  l_shell_task :: u32

text \<open>\<open>wait_start\<close> is the local variable \<open>start\<close> of the call \<open>wait(5)\<close>; the last two are registers.\<close>

record 'd machine = "'d system" +
  gdt_tab :: "gdt_entry list"
  idt_tab :: "idt_entry list"
  dcpu :: Descriptors.cpu
  kheap :: heap
  init_status :: "u8 list"
  wait_start :: u32
  cr0 :: u32
  fpu_control :: u16

definition INIT_FAT32 :: nat where "INIT_FAT32 = 0"
definition INIT_HEAP :: nat where "INIT_HEAP = 1"
definition INIT_SCHEDULER :: nat where "INIT_SCHEDULER = 2"
definition INIT_ML :: nat where "INIT_ML = 3"

text \<open>
  At the entry of \<open>kernel_main\<close> all static variables have their initial value; \<open>_start\<close> has disabled
  the interrupts, and the other registers hold whatever the boot loader left there.
\<close>

record left_over =
  lo_cpu :: Descriptors.cpu
  lo_cr0 :: u32
  lo_fpu :: u16

definition bss_machine :: "'d \<Rightarrow> left_over \<Rightarrow> 'd machine" where
  "bss_machine d r = system.extend (bss_system d) (machine.fields
     (replicate 3 \<lparr>g_limit_low = 0, g_base_low = 0, g_base_mid = 0, g_access = 0, g_granularity = 0, g_base_high = 0\<rparr>)
     (replicate 256 \<lparr>i_base_low = 0, i_selector = 0, i_zero = 0, i_flags = 0, i_base_high = 0\<rparr>)
     ((lo_cpu r)\<lparr>int_enabled := False\<rparr>) \<lparr>heap_start = 0, hmem = Map.empty\<rparr> (replicate 5 0) 0 (lo_cr0 r) (lo_fpu r))"

section \<open>The boot greeting\<close>

text \<open>The static \<open>print\<close> of the file has the body \<open>kprint\<close> of the other files' one.\<close>

definition print_boot :: "string \<Rightarrow> nat \<Rightarrow> nat \<Rightarrow> u8 \<Rightarrow> 'a console_scheme \<Rightarrow> 'a console_scheme option" where
  "print_boot msg row col color s = print_at (cstr msg) row col color s"

definition state_message :: "sys_state \<Rightarrow> string \<times> u8" where
  "state_message st =
     (if st = STATE_CALM then (''[PRAJNA] State     : CALM '', 0x0A)
      else if st = STATE_NORMAL then (''[PRAJNA] State     : NORMAL '', 0x0E)
      else (''[PRAJNA] State     : ALERT  '', 0x0C))"

text \<open>\<open>boot_time_greeting\<close> up to the call of \<open>wait\<close>\<close>

definition boot_time_greeting :: "('d, 'b) machine_scheme \<Rightarrow> ('d, 'b) machine_scheme option" where
  "boot_time_greeting s = do {
     s \<leftarrow> clear_screen s;
     s \<leftarrow> print_boot ''.....PrajnaOS.....'' 0 31 0x0A s;
     st \<leftarrow> arr_get (init_status s) INIT_FAT32;
     s \<leftarrow> (if st = 1 then print_boot ''[PRAJNA] FAT32     : FAILED'' 3 0 0x0C s
           else print_boot ''[PRAJNA] FAT32     : mounted'' 3 0 0x0A s);
     st \<leftarrow> arr_get (init_status s) INIT_ML;
     s \<leftarrow> (if st = 1
           then do { s \<leftarrow> print_boot ''[PRAJNA] ML model  : FAILED'' 4 0 0x0C s; ai_kernel_offline s }
           else print_boot ''[PRAJNA] ML model  : loaded'' 4 0 0x0A s);
     st \<leftarrow> arr_get (init_status s) INIT_HEAP;
     s \<leftarrow> (if st = 1 then print_boot ''[PRAJNA] Heap      : FAILED'' 4 40 0x0C s else Some s);
     let (msg, color) = state_message (ai_get_state s);
     print_boot msg 5 0 color s }"

section \<open>The steps of \<open>kernel_main\<close>\<close>

text \<open>
  Enabling the FPU: emulation off, monitoring on, and \<open>fninit\<close>, which selects 64-bit precision and
  rounding to nearest, the arithmetic of \<open>Fpu\<close>.
\<close>

definition boot_fpu :: "('d, 'b) machine_scheme \<Rightarrow> ('d, 'b) machine_scheme" where
  "boot_fpu s = s\<lparr>cr0 := (cr0 s AND 0xFFFFFFFB) OR 0x2, fpu_control := 0x037F\<rparr>"

definition boot_cli :: "('d, 'b) machine_scheme \<Rightarrow> ('d, 'b) machine_scheme option" where
  "boot_cli s = (let s = boot_fpu s;
                     s = s\<lparr>dcpu := (dcpu s)\<lparr>int_enabled := False\<rparr>\<rparr>;
                     s = outb 0x3D4 0x0A s
                 in Some (outb 0x3D5 0x20 s))"

definition boot_gdt :: "linked \<Rightarrow> ('d, 'b) machine_scheme \<Rightarrow> ('d, 'b) machine_scheme option" where
  "boot_gdt L s = do {
     (g, c) \<leftarrow> gdt_init (l_gdt L) (gdt_tab s) (dcpu s);
     Some (s\<lparr>gdt_tab := g, dcpu := c\<rparr>) }"

definition boot_idt :: "linked \<Rightarrow> ('d, 'b) machine_scheme \<Rightarrow> ('d, 'b) machine_scheme option" where
  "boot_idt L s = do {
     (i, ports, c) \<leftarrow> idt_init (l_idt L) (l_isr_default L) (l_isr_timer L) (l_isr_keyboard L) (idt_tab s) (dcpu s);
     Some (s\<lparr>idt_tab := i, outs := outs s @ ports, dcpu := c\<rparr>) }"

text \<open>The result of \<open>ata_init\<close> is not looked at.\<close>

definition boot_ata :: "('d, 'x) ata_device_scheme \<Rightarrow> ('d, 'b) machine_scheme \<Rightarrow> ('d, 'b) machine_scheme option" where
  "boot_ata D s =
     (let (r, enabled, d) = ata_init D (int_enabled (dcpu s), disk s)
      in Some (s\<lparr>disk := d, dcpu := (dcpu s)\<lparr>int_enabled := enabled\<rparr>\<rparr>))"

definition boot_pmm :: "linked \<Rightarrow> ('d, 'b) machine_scheme \<Rightarrow> ('d, 'b) machine_scheme option" where
  "boot_pmm L s = do { bm \<leftarrow> pmm_init (l_kernel_end L) (pages s); Some (s\<lparr>pages := bm\<rparr>) }"

definition set_status :: "nat \<Rightarrow> u8 \<Rightarrow> ('d, 'b) machine_scheme \<Rightarrow> ('d, 'b) machine_scheme option" where
  "set_status i r s =
     (if r \<noteq> 0 then do { v \<leftarrow> arr_set (init_status s) i 1; Some (s\<lparr>init_status := v\<rparr>) } else Some s)"

definition boot_fat :: "('d, 'x) ata_device_scheme \<Rightarrow> ('d, 'b) machine_scheme \<Rightarrow> ('d, 'b) machine_scheme option" where
  "boot_fat D s = do {
     (r, f, d) \<leftarrow> fat32_init D 2048 (fs s) (disk s);
     set_status INIT_FAT32 r (s\<lparr>fs := f, disk := d\<rparr>) }"

definition boot_heap :: "('d, 'b) machine_scheme \<Rightarrow> ('d, 'b) machine_scheme option" where
  "boot_heap s = do {
     (r, h, bm) \<leftarrow> heap_init (kheap s) (pages s);
     set_status INIT_HEAP r (s\<lparr>kheap := h, pages := bm\<rparr>) }"

definition boot_weights ::
    "('d, 'x) ata_device_scheme \<Rightarrow> u8 list \<Rightarrow> ('d, 'b) machine_scheme \<Rightarrow> ('d, 'b) machine_scheme option" where
  "boot_weights D buf s = do {
     (r, w, d) \<leftarrow> ml_weights_load D buf (fs s) (weights s) (disk s);
     set_status INIT_ML r (s\<lparr>weights := w, disk := d\<rparr>) }"

definition boot_wait_start :: "('d, 'b) machine_scheme \<Rightarrow> ('d, 'b) machine_scheme option" where
  "boot_wait_start s = Some (s\<lparr>wait_start := pit_get_ticks s\<rparr>)"

text \<open>A step of the sequence runs once; the loop of \<open>wait(t)\<close> polls the clock, which only interrupts advance.\<close>

datatype 'm boot_op = Once "'m \<Rightarrow> 'm option" | Wait_for u32

definition boot_seq ::
    "('d, 'x) ata_device_scheme \<Rightarrow> u8 list \<Rightarrow> linked \<Rightarrow> ('d, 'b) machine_scheme boot_op list" where
  "boot_seq D buf L =
     [Once boot_cli,
      Once (boot_gdt L),
      Once (boot_idt L),
      Once (pit_init 100),
      Once (boot_ata D),
      Once (boot_pmm L),
      Once (boot_fat D),
      Once boot_heap,
      Once scheduler_init,
      Once (boot_weights D buf),
      Once (task_create (l_shell_task L) 5),
      Once boot_time_greeting,
      Once boot_wait_start,
      Wait_for 5,
      Once clear_screen,
      Once draw_top_bar]"

text \<open>The end of \<open>kernel_main\<close>: \<open>sti\<close>, then the first task.  \<open>hlt\<close> in its loop waits for an interrupt.\<close>

definition boot_finish ::
    "Scheduler.cpu \<Rightarrow> ('d, 'b) machine_scheme \<Rightarrow> (Scheduler.cpu \<times> ('d, 'b) machine_scheme) option" where
  "boot_finish c s = scheduler_start (c\<lparr>if_flag := True\<rparr>) (s\<lparr>dcpu := (dcpu s)\<lparr>int_enabled := True\<rparr>\<rparr>)"

text \<open>
  Interrupts come between two steps (not inside one).  A timer interrupt that left for another
  task would end the boot sequence; the relation has no such step, and it is shown below that this cannot
  happen.
\<close>

inductive boot ::
    "('d, 'x) ata_device_scheme \<Rightarrow> stack_junk \<Rightarrow> u8 list \<Rightarrow> linked \<Rightarrow>
     nat \<times> ('d, 'b) machine_scheme \<Rightarrow> nat \<times> ('d, 'b) machine_scheme \<Rightarrow> bool"
  for D J buf L where
  once: "k < length (boot_seq D buf L :: ('d, 'b) machine_scheme boot_op list) \<Longrightarrow> boot_seq D buf L ! k = Once f \<Longrightarrow>
    f s = Some s' \<Longrightarrow> boot D J buf L (k, s) (Suc k, s')"
| waited: "k < length (boot_seq D buf L :: ('d, 'b) machine_scheme boot_op list) \<Longrightarrow>
    (boot_seq D buf L :: ('d, 'b) machine_scheme boot_op list) ! k = Wait_for t \<Longrightarrow>
    \<not> pit_get_ticks s - wait_start s < t * 100 \<Longrightarrow> boot D J buf L (k, s) (Suc k, s)"
| timer: "int_enabled (dcpu s) \<Longrightarrow> pit_handler (shell_handle D J) c s = Some (False, c', s') \<Longrightarrow>
    boot D J buf L (k, s) (k, s')"
| key: "int_enabled (dcpu s) \<Longrightarrow> keyboard_handler sc s = Some s' \<Longrightarrow> boot D J buf L (k, s) (k, s')"


section \<open>Interrupts during the boot\<close>

text \<open>
  While the kernel boots at most the slot of task 0, the current one, is taken, so no switch can
  become due.
\<close>

definition parked :: "'a kernel_scheme \<Rightarrow> bool" where
  "parked s \<longleftrightarrow> kernel_ok s \<and> net_ok (weights s) \<and> switch_pending (sch s) = 0 \<and> current_task (sch s) = 0 \<and>
     (\<forall>i<8. 0 < i \<longrightarrow> state (tasks s ! i) = TASK_DEAD)"

text \<open>What an interrupt, or a step of the sequence that does not touch the tasks, leaves alone.\<close>

definition quiet :: "'a kernel_scheme \<Rightarrow> 'a kernel_scheme \<Rightarrow> bool" where
  "quiet s s' \<longleftrightarrow> kernel_ok s' \<and> same_stacks s s' \<and> sch s' = sch s \<and> weights s' = weights s"

definition interrupted :: "('d, 'b) system_scheme \<Rightarrow> ('d, 'b) system_scheme \<Rightarrow> bool" where
  "interrupted s s' \<longleftrightarrow> quiet s s' \<and> system.more s' = system.more s"

lemma interrupted_trans: "interrupted s t \<Longrightarrow> interrupted t u \<Longrightarrow> interrupted s u"
  by (auto simp: interrupted_def quiet_def intro: same_stacks_trans)

lemma quiet_parked: "parked s \<Longrightarrow> quiet s s' \<Longrightarrow> parked s'"
  by (simp add: parked_def quiet_def same_stacks_def)

lemma quiet_boot_ok:
  assumes "boot_ok s g" and "quiet s s'"
  shows "boot_ok s' g"
proof -
  have st: "stackmem s' = stackmem s" "pages s' = pages s" "sch s' = sch s" "weights s' = weights s" "kernel_ok s'"
    "\<And>i. i < 8 \<Longrightarrow> state (tasks s' ! i) = state (tasks s ! i) \<and> esp (tasks s' ! i) = esp (tasks s ! i) \<and> stack (tasks s' ! i) = stack (tasks s ! i)"
    using assms(2) by (simp_all add: quiet_def same_stacks_def)
  have lv: "live s' i \<longleftrightarrow> live s i" for i using st(6) by (auto simp: live_def)
  have "stacks_ok s'" using assms(1) st(2,6) unfolding boot_ok_def stacks_ok_def lv by (simp add: live_def)
  then show ?thesis using assms(1) st by (simp add: boot_ok_def suspended_def)
qed

lemma quiet_same: "kernel_ok s \<Longrightarrow> quiet s (s\<lparr>vga := v\<rparr>)" "kernel_ok s \<Longrightarrow> quiet s (blink s)"
  by (simp_all add: quiet_def same_stacks_def kernel_ok_def blink_def)

lemma parked_tick:
  assumes "parked s"
  shows "\<exists>s'. scheduler_tick s = Some s' \<and> kernel_ok s' \<and> same_stacks s s' \<and> sch s' = sch s \<and> sched_frame s s'"
proof (cases "task_count (sch s) = 0")
  case True
  then show ?thesis using assms by (simp add: scheduler_tick_def parked_def sched_frame_def)
next
  case False
  have len: "length (tasks s) = 8" "kernel_ok s" using assms by (simp_all add: parked_def kernel_ok_def)
  obtain s1 where s1: "ai_kernel_tick s = Some s1" "kernel_ok s1" "ai_frame s s1"
    using ai_kernel_tick_total [OF len(2)] by blast
  have f1: "weights s1 = weights s" "sch s1 = sch s" using ai_frame_fields [OF s1(3)] by simp_all
  have l1: "length (tasks s1) = 8" "length (perm_table (ai s1)) = 8" "net_ok (weights s1)"
    using s1(2) f1 assms by (simp_all add: kernel_ok_def ai_ok_def parked_def)
  obtain ts where ts: "ml_score_tasks s1 = Some (s1\<lparr>tasks := ts\<rparr>)" "length ts = 8"
    "\<forall>i<8. \<exists>sc. ts ! i = (tasks s1 ! i)\<lparr>ml_score := sc\<rparr>"
    using ml_score_tasks_total [OF l1(3,1)] by blast
  let ?s2 = "s1\<lparr>tasks := ts\<rparr>"
  have t2: "state (ts ! i) = state (tasks s1 ! i) \<and> esp (ts ! i) = esp (tasks s1 ! i) \<and> stack (ts ! i) = stack (tasks s1 ! i)"
    if i: "i < 8" for i
  proof -
    obtain sc where "ts ! i = (tasks s1 ! i)\<lparr>ml_score := sc\<rparr>" using ts(3) i by blast
    then show ?thesis by simp
  qed
  have ss1: "same_stacks s s1" using ai_frame_same_stacks [OF s1(3) len(1)] .
  have ss2: "same_stacks s1 ?s2" using t2 ts(2) l1(1) by (simp add: same_stacks_def)
  have nc: "\<not> candidate 0 ?s2 i" if "i < 8" for i
    using assms same_stacks_trans [OF ss1 ss2] that by (auto simp: candidate_def parked_def same_stacks_def)
  have "choice 0 ?s2 = None" using nc choice_None by blast
  then have c: "scheduler_choose 0 ?s2 = Some (?s2\<lparr>tasks := aged 0 ?s2 8\<rparr>)"
    using scheduler_choose_eq [of ?s2 0] ts(2) l1(2) by (simp add: Let_def)
  let ?s3 = "?s2\<lparr>tasks := aged 0 ?s2 8\<rparr>"
  have "scheduler_tick s = Some ?s3"
    using False s1(1) ts(1) c assms by (simp add: scheduler_tick_def Let_def parked_def)
  moreover have "same_stacks ?s2 ?s3" using ts(2) by (simp add: same_stacks_def aged_fields) (simp add: aged_def)
  moreover have "kernel_ok ?s3" using s1(2) by (simp add: kernel_ok_def) (simp add: aged_def)
  moreover have "sched_frame s ?s3"
    by (rule sched_frame_trans [OF ai_frame_sched [OF s1(3)] sched_frame_trans [OF sched_frame_upd(2) sched_frame_upd(2)]])
  ultimately show ?thesis using same_stacks_trans [OF ss1] same_stacks_trans [OF ss2] f1(2) by auto
qed

text \<open>What the keys waiting in the ring may change, whatever they are: a command may run.\<close>

definition typed :: "('d, 'b) system_scheme \<Rightarrow> ('d, 'b) system_scheme \<Rightarrow> bool" where
  "typed s s' \<longleftrightarrow> ticks s' = ticks s \<and> pages s' = pages s \<and> tasks s' = tasks s \<and> sch s' = sch s \<and> ai s' = ai s \<and>
     weights s' = weights s \<and> stackmem s' = stackmem s \<and> system.more s' = system.more s"

definition console_ok :: "'a console_scheme \<Rightarrow> bool" where
  "console_ok s \<longleftrightarrow> ring_ok s \<and> editor_ok s"

lemma typed_more:
  fixes s s' :: "('d, 'b) system_scheme"
  assumes "console.more s' = console.more s"
  shows "typed s s'"
  using kernel_part(1-7) [OF assms] system_same(3) [OF assms] by (simp add: typed_def)

lemma ring_upd:
  fixes s :: "'a console_scheme" and t :: "'b kernel_scheme" and u :: "('d, 'c) system_scheme"
  shows "ring (s\<lparr>buf_pos := i\<rparr>) = ring s" "ring_ok (s\<lparr>buf_pos := i\<rparr>) = ring_ok s" "editor_ok (s\<lparr>buf_pos := i\<rparr>) = editor_ok s"
    "ring (s\<lparr>input_buf := b\<rparr>) = ring s" "ring_ok (s\<lparr>input_buf := b\<rparr>) = ring_ok s"
    "ring (s\<lparr>vga := v\<rparr>) = ring s" "ring_ok (s\<lparr>vga := v\<rparr>) = ring_ok s" "editor_ok (s\<lparr>vga := v\<rparr>) = editor_ok s"
    "ring (u\<lparr>fs := f, disk := d\<rparr>) = ring u" "ring_ok (u\<lparr>fs := f, disk := d\<rparr>) = ring_ok u"
    "editor_ok (u\<lparr>fs := f, disk := d\<rparr>) = editor_ok u"
  by (simp_all add: ring_def ring_len_def ring_ok_def editor_ok_def)

lemma same_keyboard_fields:
  assumes "same_keyboard s s'"
  shows "ring s' = ring s" "ring_ok s' = ring_ok s" "editor_ok s' = editor_ok s"
proof -
  note k = assms [unfolded same_keyboard_def]
  have "scancode_buffer s' = scancode_buffer s" "scancode_head s' = scancode_head s" "scancode_tail s' = scancode_tail s"
    "input_buf s' = input_buf s"
    using arg_cong [OF k, of scancode_buffer] arg_cong [OF k, of scancode_head] arg_cong [OF k, of scancode_tail]
      arg_cong [OF k, of input_buf] by simp_all
  then show "ring s' = ring s" "ring_ok s' = ring_ok s" "editor_ok s' = editor_ok s"
    by (simp_all add: ring_def ring_len_def ring_ok_def editor_ok_def)
qed

lemma sys_frame_console:
  assumes "sys_frame s s'"
  shows "typed s s'" and "ring s' = ring s" "ring_ok s' = ring_ok s" "editor_ok s' = editor_ok s"
proof -
  obtain d cc pc where f: "screen_frame (s\<lparr>fs := (fs s)\<lparr>current_cluster := cc, previous_cluster := pc\<rparr>, disk := d\<rparr>) s'"
    using assms by (auto simp: sys_frame_def)
  let ?u = "s\<lparr>fs := (fs s)\<lparr>current_cluster := cc, previous_cluster := pc\<rparr>, disk := d\<rparr>"
  note m = screen_frame_more [OF f]
  show "typed s s'" using kernel_part(1-7) [OF m] system_same(3) [OF m] by (simp add: typed_def)
  have k: "same_keyboard ?u s'" using f by (simp add: screen_frame_def)
  show "ring s' = ring s" "ring_ok s' = ring_ok s" "editor_ok s' = editor_ok s"
    using same_keyboard_fields [OF k] by (simp_all add: ring_def ring_len_def ring_ok_def editor_ok_def)
qed

lemma editor_put_char [simp]: "editor_ok (put_char c color s) = editor_ok s"
  by (simp add: editor_ok_def)

lemma process_any_key:
  assumes "console_ok s" and "process_scancode (shell_handle D J) sc s = Some s'"
  shows "typed s s' \<and> ring s' = ring s \<and> console_ok s'"
proof (cases "sc = 0x1C")
  case False
  obtain t where "process_scancode (shell_handle D J) sc s = Some t" "ring t = ring s" "ring_ok t = ring_ok s" "editor_ok t"
    "console.more t = console.more s"
    using process_key_kernel [OF _ False, of s "shell_handle D J"] assms(1) by (auto simp: console_ok_def)
  then show ?thesis using assms typed_more by (auto simp: console_ok_def)
next
  case True
  let ?b = "(input_buf s)[unat (buf_pos s) := 0]"
  let ?t = "put_char 10 0x07 (s\<lparr>input_buf := ?b\<rparr>)"
  have ed: "editor_ok s" "ring_ok s" using assms(1) by (simp_all add: console_ok_def)
  have "key_of (shift_held s) sc = Enter" using True by (simp add: key_of_enter)
  from process_scancode_enter(1) [OF ed(1) this, of "shell_handle D J"] assms(2)
  obtain u where u: "shell_handle D J ?b ?t = Some u" "s' = u\<lparr>buf_pos := 0\<rparr>" by (auto simp: map_option_case split: option.splits)
  have fr: "sys_frame ?t u" using shell_handle_frame [of ?t D J ?b] u(1) by (simp add: keeps_def)
  note c = sys_frame_console [OF fr]
  have m: "console.more ?t = console.more s" by simp
  have e: "editor_ok (s\<lparr>input_buf := ?b\<rparr>)" using ed(1) by (simp add: editor_ok_def)
  have "typed s u" using c(1) kernel_part(1-7) [OF m] system_same(3) [OF m] by (simp add: typed_def)
  then show ?thesis using c(2-4) u(2) ed e by (simp add: typed_def console_ok_def ring_upd)
qed

lemma scancode_pop_typed:
  assumes "console_ok s" and "scancode_pop s = Some (r, t)"
  shows "typed s t \<and> console_ok t \<and> (r = None \<longrightarrow> ring t = [])"
proof (cases "ring s")
  case Nil
  then show ?thesis using ring_pop(1) [of s] assms by (simp add: console_ok_def typed_def)
next
  case (Cons x xs)
  have ok: "ring_ok s" "editor_ok s" using assms(1) by (simp_all add: console_ok_def)
  obtain t' where t': "scancode_pop s = Some (Some x, t')" "ring_ok t'" using ring_pop(2) [OF ok(1) Cons] by blast
  have "typed s t \<and> editor_ok t"
    using assms(2) ok(2) by (auto simp: scancode_pop_def typed_def editor_ok_def split: if_splits Option.bind_splits)
  then show ?thesis using t' assms(2) by (simp add: console_ok_def)
qed

lemma drain_any_keys:
  fixes s :: "('d, 'b) system_scheme"
  assumes "scancode_drain (process_scancode (shell_handle D J)) s = Some s'" and "console_ok s"
  shows "typed s s' \<and> console_ok s' \<and> ring s' = []"
proof -
  let ?P = "process_scancode (shell_handle D J) :: u8 \<Rightarrow> ('d, 'b) system_scheme \<Rightarrow> ('d, 'b) system_scheme option"
  have "?P = p \<longrightarrow> console_ok s \<longrightarrow> typed s s' \<and> console_ok s' \<and> ring s' = []"
    if "scancode_drain p s = Some s'" for p and s s' :: "('d, 'b) system_scheme"
  proof (rule scancode_drain.raw_induct [OF _ that, where P = "\<lambda>p s s'. ?P = p \<longrightarrow> console_ok s \<longrightarrow> typed s s' \<and> console_ok s' \<and> ring s' = []"], goal_cases)
    case (1 g p s s')
    show ?case
    proof (intro impI)
      assume p: "?P = p" and ok: "console_ok s"
      obtain r t where t: "scancode_pop s = Some (r, t)" using 1(2) by (auto split: Option.bind_splits)
      note tt = scancode_pop_typed [OF ok t]
      show "typed s s' \<and> console_ok s' \<and> ring s' = []"
      proof (cases r)
        case None
        then show ?thesis using 1(2) t tt by simp
      next
        case (Some sc)
        then obtain u where u: "p sc t = Some u" "g p u = Some s'" using 1(2) t by (auto split: Option.bind_splits)
        have "typed t u \<and> console_ok u" using process_any_key [of t D J sc u] u(1) tt p by simp
        then show ?thesis using 1(1) [OF u(2)] p tt by (auto simp: typed_def)
      qed
    qed
  qed
  then show ?thesis using assms by blast
qed

lemma interrupted_typed:
  assumes "kernel_ok s" and "typed s s'"
  shows "interrupted s s'"
  using assms by (simp add: interrupted_def quiet_def typed_def kernel_ok_def same_stacks_def)

lemma interrupted_count_tick: "kernel_ok s \<Longrightarrow> interrupted s (count_tick s)"
  using count_tick_same_stacks [of s]
  by (simp add: interrupted_def quiet_def count_tick_fields kernel_ok_def) (simp add: count_tick_def Let_def outb_def)

lemma parked_tick_system:
  fixes s :: "('d, 'b) system_scheme"
  assumes "parked s"
  shows "\<exists>s'. scheduler_tick s = Some s' \<and> interrupted s s' \<and> sched_frame s s'"
proof -
  obtain s' where s': "scheduler_tick s = Some s'" "kernel_ok s'" "same_stacks s s'" "sch s' = sch s" "sched_frame s s'"
    using parked_tick [OF assms] by blast
  note f = s'(5) [unfolded sched_frame_def]
  have "weights s' = weights s" "system.more s' = system.more s"
    using arg_cong [OF f, of weights] arg_cong [OF f, of system.more] by simp_all
  then show ?thesis using s' by (simp add: interrupted_def quiet_def)
qed

lemma interrupted_same:
  fixes s :: "('d, 'b) system_scheme"
  assumes "kernel_ok s"
  shows "interrupted s (s\<lparr>vga := v\<rparr>)" and "interrupted s (blink s)"
  using quiet_same [OF assms] by (simp_all add: interrupted_def blink_def)

lemma interrupted_keeps_ok: "interrupted s s' \<Longrightarrow> kernel_ok s'"
  by (simp add: interrupted_def quiet_def)

lemma interrupted_parked: "parked s \<Longrightarrow> interrupted s s' \<Longrightarrow> parked s'"
  by (erule quiet_parked) (simp add: interrupted_def)

text \<open>The part of the handler after the keys are handled always returns, and without a switch.\<close>

lemma parked_scheduled:
  fixes s :: "('d, 'b) system_scheme"
  assumes "parked s" and "console_ok s" and "ring s = []"
  shows "\<exists>s'. scheduled c s = Some (False, c, s') \<and> interrupted s s' \<and> console_ok s' \<and> ring s' = [] \<and> ticks s' = ticks s"
proof (cases "ticks s mod 100 = 0")
  case False
  moreover have "interrupted s s" using assms(1) by (simp add: interrupted_def quiet_def parked_def)
  ultimately show ?thesis using assms by (simp add: scheduled_def pit_handler_rest_def)
next
  case True
  obtain t where t: "scheduler_tick s = Some t" "interrupted s t" "sched_frame s t"
    using parked_tick_system [OF assms(1)] by blast
  have "switch_pending (sch t) = 0" using t(2) assms(1) by (simp add: interrupted_def quiet_def parked_def)
  note idle = do_pending_idle [OF this, of c]
  note f = sched_frame_fields [OF t(3)]
  obtain v where v: "draw_top_bar t = Some (t\<lparr>vga := v\<rparr>)" using draw_top_bar_eq [OF interrupted_keeps_ok [OF t(2)]] by blast
  have "interrupted s (t\<lparr>vga := v\<rparr>)"
    using interrupted_trans [OF t(2) interrupted_same(1)] interrupted_keeps_ok [OF t(2)] by blast
  then show ?thesis using True t(1) idle v f assms(2,3) by (simp add: scheduled_def pit_handler_rest_def console_ok_def ring_upd)
qed

lemma boot_timer:
  fixes s :: "('d, 'b) system_scheme"
  assumes "parked s" and "console_ok s" and "pit_handler (shell_handle D J) c s = Some (left, c', s')"
  shows "\<not> left \<and> c' = c \<and> interrupted s s' \<and> console_ok s' \<and> ring s' = [] \<and> ticks s' = ticks s + 1"
proof -
  have ok: "kernel_ok s" "unat (current_task (sch s)) < length (tasks s)"
    using assms(1) by (simp_all add: parked_def kernel_ok_def)
  have i1: "interrupted s (count_tick s)" and c1: "console_ok (count_tick s)"
    using interrupted_count_tick [OF ok(1)] assms(2) by (simp_all add: console_ok_def count_tick_fields)
  obtain s2 where s2: "scancode_drain (process_scancode (shell_handle D J)) (count_tick s) = Some s2"
    using assms(3) unfolding pit_handler_eq [OF ok(2)] by (auto split: Option.bind_splits)
  note d = drain_any_keys [OF s2 c1]
  define s3 where "s3 = (if ticks s2 mod 10 = 0 then blink s2 else s2)"
  have k2: "kernel_ok s2" "interrupted s s2"
    using interrupted_trans [OF i1 interrupted_typed] interrupted_keeps_ok [OF i1] d by (auto dest: interrupted_keeps_ok)
  have i3: "interrupted s s3" using interrupted_trans [OF k2(2) interrupted_same(2) [OF k2(1)]] k2(2) by (simp add: s3_def)
  have c3: "console_ok s3" "ring s3 = []" "ticks s3 = ticks s + 1"
    using d by (simp_all add: s3_def drained_blink console_ok_def typed_def count_tick_fields) (simp add: blink_def)
  obtain s' where r: "scheduled c s3 = Some (False, c, s')" "interrupted s3 s'" "console_ok s'" "ring s' = []" "ticks s' = ticks s3"
    using parked_scheduled [OF interrupted_parked [OF assms(1) i3] c3(1,2), of c] by blast
  have "pit_handler (shell_handle D J) c s = Some (False, c, s')"
    using r(1) unfolding pit_handler_eq [OF ok(2)] s2 by (simp flip: s3_def)
  then show ?thesis using assms(3) r(3-5) c3(3) interrupted_trans [OF i3 r(2)] by simp
qed

text \<open>Without a line to submit the timer interrupt returns.\<close>

lemma boot_timer_returns:
  fixes s :: "('d, 'b) system_scheme"
  assumes "parked s" and "console_ok s" and "0x1C \<notin> set (ring s)"
  shows "\<exists>s'. pit_handler (shell_handle D J) c s = Some (False, c, s')"
proof -
  have ok: "kernel_ok s" "unat (current_task (sch s)) < length (tasks s)"
    using assms(1) by (simp_all add: parked_def kernel_ok_def)
  have i1: "interrupted s (count_tick s)" and c1: "console_ok (count_tick s)"
    using interrupted_count_tick [OF ok(1)] assms(2) by (simp_all add: console_ok_def count_tick_fields)
  have k1: "kernel_ok (count_tick s)" by (rule interrupted_keeps_ok [OF i1])
  obtain s2 where s2: "scancode_drain (process_scancode (shell_handle D J)) (count_tick s) = Some s2" "ring s2 = []" "console_ok s2"
    "console.more s2 = console.more (count_tick s)"
    using drain_keys [of "count_tick s" "shell_handle D J"] c1 assms(3) by (auto simp: console_ok_def count_tick_fields)
  define s3 where "s3 = (if ticks s2 mod 10 = 0 then blink s2 else s2)"
  have i2: "interrupted s s2" by (rule interrupted_trans [OF i1 interrupted_typed [OF k1 typed_more [OF s2(4)]]])
  have i3: "interrupted s s3"
    using interrupted_trans [OF i2 interrupted_same(2)] interrupted_keeps_ok [OF i2] i2 by (simp add: s3_def)
  have c3: "console_ok s3" "ring s3 = []" using s2 by (simp_all add: s3_def drained_blink console_ok_def)
  show ?thesis
    using parked_scheduled [OF interrupted_parked [OF assms(1) i3] c3, of c]
    unfolding pit_handler_eq [OF ok(2)] s2(1) by (simp flip: s3_def) blast
qed

lemma boot_key:
  fixes s :: "('d, 'b) system_scheme"
  assumes "console_ok s" and "keyboard_handler sc s = Some s'"
  shows "typed s s' \<and> console_ok s' \<and> ticks s' = ticks s"
proof -
  have ok: "ring_ok s" "editor_ok s" using assms(1) by (simp_all add: console_ok_def)
  have "ring_ok s'" using ring_push [OF ok(1), of sc] assms(2) by (auto simp: keyboard_handler_def)
  moreover have "typed s s' \<and> editor_ok s'"
    using assms(2) ok(2)
    by (auto simp: keyboard_handler_def scancode_push_def Let_def typed_def editor_ok_def split: if_splits Option.bind_splits)
  ultimately show ?thesis by (simp add: console_ok_def typed_def)
qed

section \<open>The steps\<close>

lemma ata_read_total:
  assumes "length buf = 512"
  shows "\<exists>r b d'. ata_read_sector D lba 0 buf d = Some (r, b, d') \<and> length b = 512"
proof -
  let ?body = "\<lambda>i (buf, d). do {
            let (word, d) = dev_inw D ATA_DATA d;
            buf \<leftarrow> arr_set buf (0 + i * 2) (ucast (word AND 0xFF));
            buf \<leftarrow> arr_set buf (0 + (i * 2 + 1)) (ucast (drop_bit 8 word AND 0xFF));
            Some (buf, d) }"
  have "\<exists>x. for_each ?body [0..<256] (buf, e) = Some x \<and> length (fst x) = 512" for e
    by (rule for_each_upt_inv [where I = "\<lambda>_ x. length (fst x) = 512"]) (use assms in \<open>auto split: prod.splits\<close>)
  then have "\<exists>b e'. for_each ?body [0..<256] (buf, e) = Some (b, e') \<and> length b = 512" for e by (metis prod.collapse)
  moreover obtain e d1 where "ata_poll D (select_lba D lba ATA_CMD_READ d) = (e, d1)" by (cases "ata_poll D (select_lba D lba ATA_CMD_READ d)")
  moreover obtain b d2 where "for_each ?body [0..<256] (buf, d1) = Some (b, d2)" "length b = 512" using calculation(1) by blast
  ultimately show ?thesis using assms unfolding ata_read_sector_def by (simp only: Let_def prod.case Option.bind.bind_lunit) simp
qed

lemma fat32_init_total: "\<exists>r f' d'. fat32_init D lba f d = Some (r, f', d')"
proof -
  obtain r b d' where b: "ata_read_sector D lba 0 (replicate 512 0) d = Some (r, b, d')" "length b = 512"
    using ata_read_total [of "replicate 512 0" D lba d] by auto
  obtain v w where "get16 b 14 = Some v" "get32 b 36 = Some w" using get16_in [of 14 b] get32_in [of 36 b] b(2) by auto
  moreover obtain u where "get32 b 44 = Some u" using get32_in [of 44 b] b(2) by auto
  ultimately show ?thesis using b by (simp add: fat32_init_def Let_def)
qed

lemma load_lengths:
  "load_vector buf n (xs, p) = Some (ys, q) \<Longrightarrow> length ys = length xs"
  "load_matrix buf rows cols (xs, p) = Some (ys, q) \<Longrightarrow> length ys = length xs"
proof -
  have step: "length (fst y) = length (fst x)"
    if "(case x of (xs, p) \<Rightarrow> do { v \<leftarrow> get32 buf p; xs \<leftarrow> arr_set xs (k :: nat) (float_of_bits v); Some (xs, p + 4) }) = Some y"
    for k and x y :: "flt list \<times> nat"
    using that by (cases x) (auto simp: arr_set_def split: Option.bind_splits if_splits)
  have loop: "length (fst y) = length (fst x)"
    if "for_each (\<lambda>j (xs, p). do { v \<leftarrow> get32 buf p; xs \<leftarrow> arr_set xs (f j) (float_of_bits v); Some (xs, p + 4) }) is x = Some y"
    for f :: "nat \<Rightarrow> nat" and "is" x y
    using that by (rule for_each_invariant [where P = "\<lambda>z. length (fst z) = length (fst x)"]) (use step in auto)
  show "load_vector buf n (xs, p) = Some (ys, q) \<Longrightarrow> length ys = length xs"
    unfolding load_vector_def using loop [of "\<lambda>j. j" "[0..<n]" "(xs, p)" "(ys, q)"] by simp
  assume m: "load_matrix buf rows cols (xs, p) = Some (ys, q)"
  have "length (fst (ys, q)) = length (fst (xs, p))"
    using m unfolding load_matrix_def
    by (rule for_each_invariant [where P = "\<lambda>z. length (fst z) = length (fst (xs, p))"]) (use loop in auto)
  then show "length ys = length xs" by simp
qed

lemma parse_weights_ok:
  assumes "parse_weights buf w = Some w'" and "net_ok w"
  shows "net_ok w'"
  using assms by (auto simp: parse_weights_def Let_def net_ok_def split: Option.bind_splits dest!: load_lengths)

lemma ml_weights_load_ok:
  assumes "ml_weights_load D buf f w d = Some (r, w', d')" and "net_ok w"
  shows "net_ok w'"
  using assms parse_weights_ok
  by (auto simp: ml_weights_load_def split: Option.bind_splits option.splits prod.splits if_splits)

text \<open>
  Where the boot sequence stands: \<open>k\<close> steps are done.  First the part of the kernel, then the tables
  and status bytes, then the heap.
\<close>

definition shell_ready :: "u32 \<Rightarrow> 'a kernel_scheme \<Rightarrow> bool" where
  "shell_ready entry s \<longleftrightarrow> ready_prefix 1 s \<and> task_count (sch s) = 1 \<and>
     (\<exists>g. boot_ok s g \<and> g 0 = entry_context entry (stack (tasks s ! 0)))"

definition kernel_phase :: "u32 \<Rightarrow> nat \<Rightarrow> 'a kernel_scheme \<Rightarrow> bool" where
  "kernel_phase entry k s \<longleftrightarrow> parked s \<and> (k \<le> 10 \<longrightarrow> ready_prefix 0 s) \<and>
     (6 \<le> k \<longrightarrow> pmm_ok (pages s)) \<and> (6 \<le> k \<and> k \<le> 7 \<longrightarrow> 2 \<le> card (free_set (pages s))) \<and>
     (8 \<le> k \<and> k \<le> 10 \<longrightarrow> 1 \<le> card (free_set (pages s))) \<and>
     (9 \<le> k \<and> k \<le> 10 \<longrightarrow> task_count (sch s) = 0 \<and> (\<exists>g. boot_ok s g)) \<and>
     (11 \<le> k \<longrightarrow> shell_ready entry s)"

text \<open>The tables are in force: flat segments, and the stubs of the C handlers behind their vectors.\<close>

definition tables_loaded :: "linked \<Rightarrow> gdt_entry list \<Rightarrow> idt_entry list \<Rightarrow> Descriptors.cpu \<Rightarrow> bool" where
  "tables_loaded L g d c \<longleftrightarrow>
     gp_limit (gdtr c) = 23 \<and> gp_base (gdtr c) = l_gdt L \<and> gp_limit (idtr c) = 2047 \<and> gp_base (idtr c) = l_idt L \<and>
     (\<forall>k \<in> {1, 2}. gdt_base (g ! k) = 0 \<and> gdt_limit (g ! k) = 0xFFFFFFFF) \<and>
     (\<forall>v < 256. i_selector (d ! v) = cs c \<and> i_flags (d ! v) = 0x8E \<and>
        idt_offset (d ! v) = (if v = 32 then l_isr_timer L else if v = 33 then l_isr_keyboard L else l_isr_default L))"

text \<open>The FPU is not emulated and rounds to nearest with 64 bits.\<close>

definition fpu_ready :: "u32 \<Rightarrow> u16 \<Rightarrow> bool" where
  "fpu_ready cr fc \<longleftrightarrow> \<not> bit cr 2 \<and> take_bit 2 (drop_bit 8 fc) = 3 \<and> take_bit 2 (drop_bit 10 fc) = 0"

lemma boot_fpu_ready: "fpu_ready ((c AND 0xFFFFFFFB) OR 0x2) 0x037F"
  by (simp add: fpu_ready_def bit_simps)

definition table_phase :: "linked \<Rightarrow> nat \<Rightarrow> ('d, 'b) machine_scheme \<Rightarrow> bool" where
  "table_phase L k s \<longleftrightarrow> length (gdt_tab s) = 3 \<and> length (idt_tab s) = 256 \<and> length (init_status s) = 5 \<and>
     (int_enabled (dcpu s) \<longleftrightarrow> 3 \<le> k) \<and> (1 \<le> k \<longrightarrow> fpu_ready (cr0 s) (fpu_control s)) \<and>
     (k = 2 \<longrightarrow> (\<exists>gdt c. length gdt = 3 \<and> gdt_init (l_gdt L) gdt c = Some (gdt_tab s, dcpu s))) \<and>
     (3 \<le> k \<longrightarrow> tables_loaded L (gdt_tab s) (idt_tab s) (dcpu s))"

definition heap_phase :: "nat \<Rightarrow> ('d, 'b) machine_scheme \<Rightarrow> bool" where
  "heap_phase k s \<longleftrightarrow> (8 \<le> k \<longrightarrow> (\<exists>p. heap_inv (kheap s) (pages s) {p} [(of_nat p * PAGE_SIZE, 4080, 0)] \<and>
     (11 \<le> k \<longrightarrow> stack (tasks s ! 0) \<noteq> of_nat p * PAGE_SIZE)))"

definition boot_phase :: "linked \<Rightarrow> nat \<Rightarrow> ('d, 'b) machine_scheme \<Rightarrow> bool" where
  "boot_phase L k s \<longleftrightarrow> kernel_phase (l_shell_task L) k s \<and> console_ok s \<and> table_phase L k s \<and> heap_phase k s"

lemma quiet_ready_prefix: "quiet s s' \<Longrightarrow> ready_prefix k s' = ready_prefix k s"
  by (simp add: quiet_def same_stacks_def ready_prefix_def)

lemma quiet_fields:
  assumes "quiet s s'"
  shows "pages s' = pages s" "sch s' = sch s" "stack (tasks s' ! 0) = stack (tasks s ! 0)"
  using assms by (simp_all add: quiet_def same_stacks_def)

lemma quiet_shell_ready: "shell_ready entry s \<Longrightarrow> quiet s s' \<Longrightarrow> shell_ready entry s'"
  unfolding shell_ready_def using quiet_boot_ok quiet_ready_prefix quiet_fields by metis

lemma quiet_phase:
  assumes "kernel_phase entry k s" and "quiet s s'"
  shows "kernel_phase entry k s'"
proof -
  have "parked s'" using quiet_parked [OF _ assms(2)] assms(1) by (simp add: kernel_phase_def)
  moreover have "\<exists>g. boot_ok s' g" if "\<exists>g. boot_ok s g" using that quiet_boot_ok [OF _ assms(2)] by blast
  moreover have "shell_ready entry s'" if "shell_ready entry s" using that quiet_shell_ready [OF _ assms(2)] by blast
  ultimately show ?thesis
    using assms(1) unfolding kernel_phase_def quiet_fields(1,2) [OF assms(2)] quiet_ready_prefix [OF assms(2)] by blast
qed

lemma machine_same:
  fixes s :: "('d, 'b) machine_scheme"
  assumes "system.more s' = system.more s"
  shows "gdt_tab s' = gdt_tab s" "idt_tab s' = idt_tab s" "dcpu s' = dcpu s" "kheap s' = kheap s"
    "init_status s' = init_status s" "wait_start s' = wait_start s" "cr0 s' = cr0 s" "fpu_control s' = fpu_control s"
  using assms by (cases s; cases s'; simp)+

lemma interrupted_phase:
  assumes "boot_phase L k s" and "interrupted s s'" and "console_ok s'"
  shows "boot_phase L k s'"
proof -
  have q: "quiet s s'" and m: "system.more s' = system.more s" using assms(2) by (simp_all add: interrupted_def)
  note f = machine_same [OF m] quiet_fields(1,3) [OF q]
  show ?thesis
    using assms(1,3) quiet_phase [OF _ q]
    by (simp add: boot_phase_def table_phase_def heap_phase_def f)
qed

text \<open>Steps that leave the tasks alone do not change the kernel's phase, from one to the next.\<close>

lemma quiet_next:
  assumes "kernel_phase entry k s" and "quiet s s'" and "k \<in> {0, 1, 2, 3, 4, 6, 11, 12, 13, 14, 15}"
  shows "kernel_phase entry (Suc k) s'"
proof -
  have "kernel_phase entry (Suc k) s" using assms(1,3) by (elim insertE emptyE) (simp_all add: kernel_phase_def)
  then show ?thesis using assms(2) by (rule quiet_phase)
qed

lemma heap_inv_fewer:
  assumes "heap_inv h bm own bs" and "free_set bm' \<subseteq> free_set bm" and "pmm_ok bm'"
  shows "heap_inv h bm' own bs"
  using assms by (auto simp: heap_inv_def)

text \<open>One lemma per step.\<close>

lemmas phase_defs = boot_phase_def table_phase_def heap_phase_def

lemma quiet_system:
  fixes s :: "('d, 'b) machine_scheme"
  assumes "kernel_ok s"
  shows "quiet s (s\<lparr>outs := p\<rparr>)" "quiet s (s\<lparr>fs := f, disk := d\<rparr>)" "quiet s (s\<lparr>disk := d\<rparr>)" "quiet s (s\<lparr>dcpu := c\<rparr>)"
    "quiet s (s\<lparr>gdt_tab := g\<rparr>)" "quiet s (s\<lparr>idt_tab := i\<rparr>)" "quiet s (s\<lparr>init_status := v\<rparr>)" "quiet s (s\<lparr>wait_start := w\<rparr>)"
    "quiet s (s\<lparr>gdt_tab := g, dcpu := c\<rparr>)" "quiet s (s\<lparr>idt_tab := i, outs := p, dcpu := c\<rparr>)"
    "quiet s (s\<lparr>dcpu := c, outs := p\<rparr>)" "quiet s (s\<lparr>disk := d, dcpu := c\<rparr>)"
  using assms by (simp_all add: quiet_def same_stacks_def kernel_ok_def)

lemma console_system:
  fixes s :: "('d, 'b) machine_scheme"
  shows "console_ok (s\<lparr>outs := p\<rparr>) = console_ok s" "console_ok (s\<lparr>fs := f\<rparr>) = console_ok s" "console_ok (s\<lparr>disk := d\<rparr>) = console_ok s"
    "console_ok (s\<lparr>dcpu := c\<rparr>) = console_ok s" "console_ok (s\<lparr>gdt_tab := g\<rparr>) = console_ok s" "console_ok (s\<lparr>idt_tab := i\<rparr>) = console_ok s"
    "console_ok (s\<lparr>init_status := v\<rparr>) = console_ok s" "console_ok (s\<lparr>wait_start := w\<rparr>) = console_ok s"
    "console_ok (s\<lparr>cr0 := x\<rparr>) = console_ok s" "console_ok (s\<lparr>fpu_control := y\<rparr>) = console_ok s"
    "console_ok (s\<lparr>pages := bm\<rparr>) = console_ok s" "console_ok (s\<lparr>kheap := h\<rparr>) = console_ok s" "console_ok (s\<lparr>weights := n\<rparr>) = console_ok s"
    "console_ok (s\<lparr>tasks := ts\<rparr>) = console_ok s" "console_ok (s\<lparr>sch := q\<rparr>) = console_ok s" "console_ok (s\<lparr>stackmem := m\<rparr>) = console_ok s"
  by (simp_all add: console_ok_def ring_ok_def editor_ok_def)

lemma phase_kernel_ok: "boot_phase L k s \<Longrightarrow> kernel_ok s"
  by (simp add: boot_phase_def kernel_phase_def parked_def)

lemma boot_step_cli:
  assumes "boot_phase L 0 s"
  shows "\<exists>s'. boot_cli s = Some s' \<and> boot_phase L 1 s'"
proof -
  have "quiet s (s\<lparr>cr0 := x, fpu_control := y, dcpu := c, outs := p\<rparr>)" for x y c p
    using phase_kernel_ok [OF assms] by (simp add: quiet_def same_stacks_def kernel_ok_def)
  then have "kernel_phase (l_shell_task L) 1 (s\<lparr>cr0 := x, fpu_control := y, dcpu := c, outs := p\<rparr>)" for x y c p
    using quiet_next [of "l_shell_task L" 0 s] assms by (simp add: boot_phase_def)
  then show ?thesis using assms
    by (simp add: boot_cli_def boot_fpu_def outb_def Let_def phase_defs console_system boot_fpu_ready)
qed

lemma boot_step_gdt:
  assumes "boot_phase L 1 s"
  shows "\<exists>s'. boot_gdt L s = Some s' \<and> boot_phase L 2 s'"
proof -
  have len: "length (gdt_tab s) = 3" "length (idt_tab s) = 256" using assms by (simp_all add: phase_defs)
  obtain g c where g: "gdt_init (l_gdt L) (gdt_tab s) (dcpu s) = Some (g, c)"
    using descriptor_tables [OF len] by blast
  have "length g = 3 \<and> int_enabled c = int_enabled (dcpu s)"
    using g len(1) by (auto simp: gdt_init_def gdt_set_eq gdt_flush_def Let_def)
  moreover have "kernel_phase (l_shell_task L) 2 (s\<lparr>gdt_tab := g, dcpu := c\<rparr>)"
    using quiet_next [of "l_shell_task L" 1 s, OF _ quiet_system(9) [OF phase_kernel_ok [OF assms]]] assms
    by (simp add: boot_phase_def numeral_2_eq_2)
  ultimately show ?thesis using assms g len(1) by (auto simp: boot_gdt_def phase_defs console_system)
qed

lemma boot_step_idt:
  assumes "boot_phase L 2 s"
  shows "\<exists>s'. boot_idt L s = Some s' \<and> boot_phase L 3 s'"
proof -
  obtain gdt c0 where g: "length gdt = 3" "gdt_init (l_gdt L) gdt c0 = Some (gdt_tab s, dcpu s)" and len: "length (idt_tab s) = 256"
    using assms by (auto simp: phase_defs)
  obtain d c2 where d: "idt_init (l_idt L) (l_isr_default L) (l_isr_timer L) (l_isr_keyboard L) (idt_tab s) (dcpu s) = Some (d, pic_remap, c2)"
    "tables_loaded L (gdt_tab s) d c2" "length d = 256" "int_enabled c2"
    using descriptor_tables [OF g(1) len, of "l_gdt L" c0 "l_idt L" "l_isr_default L" "l_isr_timer L" "l_isr_keyboard L"] g(2)
    unfolding tables_loaded_def by auto
  have "kernel_phase (l_shell_task L) 3 (s\<lparr>idt_tab := d, outs := outs s @ pic_remap, dcpu := c2\<rparr>)"
    using quiet_next [of "l_shell_task L" 2 s, OF _ quiet_system(10) [OF phase_kernel_ok [OF assms]]] assms
    by (simp add: boot_phase_def numeral_3_eq_3)
  then show ?thesis using assms d by (auto simp: boot_idt_def phase_defs console_system)
qed

lemma boot_step_pit:
  assumes "boot_phase L 3 s"
  shows "\<exists>s'. pit_init 100 s = Some s' \<and> boot_phase L 4 s'"
proof -
  have "kernel_phase (l_shell_task L) 4 (s\<lparr>outs := p\<rparr>)" for p
    using quiet_next [of "l_shell_task L" 3 s, OF _ quiet_system(1) [OF phase_kernel_ok [OF assms]]] assms
    by (simp add: boot_phase_def)
  then show ?thesis using assms by (simp add: pit_init_def outb_def Let_def phase_defs console_system)
qed

lemma boot_step_ata:
  assumes "boot_phase L 4 s"
  shows "\<exists>s'. boot_ata D s = Some s' \<and> boot_phase L 5 s'"
proof -
  obtain r d where r: "ata_identify D (disk s) = (r, d)" by (cases "ata_identify D (disk s)")
  have e: "(dcpu s)\<lparr>int_enabled := True\<rparr> = dcpu s" using assms by (simp add: phase_defs)
  have "kernel_phase (l_shell_task L) 5 (s\<lparr>disk := d, dcpu := c\<rparr>)" for c
    using quiet_next [of "l_shell_task L" 4 s, OF _ quiet_system(12) [OF phase_kernel_ok [OF assms]]] assms
    by (simp add: boot_phase_def)
  then show ?thesis using assms r e by (auto simp: boot_ata_def ata_init_def Let_def phase_defs console_system tables_loaded_def)
qed

lemma boot_step_pmm:
  assumes "boot_phase L 5 s" and "kernel_pages (l_kernel_end L) + 2 \<le> TOTAL_PAGES"
  shows "\<exists>s'. boot_pmm L s = Some s' \<and> boot_phase L 6 s'"
proof -
  have bm: "bitmap_ok (pages s)" using phase_kernel_ok [OF assms(1)] by (simp add: kernel_ok_def)
  obtain bm' where b: "pmm_init (l_kernel_end L) (pages s) = Some bm'" "bitmap_ok bm'"
    "free_set bm' = {max 256 (kernel_pages (l_kernel_end L)) ..< TOTAL_PAGES}"
    using pmm_init_eq [OF bm, of "l_kernel_end L"] assms(2) by auto
  have "pmm_ok bm'" using b by (simp add: pmm_ok_def)
  moreover have "2 \<le> card (free_set bm')" using assms(2) b(3) by (simp add: TOTAL_PAGES_eq)
  ultimately show ?thesis using assms(1) b
    by (auto simp: boot_pmm_def phase_defs console_system kernel_phase_def parked_def kernel_ok_def ready_prefix_def)
qed

lemma set_status_total:
  assumes "length (init_status s) = 5" and "i < 5"
  shows "\<exists>v. set_status i r s = Some (s\<lparr>init_status := v\<rparr>) \<and> length v = 5"
proof (cases "r = 0")
  case True
  then show ?thesis using assms by (intro exI [of _ "init_status s"]) (simp add: set_status_def)
next
  case False
  then show ?thesis using assms by (intro exI [of _ "(init_status s)[i := 1]"]) (simp add: set_status_def)
qed

lemma status_indices: "INIT_FAT32 < 5" "INIT_HEAP < 5" "INIT_ML < 5"
  by (simp_all add: INIT_FAT32_def INIT_HEAP_def INIT_ML_def)

lemma boot_step_fat:
  assumes "boot_phase L 6 s"
  shows "\<exists>s'. boot_fat D s = Some s' \<and> boot_phase L 7 s'"
proof -
  obtain r f d where r: "fat32_init D 2048 (fs s) (disk s) = Some (r, f, d)" using fat32_init_total [of D 2048 "fs s" "disk s"] by blast
  obtain v where v: "set_status INIT_FAT32 r (s\<lparr>fs := f, disk := d\<rparr>) = Some (s\<lparr>fs := f, disk := d, init_status := v\<rparr>)" "length v = 5"
    using set_status_total [of "s\<lparr>fs := f, disk := d\<rparr>" INIT_FAT32 r] assms status_indices by (auto simp: phase_defs)
  have "quiet s (s\<lparr>fs := f, disk := d, init_status := v\<rparr>)"
    using phase_kernel_ok [OF assms] by (simp add: quiet_def same_stacks_def kernel_ok_def)
  then have "kernel_phase (l_shell_task L) 7 (s\<lparr>fs := f, disk := d, init_status := v\<rparr>)"
    using quiet_next [of "l_shell_task L" 6 s] assms by (simp add: boot_phase_def)
  then show ?thesis using assms r v by (auto simp: boot_fat_def phase_defs console_system)
qed

lemma boot_step_heap:
  assumes "boot_phase L 7 s"
  shows "\<exists>s'. boot_heap s = Some s' \<and> boot_phase L 8 s'"
proof -
  have k: "pmm_ok (pages s)" "2 \<le> card (free_set (pages s))" using assms by (simp_all add: boot_phase_def kernel_phase_def)
  then have ne: "free_set (pages s) \<noteq> {}" by auto
  obtain p h bm where h: "heap_init (kheap s) (pages s) = Some (0, h, bm)" "p \<in> free_set (pages s)" "free_set bm = free_set (pages s) - {p}"
    "heap_inv h bm {p} [(of_nat p * PAGE_SIZE, 4080, 0)]"
    using heap_init_eq [OF k(1) ne, of "kheap s"] by blast
  have pm: "pmm_ok bm" using h(4) by (simp add: heap_inv_def)
  then have "bitmap_ok bm" by (simp add: pmm_ok_def)
  moreover have "1 \<le> card (free_set bm)" using k(2) h(2,3) by (simp add: card_Diff_singleton)
  ultimately show ?thesis using assms h pm
    by (auto simp: boot_heap_def set_status_def phase_defs console_system kernel_phase_def parked_def kernel_ok_def ready_prefix_def)
qed

lemma boot_step_sched:
  assumes "boot_phase L 8 s"
  shows "\<exists>s'. scheduler_init s = Some s' \<and> boot_phase L 9 s'"
proof -
  have k: "kernel_ok s" "net_ok (weights s)" "pmm_ok (pages s)" "switch_pending (sch s) = 0"
    using assms by (simp_all add: boot_phase_def kernel_phase_def parked_def)
  obtain s' where s': "scheduler_init s = Some s'" "boot_ok s' (\<lambda>_. entry_context 0 0)" "\<forall>i<8. state (tasks s' ! i) = TASK_DEAD"
    using scheduler_init_ok [OF k] by blast
  obtain ts where ts: "s' = s\<lparr>tasks := ts, sch := (sch s)\<lparr>task_count := 0, current_task := 0\<rparr>\<rparr>"
    using s'(1) by (auto simp: scheduler_init_def split: Option.bind_splits)
  have "parked s'" using s'(2,3) by (simp add: parked_def boot_ok_def)
  moreover have "pages s' = pages s" "task_count (sch s') = 0" "console_ok s'" "table_phase L 9 s'" "heap_phase 9 s'"
    using assms by (simp_all add: ts phase_defs console_system)
  ultimately show ?thesis using assms s'
    by (auto simp: boot_phase_def kernel_phase_def ready_prefix_def)
qed

lemma boot_step_weights:
  assumes "boot_phase L 9 s" and "boot_weights D buf s = Some s'"
  shows "boot_phase L 10 s'"
proof -
  obtain r w d where r: "ml_weights_load D buf (fs s) (weights s) (disk s) = Some (r, w, d)"
    "set_status INIT_ML r (s\<lparr>weights := w, disk := d\<rparr>) = Some s'"
    using assms(2) by (auto simp: boot_weights_def split: Option.bind_splits)
  obtain v where v: "s' = s\<lparr>weights := w, disk := d, init_status := v\<rparr>" "length v = 5"
    using set_status_total [of "s\<lparr>weights := w, disk := d\<rparr>" INIT_ML r] assms(1) status_indices r(2) by (auto simp: phase_defs)
  have "net_ok (weights s)" using assms(1) by (simp add: boot_phase_def kernel_phase_def parked_def)
  then have n: "net_ok w" using ml_weights_load_ok [OF r(1)] by blast
  have b: "boot_ok s' g" if "boot_ok s g" for g
    using that n by (simp add: v boot_ok_def kernel_ok_def stacks_ok_def live_def suspended_def)
  then have "\<exists>g. boot_ok s' g" using assms(1) by (auto simp: boot_phase_def kernel_phase_def)
  moreover have "parked s'" using assms(1) n by (simp add: v boot_phase_def kernel_phase_def parked_def kernel_ok_def)
  ultimately show ?thesis using assms(1) v(2)
    by (simp add: boot_phase_def kernel_phase_def) (simp add: v table_phase_def heap_phase_def console_system ready_prefix_def)
qed

lemma boot_step_task:
  assumes "boot_phase L 10 s"
  shows "\<exists>s'. task_create (l_shell_task L) 5 s = Some s' \<and> boot_phase L 11 s'"
proof -
  have p: "parked s" "ready_prefix 0 s" "1 \<le> card (free_set (pages s))" "task_count (sch s) = 0" "\<exists>g. boot_ok s g" "pmm_ok (pages s)"
    using assms by (simp_all add: boot_phase_def kernel_phase_def)
  then obtain g where g: "boot_ok s g" by blast
  have ne: "free_set (pages s) \<noteq> {}" using p(3) by auto
  obtain s' page where s': "task_create (l_shell_task L) 5 s = Some s'" "boot_ok s' (g(0 := entry_context (l_shell_task L) page))"
    "ready_prefix 1 s'" "stack (tasks s' ! 0) = page" "task_count (sch s') = 1"
    using task_create_next [OF g p(2) _ ne, of "l_shell_task L" 5] p(4) by auto
  have k: "length (tasks s) = 8" "bitmap_ok (pages s)" using g by (simp_all add: boot_ok_def kernel_ok_def)
  obtain n where n: "Pmm.first_free (pages s) = Some n" using ne by (cases "Pmm.first_free (pages s)") (auto simp: Pmm.first_free_None)
  then have nf: "n < TOTAL_PAGES" "n \<in> free_set (pages s)" by (auto simp: Pmm.first_free_Some free_set_def page_free_def)
  have n0: "0 < n" using nf(2) p(6) by (metis gr0I pmm_ok_def)
  have dead: "state (tasks s ! 0) = TASK_DEAD" using p(2) by (simp add: ready_prefix_def)
  obtain m ts x where up: "s' = s\<lparr>pages := mark_used (pages s) n, stackmem := m, tasks := ts, sch := x\<rparr>"
    using task_create_run [OF k _ dead _ n n0, of "l_shell_task L" 5] s'(1) by (auto simp: Let_def)
  have fewer: "free_set (pages s') \<subseteq> free_set (pages s)" using k(2) nf(1) by (auto simp: up)
  have "parked s'" using s'(2,3) by (auto simp: parked_def boot_ok_def ready_prefix_def)
  moreover have "shell_ready (l_shell_task L) s'" using s'(2-5) unfolding shell_ready_def by (metis fun_upd_same)
  moreover have pm: "pmm_ok (pages s')" using s'(2) by (simp add: boot_ok_def)
  ultimately have "kernel_phase (l_shell_task L) 11 s'" by (simp add: kernel_phase_def)
  moreover have "heap_phase 11 s'"
  proof -
    obtain p where h: "heap_inv (kheap s) (pages s) {p} [(of_nat p * PAGE_SIZE, 4080, 0)]" using assms by (auto simp: boot_phase_def heap_phase_def)
    then have "p < TOTAL_PAGES" "p \<noteq> n" using nf(2) by (auto simp: heap_inv_def)
    then have "unat (of_nat n * PAGE_SIZE) \<noteq> unat (of_nat p * PAGE_SIZE)" using unat_page nf(1) by simp
    moreover have "stack (tasks s' ! 0) = of_nat n * PAGE_SIZE"
      using task_create_run [OF k _ dead _ n n0, of "l_shell_task L" 5] s'(1) k(1) by (auto simp: Let_def)
    ultimately have "stack (tasks s' ! 0) \<noteq> of_nat p * PAGE_SIZE" by metis
    then show ?thesis using heap_inv_fewer [OF h fewer pm] by (auto simp: heap_phase_def up)
  qed
  ultimately show ?thesis using assms s'(1) by (simp add: boot_phase_def) (simp add: up table_phase_def console_system)
qed

lemma print_boot_total:
  fixes s :: "('d, 'b) system_scheme"
  assumes "printable msg" and "kernel_ok s" and "console_ok s"
  shows "\<exists>s'. print_boot msg row col color s = Some s' \<and> interrupted s s' \<and> console_ok s'"
  using assms interrupted_same(1) [OF assms(2)]
  by (simp add: print_boot_def print_at_lit console_ok_def ring_upd)

lemma clear_screen_quiet:
  fixes s :: "('d, 'b) system_scheme"
  assumes "kernel_ok s" and "console_ok s"
  shows "\<exists>s'. clear_screen s = Some s' \<and> interrupted s s' \<and> console_ok s'"
proof -
  obtain s' where s': "clear_screen s = Some s'" using clear_screen_total by blast
  then have f: "screen_frame s s'" using clear_screen_frame by blast
  then have k: "same_keyboard s s'" by (simp add: screen_frame_def)
  have "interrupted s s'" by (rule interrupted_typed [OF assms(1) typed_more [OF screen_frame_more [OF f]]])
  then show ?thesis using s' same_keyboard_fields [OF k] assms(2) by (simp add: console_ok_def)
qed

lemma offline_quiet:
  fixes s :: "('d, 'b) system_scheme"
  assumes "kernel_ok s" and "console_ok s"
  shows "\<exists>s'. ai_kernel_offline s = Some s' \<and> interrupted s s' \<and> console_ok s'"
proof -
  let ?u = "s\<lparr>ai := (ai s)\<lparr>ai_online := 0\<rparr>\<rparr>"
  have ok: "kernel_ok ?u" "console_ok ?u" using assms by (simp_all add: kernel_ok_def ai_ok_def console_ok_def ring_ok_def editor_ok_def)
  have "interrupted s ?u" using ok(1) by (simp add: interrupted_def quiet_def same_stacks_def)
  moreover have "printable ''[PRAJNA] offline -- manual mode''" by (simp add: printable_def lit_def)
  ultimately show ?thesis using print_boot_total [OF _ ok, of "''[PRAJNA] offline -- manual mode''" 14 0 "0x04"]
    by (auto simp: ai_kernel_offline_def print_boot_def intro: interrupted_trans)
qed

text \<open>Running one quiet action after another.\<close>

definition goes_quietly :: "('d, 'b) system_scheme \<Rightarrow> ('d, 'b) system_scheme option \<Rightarrow> bool" where
  "goes_quietly s m \<longleftrightarrow> kernel_ok s \<and> console_ok s \<longrightarrow> (\<exists>s'. m = Some s' \<and> interrupted s s' \<and> console_ok s')"

lemma quietly_bind:
  assumes "goes_quietly s m" and "\<And>t. system.more t = system.more s \<Longrightarrow> goes_quietly t (f t)"
  shows "goes_quietly s (m \<bind> f)"
  unfolding goes_quietly_def
proof
  assume ok: "kernel_ok s \<and> console_ok s"
  then obtain t where t: "m = Some t" "interrupted s t" "console_ok t" using assms(1) by (auto simp: goes_quietly_def)
  then obtain u where "f t = Some u" "interrupted t u" "console_ok u"
    using assms(2) [of t] interrupted_keeps_ok [OF t(2)] by (auto simp: goes_quietly_def interrupted_def)
  then show "\<exists>s'. m \<bind> f = Some s' \<and> interrupted s s' \<and> console_ok s'" using t interrupted_trans by auto
qed

lemma quietly_rules:
  "printable msg \<Longrightarrow> goes_quietly s (print_boot msg row col color s)" "goes_quietly s (clear_screen s)" "goes_quietly s (ai_kernel_offline s)"
  "goes_quietly s m \<Longrightarrow> goes_quietly s m' \<Longrightarrow> goes_quietly s (if b then m else m')" "goes_quietly s (Some s)"
proof -
  show "printable msg \<Longrightarrow> goes_quietly s (print_boot msg row col color s)"
    using print_boot_total [of msg s row col color] by (auto simp: goes_quietly_def)
  show "goes_quietly s (clear_screen s)" using clear_screen_quiet [of s] by (auto simp: goes_quietly_def)
  show "goes_quietly s (ai_kernel_offline s)" using offline_quiet [of s] by (auto simp: goes_quietly_def)
  show "goes_quietly s m \<Longrightarrow> goes_quietly s m' \<Longrightarrow> goes_quietly s (if b then m else m')" by simp
  show "goes_quietly s (Some s)" by (simp add: goes_quietly_def interrupted_def quiet_def)
qed

lemma printable_boot:
  "printable ''.....PrajnaOS.....''" "printable ''[PRAJNA] FAT32     : FAILED''" "printable ''[PRAJNA] FAT32     : mounted''"
  "printable ''[PRAJNA] ML model  : FAILED''" "printable ''[PRAJNA] ML model  : loaded''" "printable ''[PRAJNA] Heap      : FAILED''"
  "printable (fst (state_message st))"
  by (simp_all add: printable_def lit_def state_message_def)

lemma greeting_quietly:
  fixes s :: "('d, 'b) machine_scheme"
  assumes "length (init_status s) = 5"
  shows "goes_quietly s (boot_time_greeting s)"
proof -
  have st: "arr_get (init_status t) i = Some (init_status s ! i)" if "system.more t = system.more s" "i < 5" for i and t :: "('d, 'b) machine_scheme"
    using machine_same(5) [OF that(1)] that(2) assms by simp
  have msg: "(case state_message v of (msg, color) \<Rightarrow> print_boot msg 5 0 color u) = print_boot (fst (state_message v)) 5 0 (snd (state_message v)) u"
    for v and u :: "('d, 'b) machine_scheme" by (simp add: case_prod_beta)
  show ?thesis
    unfolding boot_time_greeting_def msg Let_def
    by (intro quietly_bind quietly_rules printable_boot | simp only: st status_indices Option.bind.bind_lunit)+
qed

lemma interrupted_next:
  assumes "boot_phase L k s" and "interrupted s s'" and "console_ok s'" and "11 \<le> k" and "k < 16"
  shows "boot_phase L (Suc k) s'"
proof -
  have "k \<in> {0, 1, 2, 3, 4, 6, 11, 12, 13, 14, 15}" using assms(4,5) by (simp only: insert_iff empty_iff) presburger
  then have "kernel_phase (l_shell_task L) (Suc k) s'"
    using quiet_next [of "l_shell_task L" k s s'] assms(1,2) by (simp only: boot_phase_def interrupted_def)
  moreover have "boot_phase L k s'" using interrupted_phase [OF assms(1-3)] .
  ultimately show ?thesis using assms(4) by (simp add: boot_phase_def table_phase_def heap_phase_def)
qed

lemma boot_step_greeting:
  assumes "boot_phase L 11 s"
  shows "\<exists>s'. boot_time_greeting s = Some s' \<and> boot_phase L 12 s'"
proof -
  have "length (init_status s) = 5" "console_ok s" using assms by (simp_all add: phase_defs)
  then obtain s' where "boot_time_greeting s = Some s'" "interrupted s s'" "console_ok s'"
    using greeting_quietly [of s] phase_kernel_ok [OF assms] by (auto simp: goes_quietly_def)
  then show ?thesis using interrupted_next [OF assms, of s'] by simp
qed

lemma boot_step_wait_start:
  assumes "boot_phase L 12 s"
  shows "\<exists>s'. boot_wait_start s = Some s' \<and> boot_phase L 13 s'"
  using quiet_next [of "l_shell_task L" 12 s, OF _ quiet_system(8) [OF phase_kernel_ok [OF assms]]] assms
  by (simp add: boot_wait_start_def phase_defs console_system)

lemma boot_step_clear:
  assumes "boot_phase L 14 s"
  shows "\<exists>s'. clear_screen s = Some s' \<and> boot_phase L 15 s'"
proof -
  have "console_ok s" using assms by (simp add: phase_defs)
  from clear_screen_quiet [OF phase_kernel_ok [OF assms] this] obtain s' where
    "clear_screen s = Some s'" "interrupted s s'" "console_ok s'" by blast
  then show ?thesis using interrupted_next [OF assms, of s'] by simp
qed

lemma boot_step_bar:
  assumes "boot_phase L 15 s"
  shows "\<exists>s'. draw_top_bar s = Some s' \<and> boot_phase L 16 s'"
proof -
  have ok: "kernel_ok s" "console_ok s" using phase_kernel_ok [OF assms] assms by (simp_all add: phase_defs)
  obtain v where v: "draw_top_bar s = Some (s\<lparr>vga := v\<rparr>)" using draw_top_bar_eq [OF ok(1)] by blast
  have "console_ok (s\<lparr>vga := v\<rparr>)" using ok(2) by (simp add: console_ok_def ring_upd)
  then show ?thesis using v interrupted_next [OF assms interrupted_same(1) [OF ok(1)], of v] by simp
qed

definition bounded_kernel :: "linked \<Rightarrow> bool" where
  "bounded_kernel L \<longleftrightarrow> kernel_pages (l_kernel_end L) + 2 \<le> TOTAL_PAGES"

lemma boot_seq_length: "length (boot_seq D buf L) = 16"
  by (simp add: boot_seq_def)

text \<open>Every step but the loading of the weights and the wait can be taken; every step taken leads to the next phase.\<close>

lemma boot_step_total:
  fixes s :: "('d, 'b) machine_scheme"
  assumes "boot_phase L k s" and "k < 16" and "k \<noteq> 9" and "k \<noteq> 13" and "bounded_kernel L"
  shows "\<exists>f s'. boot_seq D buf L ! k = Once f \<and> f s = Some s' \<and> boot_phase L (Suc k) s'"
proof -
  note size = assms(5) [unfolded bounded_kernel_def]
  have "k \<in> {0, 1, 2, 3, 4, 5, 6, 7, 8, 10, 11, 12, 14, 15}" using assms(2-4) by (simp only: insert_iff empty_iff) presburger
  then show ?thesis using assms(1)
    by (elim insertE emptyE)
       (simp_all add: boot_seq_def boot_step_cli [simplified] boot_step_gdt [simplified, unfolded numeral_2_eq_2] boot_step_idt
          boot_step_pit boot_step_ata boot_step_pmm [OF _ size] boot_step_fat boot_step_heap boot_step_sched boot_step_task
          boot_step_greeting boot_step_wait_start boot_step_clear boot_step_bar)
qed

section \<open>Runs\<close>

lemma boot_seq_wait: "k < 16 \<Longrightarrow> boot_seq D buf L ! k = Wait_for t \<longleftrightarrow> k = 13 \<and> t = 5"
proof -
  assume "k < 16"
  then have "k \<in> {0, 1, 2, 3, 4, 5, 6, 7, 8, 9, 10, 11, 12, 13, 14, 15}" by (simp only: insert_iff empty_iff) presburger
  then show ?thesis by (elim insertE emptyE) (auto simp: boot_seq_def)
qed

lemma boot_seq_weights: "boot_seq D buf L ! 9 = Once (boot_weights D buf)" "boot_seq D buf L ! 13 = Wait_for 5"
  by (simp_all add: boot_seq_def)

lemma phase_parked: "boot_phase L k s \<Longrightarrow> parked s \<and> console_ok s"
  by (simp add: boot_phase_def kernel_phase_def)

lemma boot_keeps_phase:
  assumes "boot D J buf L x y" and "boot_phase L (fst x) (snd x)" and "bounded_kernel L"
  shows "boot_phase L (fst y) (snd y)"
  using assms(1)
proof cases
  case (once k f s s')
  then have k: "k < 16" "boot_phase L k s" using assms(2) by (simp_all add: boot_seq_length)
  have "boot_phase L (Suc k) s'"
  proof (cases "k = 9")
    case True
    then show ?thesis using boot_step_weights [of L s D buf s'] once(4,5) k(2) by (simp add: boot_seq_weights)
  next
    case False
    have "k \<noteq> 13" using once(4) by (auto simp: boot_seq_weights)
    then show ?thesis using boot_step_total [OF k(2,1) False _ assms(3), of D buf] once(4,5) by auto
  qed
  then show ?thesis using once by simp
next
  case (waited k t s)
  then have k: "k = 13" "boot_phase L k s" using assms(2) boot_seq_wait [of k D buf L t] by (auto simp: boot_seq_length)
  have "interrupted s s" using phase_kernel_ok [OF k(2)] by (simp add: interrupted_def quiet_def)
  then show ?thesis using interrupted_next [OF k(2), of s] k phase_parked [OF k(2)] waited by simp
next
  case (timer s c c' s' k)
  then have ph: "boot_phase L k s" using assms(2) by simp
  show ?thesis using boot_timer [of s D J c False c' s'] phase_parked [OF ph] timer interrupted_phase [OF ph, of s'] by simp
next
  case (key s sc s' k)
  then have ph: "boot_phase L k s" using assms(2) by simp
  have "typed s s'" "console_ok s'" using boot_key [of s sc s'] phase_parked [OF ph] key by simp_all
  then show ?thesis using interrupted_phase [OF ph interrupted_typed [OF phase_kernel_ok [OF ph]]] key by simp
qed

lemma bss_machine_fields:
  "tasks (bss_machine d c) = replicate 8 zero_task" "sch (bss_machine d c) = sch bss_kernel" "pages (bss_machine d c) = pages bss_kernel"
  "ai (bss_machine d c) = ai_init" "weights (bss_machine d c) = weights bss_kernel" "input_buf (bss_machine d c) = replicate 256 0"
  "scancode_buffer (bss_machine d c) = replicate 16 0" "scancode_head (bss_machine d c) = 0" "scancode_tail (bss_machine d c) = 0"
  "length (gdt_tab (bss_machine d c)) = 3" "length (idt_tab (bss_machine d c)) = 256" "length (init_status (bss_machine d c)) = 5"
  "\<not> int_enabled (dcpu (bss_machine d c))"
  by (simp_all add: bss_machine_def bss_system_def kernel.extend_def system.extend_def bss_kernel_def system.fields_def
      machine.fields_def MAX_TASKS_def BUF_SIZE_def)

lemma boot_phase_start: "boot_phase L 0 (bss_machine d c)"
proof -
  have "kernel_ok (bss_machine d c)" using kernel_ok_bss
    by (simp add: kernel_ok_def bss_machine_fields) (simp add: bss_kernel_def MAX_TASKS_def)
  moreover have "net_ok (weights bss_kernel)" "switch_pending (sch bss_kernel) = 0" "current_task (sch bss_kernel) = 0"
    by (simp_all add: bss_kernel_def net_ok_def)
  moreover have "state zero_task = TASK_DEAD" by (simp add: zero_task_def TASK_DEAD_def)
  ultimately have "kernel_phase (l_shell_task L) 0 (bss_machine d c)"
    by (simp add: kernel_phase_def parked_def bss_machine_fields ready_prefix_def)
  then show ?thesis by (simp add: phase_defs console_ok_def ring_ok_def editor_ok_def bss_machine_fields)
qed

lemma reachable_phase:
  assumes "(boot D J buf L)\<^sup>*\<^sup>* (0, bss_machine d c) (k, s)" and "bounded_kernel L"
  shows "boot_phase L k s \<and> k \<le> 16"
proof -
  have "boot_phase L (fst x) (snd x) \<and> fst x \<le> 16" if "(boot D J buf L)\<^sup>*\<^sup>* (0, bss_machine d c) x" for x
    using that
  proof (induction rule: rtranclp_induct)
    case (step y z)
    moreover have "fst z \<le> 16" using step.hyps(2) step.IH by cases (auto simp: boot_seq_length)
    ultimately show ?case using boot_keeps_phase assms(2) by blast
  qed (simp add: boot_phase_start)
  from this [OF assms(1)] show ?thesis by simp
qed

section \<open>The boot sequence comes to its end\<close>

text \<open>No step touches the keys waiting in the ring: the contract \<open>console_frame\<close> of the shell's commands, for the relation \<open>same_ring\<close>.\<close>

definition same_ring :: "'a console_scheme \<Rightarrow> 'a console_scheme \<Rightarrow> bool" where
  "same_ring s s' \<longleftrightarrow> ring s' = ring s"

interpretation keyb: console_frame same_ring
  by unfold_locales (auto simp: same_ring_def screen_frame_def dest: same_keyboard_fields)

lemma same_ring_upd:
  fixes s :: "('d, 'b) machine_scheme"
  shows "same_ring s (s\<lparr>vga := v\<rparr>)" "same_ring s (s\<lparr>outs := p\<rparr>)" "same_ring s (s\<lparr>dcpu := c\<rparr>)" "same_ring s (s\<lparr>wait_start := w\<rparr>)"
    "same_ring s (s\<lparr>ai := a\<rparr>)"
  by (simp_all add: same_ring_def ring_def ring_len_def)

lemma print_at_ring: "keeps same_ring s (print_at msg row col color s)"
  by (auto simp: keeps_def print_at_def same_ring_def ring_upd split: Option.bind_splits)

lemma greeting_ring: "keeps same_ring s (boot_time_greeting s)"
proof -
  have off: "keeps same_ring t (ai_kernel_offline t)" for t :: "('d, 'b) machine_scheme"
    using print_at_ring [of "t\<lparr>ai := (ai t)\<lparr>ai_online := 0\<rparr>\<rparr>" "cstr ''[PRAJNA] offline -- manual mode''" 14 0 "0x04"]
    by (auto simp: keeps_def ai_kernel_offline_def same_ring_def ring_def ring_len_def)
  show ?thesis
    unfolding boot_time_greeting_def print_boot_def Let_def
    by (intro keyb.bind_state keyb.bind_value keyb.pair keyb.test keyb.clear off print_at_ring keyb.some keyb.refl)
qed

lemma bar_ring: "kernel_ok s \<Longrightarrow> keeps same_ring s (draw_top_bar s)"
  using draw_top_bar_eq [of s] by (auto simp: keeps_def same_ring_def ring_upd)

lemma set_status_ring: "set_status i r s = Some s' \<Longrightarrow> ring s' = ring s"
  by (auto simp: set_status_def ring_def ring_len_def split: if_splits Option.bind_splits)

lemma boot_op_ring:
  fixes s :: "('d, 'b) machine_scheme"
  assumes "k < 16" and "boot_seq D buf L ! k = Once f" and "f s = Some s'" and "kernel_ok s"
  shows "ring s' = ring s"
proof -
  have screen: "clear_screen s = Some s' \<Longrightarrow> ring s' = ring s" "boot_time_greeting s = Some s' \<Longrightarrow> ring s' = ring s"
    "draw_top_bar s = Some s' \<Longrightarrow> ring s' = ring s"
    using keyb.clear [of s] greeting_ring [of s] bar_ring [OF assms(4)] by (simp_all add: keeps_def same_ring_def)
  note r [simp] = ring_def ring_len_def
  have plain: "boot_cli s = Some s' \<Longrightarrow> ring s' = ring s" "boot_gdt L s = Some s' \<Longrightarrow> ring s' = ring s"
    "boot_idt L s = Some s' \<Longrightarrow> ring s' = ring s" "pit_init 100 s = Some s' \<Longrightarrow> ring s' = ring s"
    "boot_ata D s = Some s' \<Longrightarrow> ring s' = ring s" "boot_pmm L s = Some s' \<Longrightarrow> ring s' = ring s"
    "scheduler_init s = Some s' \<Longrightarrow> ring s' = ring s" "boot_wait_start s = Some s' \<Longrightarrow> ring s' = ring s"
    by (auto simp: boot_cli_def boot_fpu_def boot_gdt_def boot_idt_def pit_init_def outb_def boot_ata_def boot_pmm_def scheduler_init_def
        boot_wait_start_def Let_def split: Option.bind_splits prod.splits)
  have status: "boot_fat D s = Some s' \<Longrightarrow> ring s' = ring s" "boot_heap s = Some s' \<Longrightarrow> ring s' = ring s"
    "boot_weights D buf s = Some s' \<Longrightarrow> ring s' = ring s"
    by (auto simp: boot_fat_def boot_heap_def boot_weights_def split: Option.bind_splits dest!: set_status_ring)
  have task: "task_create e p s = Some s' \<Longrightarrow> ring s' = ring s" for e p
    by (auto simp: task_create_def Let_def split: Option.bind_splits sum.splits if_splits)
  have "Once f \<in> set (boot_seq D buf L)"
    unfolding assms(2) [symmetric] by (rule nth_mem) (simp add: boot_seq_length assms(1))
  then have "f \<in> {boot_cli, boot_gdt L, boot_idt L, pit_init 100, boot_ata D, boot_pmm L, boot_fat D, boot_heap, scheduler_init,
      boot_weights D buf, task_create (l_shell_task L) 5, boot_time_greeting, boot_wait_start, clear_screen, draw_top_bar}"
    by (simp add: boot_seq_def)
  then show ?thesis using assms(3) by (elim insertE emptyE) (simp_all only: screen plain status task)
qed

text \<open>The wait ends after at most 500 timer interrupts.\<close>

lemma boot_wait_ends:
  fixes s :: "('d, 'b) machine_scheme"
  assumes "boot_phase L 13 s" and "0x1C \<notin> set (ring s)"
  shows "\<exists>s'. (boot D J buf L)\<^sup>*\<^sup>* (13, s) (14, s') \<and> boot_phase L 14 s' \<and> 0x1C \<notin> set (ring s')"
  using assms
proof (induction "500 - unat (ticks s - wait_start s)" arbitrary: s rule: less_induct)
  case less
  note pk = phase_parked [OF less.prems(1)]
  show ?case
  proof (cases "ticks s - wait_start s < 500")
    case False
    then have "boot D J buf L (13, s) (Suc 13, s)"
      by (intro boot.waited [of 13 _ _ _ 5]) (simp_all add: boot_seq_length boot_seq_weights pit_get_ticks_def)
    moreover have "interrupted s s" using phase_kernel_ok [OF less.prems(1)] by (simp add: interrupted_def quiet_def)
    ultimately show ?thesis using interrupted_next [OF less.prems(1), of s] pk less.prems(2) by auto
  next
    case True
    obtain s' where t: "pit_handler (shell_handle D J) undefined s = Some (False, undefined, s')"
      using boot_timer_returns pk less.prems(2) by blast
    note b = boot_timer [OF pk [THEN conjunct1] pk [THEN conjunct2] t]
    have ph: "boot_phase L 13 s'" using interrupted_phase [OF less.prems(1)] b by blast
    have "int_enabled (dcpu s)" using less.prems(1) by (simp add: phase_defs)
    then have st: "boot D J buf L (13, s) (13, s')" using t by (rule boot.timer)
    have "ticks s' - wait_start s' = (ticks s - wait_start s) + 1"
      using b machine_same(6) [of s' s] by (simp add: interrupted_def)
    moreover have "unat ((ticks s - wait_start s) + 1) = unat (ticks s - wait_start s) + 1" "unat (ticks s - wait_start s) < 500"
      using True by (simp_all add: word_less_nat_alt unat_word_ariths)
    ultimately have "500 - unat (ticks s' - wait_start s') < 500 - unat (ticks s - wait_start s)" by simp
    from less.hyps [OF this ph] b st show ?thesis by (auto intro: converse_rtranclp_into_rtranclp)
  qed
qed

lemma boot_next:
  fixes s :: "('d, 'b) machine_scheme"
  assumes "boot_phase L k s" and "k < 16" and "0x1C \<notin> set (ring s)" and "bounded_kernel L"
    and "k = 9 \<Longrightarrow> boot_weights D buf s \<noteq> None"
  shows "\<exists>s'. (boot D J buf L)\<^sup>*\<^sup>* (k, s) (Suc k, s') \<and> boot_phase L (Suc k) s' \<and> 0x1C \<notin> set (ring s')"
proof -
  have once: ?thesis if f: "boot_seq D buf L ! k = Once f" "f s = Some s'" "boot_phase L (Suc k) s'" for f s'
  proof -
    have "boot D J buf L (k, s) (Suc k, s')" by (rule boot.once [OF _ f(1,2)]) (simp add: boot_seq_length assms(2))
    then show ?thesis using boot_op_ring [OF assms(2) f(1,2) phase_kernel_ok [OF assms(1)]] assms(3) f(3) by auto
  qed
  consider "k = 9" | "k = 13" | "k \<noteq> 9" "k \<noteq> 13" by blast
  then show ?thesis
  proof cases
    case 1
    then obtain s' where s': "boot_weights D buf s = Some s'" using assms(5) by auto
    from boot_step_weights [OF _ s'] 1 assms(1) once [of "boot_weights D buf"] s' show ?thesis by (simp add: boot_seq_weights)
  next
    case 2
    then show ?thesis using boot_wait_ends [of L s D J buf] assms(1,3) by simp
  next
    case 3
    then show ?thesis using boot_step_total [OF assms(1,2) 3 assms(4), of D buf] once by blast
  qed
qed

lemma boot_runs_on:
  fixes s :: "('d, 'b) machine_scheme"
  assumes "boot_phase L k s" and "k \<le> 16" and "0x1C \<notin> set (ring s)" and "bounded_kernel L"
    and "\<And>t. (boot D J buf L)\<^sup>*\<^sup>* (k, s) (9, t) \<Longrightarrow> boot_weights D buf t \<noteq> None"
  shows "\<exists>s'. (boot D J buf L)\<^sup>*\<^sup>* (k, s) (16, s')"
  using assms
proof (induction "16 - k" arbitrary: k s)
  case 0
  then show ?case by auto
next
  case (Suc n)
  then have k: "k < 16" by simp
  have w: "boot_weights D buf s \<noteq> None" if "k = 9" using Suc.prems(5) that by blast
  obtain t where t: "(boot D J buf L)\<^sup>*\<^sup>* (k, s) (Suc k, t)" "boot_phase L (Suc k) t" "0x1C \<notin> set (ring t)"
    using boot_next [OF Suc.prems(1) k Suc.prems(3,4) w, of J] by blast
  have n: "n = 16 - Suc k" "Suc k \<le> 16" using Suc.hyps(2) k by simp_all
  obtain s' where "(boot D J buf L)\<^sup>*\<^sup>* (Suc k, t) (16, s')"
    using Suc.hyps(1) [OF n(1) t(2) n(2) t(3) Suc.prems(4)] Suc.prems(5) rtranclp_trans [OF t(1)] by blast
  then show ?case using rtranclp_trans [OF t(1)] by blast
qed

lemma scheduler_start_states:
  assumes "scheduler_start c s = Some (c', s')" and "length (tasks s) = 8" and "ready_prefix 1 s"
  shows "state (tasks s' ! 0) = TASK_RUNNING \<and> (\<forall>i<8. 0 < i \<longrightarrow> state (tasks s' ! i) = TASK_DEAD) \<and>
     stack (tasks s' ! 0) = stack (tasks s ! 0) \<and> pages s' = pages s \<and> task_count (sch s') = task_count (sch s) \<and>
     current_task (sch s') = 0 \<and> switch_pending (sch s') = switch_pending (sch s)"
  using assms
  by (auto simp: scheduler_start_def ready_prefix_def Let_def nth_list_update split: Option.bind_splits prod.splits)

lemma scheduler_start_machine:
  fixes s :: "('d, 'b) machine_scheme"
  assumes "scheduler_start c s = Some (c', s')"
  shows "system.more s' = system.more s \<and> (console_ok s \<longrightarrow> console_ok s')"
  using assms by (auto simp: scheduler_start_def console_system Let_def split: Option.bind_splits prod.splits)

text \<open>A drive that does not answer: every port reads as ones.\<close>

definition no_drive :: "unit ata_device" where
  "no_drive = \<lparr>dev_inb = (\<lambda>_ d. (0xFF, d)), dev_inw = (\<lambda>_ d. (0xFFFF, d)), dev_outb = (\<lambda>_ _ d. d), dev_outw = (\<lambda>_ _ d. d)\<rparr>"

lemma no_drive_read: "ata_read_sector no_drive lba off buf d = Some (1, buf, ())"
proof -
  have st: "fst (dev_inb no_drive ATA_STATUS e) = 0xFF" for e by (simp add: no_drive_def)
  have "fst (ata_poll no_drive e) = 1" for e using ata_poll_constant [of no_drive "0xFF", OF st] by (simp add: ATA_SR_ERR_def)
  then obtain e' where "ata_poll no_drive (select_lba no_drive lba ATA_CMD_READ d) = (1, e')" by (metis prod.collapse)
  then show ?thesis by (simp add: ata_read_sector_def Let_def)
qed

lemma no_drive_find: "fat32_find_file no_drive f name ext d = Some (None, ())"
proof -
  have next_end: "fat_next_cluster no_drive f c e = Some (0x0FFFFFFF, ())" for c e
    by (simp add: fat_next_cluster_def no_drive_read Let_def)
  have end_found: "find_file_from no_drive f name ext 0x0FFFFFFF e = Some (None, e)" for e
    by (subst find_file_from.simps) (simp add: END_OF_CHAIN_def)
  have cl: "find_in_cluster no_drive f name ext lba e = Some (if unat (sectors_per_cluster f) = 0 then Inr e else Inl (None, ()))" for lba e
    by (cases "unat (sectors_per_cluster f)") (simp_all add: find_in_cluster_def no_drive_read upt_rec del: upt_Suc)
  show ?thesis unfolding fat32_find_file_def
    by (subst find_file_from.simps) (auto simp: cl next_end end_found)
qed

lemma no_drive_weights: "length (init_status s) = 5 \<Longrightarrow> boot_weights no_drive buf s \<noteq> None"
  by (simp add: boot_weights_def ml_weights_load_def no_drive_find set_status_def INIT_ML_def)

text \<open>Addresses as the linker could assign them, and registers as the boot loader could leave them.\<close>

definition link_map :: linked where
  "link_map = \<lparr>l_kernel_end = 0x120000, l_gdt = 0x110000, l_idt = 0x110020, l_isr_default = 0x100100, l_isr_timer = 0x100110,
     l_isr_keyboard = 0x100120, l_shell_task = 0x100200\<rparr>"

lemma link_map_bounded: "bounded_kernel link_map"
  by (simp add: bounded_kernel_def kernel_pages_eq link_map_def TOTAL_PAGES_eq)

definition grub :: left_over where
  "grub = \<lparr>lo_cpu = \<lparr>gdtr = \<lparr>gp_limit = 0, gp_base = 0\<rparr>, idtr = \<lparr>gp_limit = 0, gp_base = 0\<rparr>, cs = 8, data_segs = 16, int_enabled = False\<rparr>,
     lo_cr0 = 0x11, lo_fpu = 0\<rparr>"

lemma ring_bss_machine: "ring (bss_machine d r) = []"
  by (simp add: ring_def ring_len_def bss_machine_fields)


lemma no_drive_loader_returns:
  assumes "(boot no_drive junk (replicate 512 0) link_map)\<^sup>*\<^sup>* (0, bss_machine () grub) (9, t)"
  shows "boot_weights no_drive (replicate 512 0) t \<noteq> None"
  using reachable_phase [OF assms link_map_bounded] by (intro no_drive_weights) (simp add: phase_defs)

lemma no_drive_boots: "\<exists>s. (boot no_drive junk (replicate 512 0) link_map)\<^sup>*\<^sup>* (0, bss_machine () grub) (16, s)"
proof -
  have "0x1C \<notin> set (ring (bss_machine () grub))" by (simp add: ring_bss_machine)
  then show ?thesis using boot_runs_on [OF boot_phase_start _ _ link_map_bounded no_drive_loader_returns] by auto
qed

section \<open>Properties\<close>



text \<open>
  C18: The boot sequence can always be completed: from every state it can reach in which no Enter is
  waiting in the ring, the remaining steps can be taken to the end - no step traps, the wait is
  over after at most 500 timer interrupts, and these return - provided the loader of the weights
  returns from the states in which it is called.
\<close>

theorem boot_completes:
  assumes "(boot D J buf L)\<^sup>*\<^sup>* (0, bss_machine d r) (k, s)" and "bounded_kernel L" and "0x1C \<notin> set (ring s)"
    and "\<And>t. (boot D J buf L)\<^sup>*\<^sup>* (k, s) (9, t) \<Longrightarrow> boot_weights D buf t \<noteq> None"
  shows "\<exists>s'. (boot D J buf L)\<^sup>*\<^sup>* (k, s) (16, s')"
  using boot_runs_on [OF _ _ assms(3,2,4)] reachable_phase [OF assms(1,2)] by blast

lemma boot_completes_witness:
  "\<exists>s'. (boot no_drive junk (replicate 512 0) link_map)\<^sup>*\<^sup>* (0, bss_machine () grub) (16, s')"
  by (rule boot_completes [OF rtranclp.rtrancl_refl link_map_bounded _ no_drive_loader_returns]) (simp_all add: ring_bss_machine)

text \<open>
  C9: What the boot sequence hands over: at its end \<open>scheduler_start\<close> enters \<open>shell_task\<close> on a stack page
  of its own with interrupts enabled, task 0 is the one live task and is running, the contexts of
  the scheduler are in order, and the heap is one free block in a page that is not the shell's.
\<close>

theorem boot_starts_shell:
  assumes "(boot D J buf L)\<^sup>*\<^sup>* (0, bss_machine d r) (16, s)" and "bounded_kernel L"
  shows "\<exists>c' s' g p. boot_finish c s = Some (c', s') \<and> r_eip c' = l_shell_task L \<and>
     r_esp c' = stack (tasks s' ! 0) + 4096 \<and> if_flag c' \<and> int_enabled (dcpu s') \<and> contexts_ok s' g \<and>
     task_count (sch s') = 1 \<and> state (tasks s' ! 0) = TASK_RUNNING \<and> (\<forall>i<8. 0 < i \<longrightarrow> state (tasks s' ! i) = TASK_DEAD) \<and>
     heap_inv (kheap s') (pages s') {p} [(of_nat p * PAGE_SIZE, 4080, 0)] \<and> stack (tasks s' ! 0) \<noteq> of_nat p * PAGE_SIZE"
proof -
  have ph: "boot_phase L 16 s" using reachable_phase [OF assms] by simp
  let ?s = "s\<lparr>dcpu := (dcpu s)\<lparr>int_enabled := True\<rparr>\<rparr>"
  have q: "quiet s ?s" using quiet_system(4) [OF phase_kernel_ok [OF ph]] .
  have "shell_ready (l_shell_task L) s" using ph by (simp add: boot_phase_def kernel_phase_def)
  then obtain g where g: "boot_ok s g" "g 0 = entry_context (l_shell_task L) (stack (tasks s ! 0))"
    and r: "ready_prefix 1 s" "task_count (sch s) = 1" by (auto simp: shell_ready_def)
  have len: "length (tasks ?s) = 8" "ready_prefix 1 ?s" "state (tasks ?s ! 0) = TASK_READY"
    using phase_kernel_ok [OF ph] r(1) by (simp_all add: kernel_ok_def ready_prefix_def)
  obtain s' where s': "scheduler_start (c\<lparr>if_flag := True\<rparr>) ?s = Some ((g 0)\<lparr>r_eax := r_eax c, if_flag := True\<rparr>, s')" "contexts_ok s' g"
    using scheduler_start_ok [OF quiet_boot_ok [OF g(1) q] len(3), of "c\<lparr>if_flag := True\<rparr>"] by auto
  note st = scheduler_start_states [OF s'(1) len(1,2)] machine_same [of s' ?s]  scheduler_start_machine [OF s'(1)]
  obtain p where "heap_inv (kheap s) (pages s) {p} [(of_nat p * PAGE_SIZE, 4080, 0)]" "stack (tasks s ! 0) \<noteq> of_nat p * PAGE_SIZE"
    using ph by (auto simp: boot_phase_def heap_phase_def)
  then show ?thesis using s' st g(2) r(2)
    by (intro exI [of _ "(g 0)\<lparr>r_eax := r_eax c, if_flag := True\<rparr>"] exI [of _ s'] exI [of _ g] exI [of _ p])
       (simp add: boot_finish_def entry_context_def)
qed

lemma boot_starts_shell_witness:
  "\<exists>s c' s'. (boot no_drive junk (replicate 512 0) link_map)\<^sup>*\<^sup>* (0, bss_machine () grub) (16, s) \<and>
     boot_finish (entry_context 0 0) s = Some (c', s') \<and> r_eip c' = 0x100200"
proof -
  obtain s where s: "(boot no_drive junk (replicate 512 0) link_map)\<^sup>*\<^sup>* (0, bss_machine () grub) (16, s)" using no_drive_boots by blast
  then show ?thesis using boot_starts_shell [OF s link_map_bounded, of "entry_context 0 0"] by (auto simp: link_map_def)
qed





text \<open>From the keys to a running command.\<close>

lemma type_key_no_nul: "0 \<notin> set (snd sl) \<Longrightarrow> 0 \<notin> set (snd (type_key sc sl))"
  by (auto simp: type_key_def split: key.splits dest!: keys_not_nul_in_line in_set_butlastD)

lemma fold_type_key_no_nul: "0 \<notin> set (snd sl) \<Longrightarrow> 0 \<notin> set (snd (fold type_key keys sl))"
  by (induction keys arbitrary: sl) (simp_all add: type_key_no_nul)

lemma drain_keys_before:
  fixes s :: "('d, 'b) system_scheme"
  assumes "ring_ok s" and "editor_ok s" and "ring s = keys @ rest" and "0x1C \<notin> set keys"
  shows "\<exists>t. scancode_drain (process_scancode sh) s = scancode_drain (process_scancode sh) t \<and> ring_ok t \<and> ring t = rest \<and>
     editor_ok t \<and> console.more t = console.more s \<and> (shift_held t, line t) = fold type_key keys (shift_held s, line s)"
proof -
  let ?I = "\<lambda>t. editor_ok t \<and> console.more t = console.more s"
  have sub: "set keys \<subseteq> {sc. sc \<noteq> 0x1C}" using assms(4) by auto
  have "\<exists>t. scancode_drain (process_scancode sh) s = scancode_drain (process_scancode sh) t \<and> ring_ok t \<and> ring t = rest \<and>
     ?I t \<and> (shift_held t, line t) = fold type_key keys (shift_held s, line s)"
  proof (rule kbd.drain_prefix [where I = ?I and view = "\<lambda>t. (shift_held t, line t)", OF assms(1) _ assms(3) sub])
    show "?I s" using assms(2) by simp
  next
    fix x :: u8 and t :: "('d, 'b) system_scheme" assume "ring_ok t" "?I t" "x \<in> {sc. sc \<noteq> 0x1C}"
    with process_key_kernel [of t x sh]
    show "\<exists>t'. process_scancode sh x t = Some t' \<and> ring_ok t' \<and> ring t' = ring t \<and> ?I t' \<and>
        (shift_held t', line t') = type_key x (shift_held t, line t)" by auto
  next
    fix t t' :: "('d, 'b) system_scheme" and x assume "scancode_pop t = Some (Some x, t')" "?I t"
    then show "?I t' \<and> (shift_held t', line t') = (shift_held t, line t)"
      by (auto simp: scancode_pop_def editor_ok_def line_def split: if_splits Option.bind_splits)
  qed
  then show ?thesis by blast
qed

text \<open>
  C6: From the keyboard to the command: when the keys in the ring end with Enter, draining it runs the
  shell command the edited line stands for - with every earlier key applied in order, Shift
  and Backspace included, the line NUL-terminated in the 256-byte buffer, the cursor on a new line and
  the kernel state as it was - and leaves an empty line and an empty ring; the result is the command's.
\<close>

theorem typed_line_runs_command:
  fixes s :: "('d, 'b) system_scheme"
  assumes "ring_ok s" and "editor_ok s" and "ring s = keys @ [0x1C]" and "0x1C \<notin> set keys" and "0 \<notin> set (line s)"
  shows "\<exists>t cmd inp. inp = snd (fold type_key keys (shift_held s, line s)) \<and> holds cmd inp \<and> length cmd = 256 \<and>
     console.more t = console.more s \<and> ring t = [] \<and>
     scancode_drain (process_scancode (shell_handle D J)) s =
       map_option (\<lambda>u. u\<lparr>buf_pos := 0\<rparr>) (run_command D J (command_of inp) cmd (put_char 10 0x07 (t\<lparr>input_buf := cmd\<rparr>)))"
proof -
  let ?P = "process_scancode (shell_handle D J) :: u8 \<Rightarrow> ('d, 'b) system_scheme \<Rightarrow> ('d, 'b) system_scheme option"
  obtain t where t: "scancode_drain ?P s = scancode_drain ?P t" "ring_ok t" "ring t = [0x1C]" "editor_ok t"
    "console.more t = console.more s" "(shift_held t, line t) = fold type_key keys (shift_held s, line s)"
    using drain_keys_before [OF assms(1-4)] by blast
  obtain t' where p: "scancode_pop t = Some (Some 0x1C, t')" "ring_ok t'" "ring t' = []" using ring_pop(2) [OF t(2,3)] by blast
  have t': "editor_ok t'" "line t' = line t" "console.more t' = console.more t" "shift_held t' = shift_held t"
    using p(1) t(4) by (auto simp: scancode_pop_def editor_ok_def line_def split: if_splits Option.bind_splits)
  define cmd where "cmd = (input_buf t')[unat (buf_pos t') := 0]"
  have k: "key_of (shift_held t') 0x1C = Enter" by (simp add: key_of_enter)
  note e = process_scancode_enter [OF t'(1) k, folded cmd_def]
  have inp: "line t = snd (fold type_key keys (shift_held s, line s))" using t(6) by (metis snd_conv)
  then have nn: "0 \<notin> set (line t)" using fold_type_key_no_nul [of "(shift_held s, line s)" keys] assms(5) by simp
  have len: "length cmd = 256" "unat (buf_pos t') < 256" using t'(1) buf_pos_less [of t'] by (simp_all add: cmd_def editor_ok_def)
  have h: "holds cmd (line t)"
    using e(2,3) t'(2) nn len id_take_nth_drop [of "unat (buf_pos t')" cmd] by (auto simp: holds_def)
  let ?u = "put_char 10 0x07 (t'\<lparr>input_buf := cmd\<rparr>)"
  have "scancode_drain ?P t = ?P 0x1C t' \<bind> scancode_drain ?P" using p(1) by (subst scancode_drain.simps) simp
  also have "\<dots> = map_option (\<lambda>u. u\<lparr>buf_pos := 0\<rparr>) (shell_handle D J cmd ?u)"
  proof (cases "shell_handle D J cmd ?u")
    case None
    then show ?thesis using e(1) [of "shell_handle D J"] by simp
  next
    case (Some u)
    have "sys_frame ?u u" using shell_handle_frame [of ?u D J cmd] Some by (simp add: keeps_def)
    note c = sys_frame_console [OF this]
    have "ring (u\<lparr>buf_pos := 0\<rparr>) = []" "ring_ok (u\<lparr>buf_pos := 0\<rparr>)" using c(2,3) p(2,3) by (simp_all add: ring_upd)
    then have "scancode_drain ?P (u\<lparr>buf_pos := 0\<rparr>) = Some (u\<lparr>buf_pos := 0\<rparr>)"
      using ring_pop(1) [of "u\<lparr>buf_pos := 0\<rparr>"] by (subst scancode_drain.simps) simp
    then show ?thesis using e(1) [of "shell_handle D J"] Some by simp
  qed
  finally show ?thesis using shell_handle_run [OF h, of D J ?u] h len(1) t(1,5) t'(3) p(3) inp
    by - (rule exI [of _ t'], rule exI [of _ cmd], rule exI [of _ "line t"], simp)
qed

lemma typed_line_runs_command_witness:
  "\<exists>cmd t. scancode_drain (process_scancode (shell_handle pio_drive junk))
       ((bss_system blank_pio)\<lparr>scancode_buffer := [0x23, 0x12, 0x26, 0x26, 0x18, 0x39, 0x0E, 0x1C] @ replicate 8 0, scancode_head := 8\<rparr>) =
     map_option (\<lambda>u. u\<lparr>buf_pos := 0\<rparr>) (run_command pio_drive junk Hello cmd (put_char 10 0x07 (t\<lparr>input_buf := cmd\<rparr>)))"
proof -
  let ?keys = "[0x23, 0x12, 0x26, 0x26, 0x18, 0x39, 0x0E] :: u8 list"
  define s where "s = (bss_system blank_pio)\<lparr>scancode_buffer := ?keys @ 0x1C # replicate 8 0, scancode_head := 8\<rparr>"
  have f: "scancode_tail (bss_system d) = 0" "\<not> shift_held (bss_system d)" for d :: 'x
    by (simp_all add: bss_system_def kernel.extend_def bss_kernel_def)
  have s: "ring_ok s" "editor_ok s" "line s = []" "\<not> shift_held s" "0x1C \<notin> set ?keys"
    by (simp_all add: s_def ring_ok_def editor_ok_def line_def bss_system_fields f)
  have r: "ring s = ?keys @ [0x1C]" by (simp add: s_def ring_def ring_len_def f upt_rec nth_Cons')
  have inp: "snd (fold type_key ?keys (False, [])) = lit ''hello''"
    by (simp add: type_key_def key_of_def keys_normal_def lit_def)
  have "command_of (lit ''hello'') = Hello"
    by (rule command_of_runs [of "''hello''"]) (simp_all add: command_words_def runs_def)
  then show ?thesis using typed_line_runs_command [OF s(1,2) r s(5), of pio_drive junk] s(3,4) inp by (auto simp: s_def)
qed

end
