(* ===== verification/Interrupts.thy ===== *)
theory Interrupts
  imports Pit Descriptors
begin

unbundle bit_operations_syntax

text \<open>
  The interrupt stubs (\<^verbatim>\<open>kernel/idt.asm\<close>, \<^verbatim>\<open>irq0_handler\<close> of \<^verbatim>\<open>kernel/idt.c\<close>) and the entry of the kernel
  (\<^verbatim>\<open>kernel/boot.asm\<close>): what the processor pushes when an interrupt arrives, what the stubs save, and what
  is left of it when a task that was switched away inside the timer interrupt goes on.
\<close>

section \<open>The processor in an interrupt\<close>

text \<open>
  The registers \<open>context_switch\<close> does not touch.  The flags register is kept as the interrupt flag (bit 9)
  and the others; the x87 unit as the bytes \<open>fsave\<close> would store.
\<close>

record icpu = Scheduler.cpu +
  r_ecx :: u32
  r_edx :: u32
  r_cs :: u16
  other_flags :: u32
  r_x87 :: "u8 list"

definition flags_word :: "icpu \<Rightarrow> u32" where
  "flags_word c = other_flags c OR (if if_flag c then 0x200 else 0)"

definition flags_ok :: "icpu \<Rightarrow> bool" where
  "flags_ok c \<longleftrightarrow> other_flags c AND 0x200 = 0"

text \<open>
  An interrupt through a gate of type \<open>0x8E\<close>: flags, code segment and return address are pushed, the
  interrupt flag and the flags TF, NT, RF and VM are cleared, and execution goes on at the gate's address.
\<close>

definition int_entry :: "idt_entry \<Rightarrow> icpu \<Rightarrow> mem \<Rightarrow> (icpu \<times> mem) option" where
  "int_entry gt c m = do {
     (sp, m) \<leftarrow> push (flags_word c) (r_esp c, m);
     (sp, m) \<leftarrow> push (ucast (r_cs c)) (sp, m);
     (sp, m) \<leftarrow> push (r_eip c) (sp, m);
     Some (c\<lparr>r_esp := sp, if_flag := False, other_flags := other_flags c AND 0xFFFCBEFF,
            r_cs := i_selector gt, r_eip := idt_offset gt\<rparr>, m) }"

definition pusha :: "icpu \<Rightarrow> mem \<Rightarrow> (icpu \<times> mem) option" where
  "pusha c m = do {
     let temp = r_esp c;
     (sp, m) \<leftarrow> push (r_eax c) (r_esp c, m);
     (sp, m) \<leftarrow> push (r_ecx c) (sp, m);
     (sp, m) \<leftarrow> push (r_edx c) (sp, m);
     (sp, m) \<leftarrow> push (r_ebx c) (sp, m);
     (sp, m) \<leftarrow> push temp (sp, m);
     (sp, m) \<leftarrow> push (r_ebp c) (sp, m);
     (sp, m) \<leftarrow> push (r_esi c) (sp, m);
     (sp, m) \<leftarrow> push (r_edi c) (sp, m);
     Some (c\<lparr>r_esp := sp\<rparr>, m) }"

text \<open>\<open>popa\<close> skips the stack pointer it finds.\<close>

definition popa :: "icpu \<Rightarrow> mem \<Rightarrow> icpu option" where
  "popa c m = do {
     (edi, sp) \<leftarrow> pop (r_esp c) m;
     (esi, sp) \<leftarrow> pop sp m;
     (ebp, sp) \<leftarrow> pop sp m;
     (_, sp) \<leftarrow> pop sp m;
     (ebx, sp) \<leftarrow> pop sp m;
     (edx, sp) \<leftarrow> pop sp m;
     (ecx, sp) \<leftarrow> pop sp m;
     (eax, sp) \<leftarrow> pop sp m;
     Some (c\<lparr>r_edi := edi, r_esi := esi, r_ebp := ebp, r_ebx := ebx, r_edx := edx, r_ecx := ecx, r_eax := eax, r_esp := sp\<rparr>) }"

text \<open>
  What \<open>iret\<close> checks of the code segment it takes from the stack, against the segment table: the selector
  must not be null and must lie in the table (there is no local one), the descriptor must be of a code
  segment, present, and of the privilege asked for, and the return address must lie in the segment.
  Otherwise the processor raises an exception with the error code given.  A return to an outer
  privilege level is not modelled; the table of this kernel has no segment for it.
\<close>

datatype fault = GP u16 | NP u16

definition load_cs :: "gdt_entry list \<Rightarrow> u16 \<Rightarrow> u32 \<Rightarrow> (fault + unit) option" where
  "load_cs G sel eip =
     (let code = sel AND 0xFFFC; i = unat (drop_bit 3 sel) in
      if code = 0 then Some (Inl (GP 0))
      else if bit sel 2 \<or> length G \<le> i then Some (Inl (GP code))
      else let access = g_access (G ! i); dpl = drop_bit 5 (access AND 0x60); rpl = ucast (sel AND 3) in
        if \<not> (bit access 4 \<and> bit access 3) then Some (Inl (GP code))
        else if (if bit access 2 then rpl < dpl else dpl \<noteq> rpl) then Some (Inl (GP code))
        else if \<not> bit access 7 then Some (Inl (NP code))
        else if rpl \<noteq> 0 then None
        else if gdt_limit (G ! i) < eip then Some (Inl (GP 0))
        else Some (Inr ()))"

text \<open>A fault leaves the processor as it was before the \<open>iret\<close>.\<close>

datatype iret_result = Returned icpu | Faulted fault icpu

definition iret :: "gdt_entry list \<Rightarrow> icpu \<Rightarrow> mem \<Rightarrow> iret_result option" where
  "iret G c m = do {
     (eip, sp) \<leftarrow> pop (r_esp c) m;
     (cs, sp) \<leftarrow> pop sp m;
     (fl, sp) \<leftarrow> pop sp m;
     check \<leftarrow> load_cs G (ucast cs) eip;
     Some (case check of Inl f \<Rightarrow> Faulted f c
       | Inr _ \<Rightarrow> Returned (c\<lparr>r_eip := eip, r_cs := ucast cs, other_flags := fl AND NOT 0x200, if_flag := bit fl 9, r_esp := sp\<rparr>)) }"

text \<open>Code that runs in a segment the table admits.\<close>

definition kernel_code :: "gdt_entry list \<Rightarrow> icpu \<Rightarrow> bool" where
  "kernel_code G c \<longleftrightarrow> load_cs G (r_cs c) (r_eip c) = Some (Inr ())"

section \<open>The stubs\<close>

text \<open>\<open>mov al, v\<close>.\<close>

definition mov_al :: "u8 \<Rightarrow> icpu \<Rightarrow> icpu" where
  "mov_al v c = c\<lparr>r_eax := (r_eax c AND 0xFFFFFF00) OR ucast v\<rparr>"

definition isr_default :: "gdt_entry list \<Rightarrow> icpu \<Rightarrow> 'a kernel_scheme \<Rightarrow> (iret_result \<times> 'a kernel_scheme) option" where
  "isr_default G c s = do {
     (c, m) \<leftarrow> pusha c (stackmem s);
     let c = mov_al 0x20 c;
     let s = outb 0x20 (ucast (r_eax c)) (s\<lparr>stackmem := m\<rparr>);
     let s = outb 0xA0 (ucast (r_eax c)) s;
     c \<leftarrow> popa c (stackmem s);
     res \<leftarrow> iret G c (stackmem s);
     Some (res, s) }"

text \<open>
  What the compiler makes of the C functions a stub calls is a parameter: the address the call in the stub
  returns to, the way from the entry of the handler down to the call of \<open>context_switch\<close> (or to the place
  where a handler that calls none does its work), and the way back from there to the stub.
\<close>

record c_frames =
  fr_return :: u32
  fr_enter :: "icpu \<times> mem \<Rightarrow> icpu \<times> mem"
  fr_leave :: "icpu \<times> mem \<Rightarrow> icpu \<times> mem"
  fr_size :: nat

text \<open>The common start of the stubs that call a handler, and their common end.\<close>

definition isr_call :: "c_frames \<Rightarrow> icpu \<Rightarrow> 'a kernel_scheme \<Rightarrow> (icpu \<times> 'a kernel_scheme) option" where
  "isr_call F c s = do {
     (c, m) \<leftarrow> pusha c (stackmem s);
     (sp, m) \<leftarrow> push (fr_return F) (r_esp c, m);
     let (k, m) = fr_enter F (c\<lparr>r_esp := sp\<rparr>, m);
     Some (k, s\<lparr>stackmem := m\<rparr>) }"

definition isr_end :: "gdt_entry list \<Rightarrow> c_frames \<Rightarrow> icpu \<Rightarrow> 'a kernel_scheme \<Rightarrow> (iret_result \<times> 'a kernel_scheme) option" where
  "isr_end G F c s = do {
     let (c, m) = fr_leave F (c, stackmem s);
     if r_eip c \<noteq> fr_return F then None
     else do {
       let c = mov_al 0x20 c;
       let s = outb 0x20 (ucast (r_eax c)) (s\<lparr>stackmem := m\<rparr>);
       c \<leftarrow> popa c (stackmem s);
       res \<leftarrow> iret G c (stackmem s);
       Some (res, s) } }"

text \<open>Behind the call of \<open>context_switch\<close>; when no switch is pending the code goes on there as well.\<close>

definition after_call :: "icpu \<Rightarrow> mem \<Rightarrow> icpu" where
  "after_call c m = c\<lparr>r_eip := m (r_esp c), r_esp := r_esp c + 4\<rparr>"



definition isr_keyboard ::
    "gdt_entry list \<Rightarrow> c_frames \<Rightarrow> u8 \<Rightarrow> icpu \<Rightarrow> 'a kernel_scheme \<Rightarrow> (iret_result \<times> 'a kernel_scheme) option" where
  "isr_keyboard G F port60 c s = do {
     (k, s) \<leftarrow> isr_call F c s;
     s \<leftarrow> keyboard_handler port60 s;
     isr_end G F (after_call k (stackmem s)) s }"

text \<open>An interrupt as the task it hits sees it: the processor's part, then the stub.\<close>

definition interrupt ::
    "idt_entry \<Rightarrow> (icpu \<Rightarrow> 'a kernel_scheme \<Rightarrow> 'b option) \<Rightarrow> icpu \<Rightarrow> 'a kernel_scheme \<Rightarrow> 'b option" where
  "interrupt gt stub c s = do {
     (c, m) \<leftarrow> int_entry gt c (stackmem s);
     stub c (s\<lparr>stackmem := m\<rparr>) }"

text \<open>Some exceptions push an error code on top of that.\<close>

definition exception_with_code ::
    "idt_entry \<Rightarrow> u32 \<Rightarrow> (icpu \<Rightarrow> 'a kernel_scheme \<Rightarrow> 'b option) \<Rightarrow> icpu \<Rightarrow> 'a kernel_scheme \<Rightarrow> 'b option" where
  "exception_with_code gt err stub c s = do {
     (c, m) \<leftarrow> int_entry gt c (stackmem s);
     (sp, m) \<leftarrow> push err (r_esp c, m);
     stub (c\<lparr>r_esp := sp\<rparr>) (s\<lparr>stackmem := m\<rparr>) }"


text \<open>
  A fault of the \<open>iret\<close>, at address \<open>a\<close>, is itself an exception with an error code and has the default stub; the
  state \<open>n\<close> such exceptions later.
\<close>

primrec fault_code :: "fault \<Rightarrow> u32" where
  "fault_code (GP v) = ucast v"
| "fault_code (NP v) = ucast v"

fun refault :: "gdt_entry list \<Rightarrow> idt_entry \<Rightarrow> u32 \<Rightarrow> nat \<Rightarrow> iret_result \<times> 'a kernel_scheme \<Rightarrow> (iret_result \<times> 'a kernel_scheme) option" where
  "refault G gt a (Suc n) (Faulted e c, s) =
     do { x \<leftarrow> exception_with_code gt (fault_code e) (isr_default G) (c\<lparr>r_eip := a\<rparr>) s; refault G gt a n x }"
| "refault G gt a n x = Some x"

section \<open>The entry of the kernel\<close>

definition multiboot_header :: "u32 list" where
  "multiboot_header = [0x1BADB002, 0x00, - 0x1BADB002]"

text \<open>\<open>_start\<close> up to the first instruction of \<open>kernel_main\<close>, at address \<open>main\<close>; the call returns to \<open>ret\<close>.\<close>

definition kernel_entry :: "u32 \<Rightarrow> u32 \<Rightarrow> u32 \<Rightarrow> icpu \<Rightarrow> mem \<Rightarrow> (icpu \<times> mem) option" where
  "kernel_entry stack_top main ret c m = do {
     let c = c\<lparr>if_flag := False\<rparr>;
     let c = c\<lparr>r_esp := stack_top\<rparr>;
     let c = c\<lparr>r_eax := 0xDEADBEEF\<rparr>;
     (sp, m) \<leftarrow> push (r_eax c) (r_esp c, m);
     (ebx, sp) \<leftarrow> pop sp m;
     (sp, m) \<leftarrow> push ret (sp, m);
     Some (c\<lparr>r_ebx := ebx, r_esp := sp, r_eip := main\<rparr>, m) }"

section \<open>Saving and restoring the registers\<close>

lemma aligned_add: "(a + of_nat (4 * k) :: u32) AND 3 = a AND 3"
proof (induction k)
  case (Suc k)
  then show ?case using aligned_plus4 [of "a + of_nat (4 * k)"] by (simp add: algebra_simps)
qed simp

lemma aligned_sub: "(a - of_nat (4 * k) :: u32) AND 3 = a AND 3"
  using aligned_add [of "a - of_nat (4 * k)" k] by simp

text \<open>The 44 bytes an interrupt and \<open>pusha\<close> leave on the stack.\<close>

definition int_frame :: "mem \<Rightarrow> u32 \<Rightarrow> icpu \<Rightarrow> bool" where
  "int_frame m sp c \<longleftrightarrow> sp AND 3 = 0 \<and> r_esp c = sp + 44 \<and> m sp = r_edi c \<and> m (sp + 4) = r_esi c \<and> m (sp + 8) = r_ebp c \<and>
     m (sp + 16) = r_ebx c \<and> m (sp + 20) = r_edx c \<and> m (sp + 24) = r_ecx c \<and> m (sp + 28) = r_eax c \<and>
     m (sp + 32) = r_eip c \<and> m (sp + 36) = ucast (r_cs c) \<and> m (sp + 40) = flags_word c"

definition framed :: "icpu \<Rightarrow> mem \<Rightarrow> mem" where
  "framed c m = (let e = r_esp c in m(e - 4 := flags_word c, e - 8 := ucast (r_cs c), e - 12 := r_eip c, e - 16 := r_eax c,
     e - 20 := r_ecx c, e - 24 := r_edx c, e - 28 := r_ebx c, e - 32 := e - 12, e - 36 := r_ebp c, e - 40 := r_esi c,
     e - 44 := r_edi c))"

lemma push_at: "sp AND 3 = 0 \<Longrightarrow> push v (sp, m) = Some (sp - 4, m(sp - 4 := v))"
  using aligned_sub [of sp 1] by (simp add: push_def store_word_def)

lemma pop_at: "sp AND 3 = 0 \<Longrightarrow> pop sp m = Some (m sp, sp + 4)"
  by (simp add: pop_def load_word_def)

lemma aligned_below:
  assumes "(e :: u32) AND 3 = 0"
  shows "(e - 4) AND 3 = 0" "(e - 8) AND 3 = 0" "(e - 12) AND 3 = 0" "(e - 16) AND 3 = 0" "(e - 20) AND 3 = 0" "(e - 24) AND 3 = 0"
    "(e - 28) AND 3 = 0" "(e - 32) AND 3 = 0" "(e - 36) AND 3 = 0" "(e - 40) AND 3 = 0" "(e - 44) AND 3 = 0" "(e - 48) AND 3 = 0"
  using assms aligned_sub [of e 1] aligned_sub [of e 2] aligned_sub [of e 3] aligned_sub [of e 4] aligned_sub [of e 5] aligned_sub [of e 6]
    aligned_sub [of e 7] aligned_sub [of e 8] aligned_sub [of e 9] aligned_sub [of e 10] aligned_sub [of e 11] aligned_sub [of e 12]
  by simp_all

lemma aligned_above:
  assumes "(e :: u32) AND 3 = 0"
  shows "(e + 4) AND 3 = 0" "(e + 8) AND 3 = 0" "(e + 12) AND 3 = 0" "(e + 16) AND 3 = 0" "(e + 20) AND 3 = 0" "(e + 24) AND 3 = 0"
    "(e + 28) AND 3 = 0" "(e + 32) AND 3 = 0" "(e + 36) AND 3 = 0" "(e + 40) AND 3 = 0"
  using assms aligned_add [of e 1] aligned_add [of e 2] aligned_add [of e 3] aligned_add [of e 4] aligned_add [of e 5] aligned_add [of e 6]
    aligned_add [of e 7] aligned_add [of e 8] aligned_add [of e 9] aligned_add [of e 10]
  by simp_all

lemma flags_restored:
  assumes "flags_ok c"
  shows "flags_word c AND NOT 0x200 = other_flags c" "bit (flags_word c) 9 = if_flag c"
proof -
  have b: "(0x200 :: u32) = push_bit 9 1" by (simp add: push_bit_eq_mult)
  have "\<not> bit (other_flags c AND 0x200) 9" using assms by (simp add: flags_ok_def)
  then have o: "\<not> bit (other_flags c) 9" unfolding b by (simp add: bit_and_iff bit_push_bit_iff)
  show "bit (flags_word c) 9 = if_flag c" using o unfolding flags_word_def b by (simp add: bit_or_iff bit_push_bit_iff)
  have bb: "bit (0x200 :: u32) n \<longleftrightarrow> n = 9" for n
    unfolding b by (simp only: bit_push_bit_iff bit_1_iff) auto
  show "flags_word c AND NOT 0x200 = other_flags c"
  proof (rule bit_word_eqI)
    fix n assume "n < LENGTH(32)"
    then show "bit (flags_word c AND NOT 0x200) n = bit (other_flags c) n"
      using o unfolding flags_word_def bit_and_iff bit_or_iff bit_not_iff bb by (cases "if_flag c") (auto simp only: if_True if_False bb bit_0_eq dest: bit_imp_possible_bit)
  qed
qed

lemma ucast_u16_u32 [simp]: "ucast (ucast (x :: u16) :: u32) = x"
  by (rule bit_word_eqI) (simp add: bit_simps)

lemma interrupt_saves:
  assumes "r_esp c AND 3 = 0"
  shows "\<exists>c' k. int_entry gt c m = Some (c', m(r_esp c - 4 := flags_word c, r_esp c - 8 := ucast (r_cs c), r_esp c - 12 := r_eip c)) \<and>
      pusha c' (m(r_esp c - 4 := flags_word c, r_esp c - 8 := ucast (r_cs c), r_esp c - 12 := r_eip c)) = Some (k, framed c m) \<and>
      r_esp k = r_esp c - 44 \<and> r_x87 k = r_x87 c \<and> int_frame (framed c m) (r_esp c - 44) c"
proof -
  note al = aligned_below [OF assms] assms
  have "int_entry gt c m = Some (c\<lparr>r_esp := r_esp c - 12, if_flag := False, other_flags := other_flags c AND 0xFFFCBEFF,
      r_cs := i_selector gt, r_eip := idt_offset gt\<rparr>, m(r_esp c - 4 := flags_word c, r_esp c - 8 := ucast (r_cs c), r_esp c - 12 := r_eip c))"
    using al by (simp add: int_entry_def push_at diff_diff_eq)
  moreover have "int_frame (framed c m) (r_esp c - 44) c"
    using al by (simp add: int_frame_def framed_def Let_def)
  ultimately show ?thesis
    using al by (simp add: pusha_def push_at diff_diff_eq framed_def Let_def)
qed

lemma frame_restores:
  assumes "int_frame m (r_esp x) c" and "flags_ok c" and "kernel_code G c"
  shows "do { x \<leftarrow> popa x m; iret G x m } = Some (Returned (c\<lparr>r_x87 := r_x87 x\<rparr>))"
proof -
  note al = aligned_above [of "r_esp x"]
  show ?thesis using assms(1,3) al flags_restored [OF assms(2)]
    by (cases c) (simp add: int_frame_def popa_def iret_def pop_at add.assoc kernel_code_def)
qed

section \<open>Compiled handlers\<close>

text \<open>
  What the calling convention promises of the compiled code between a stub and the call of
  \<open>context_switch\<close>: going down it stays within \<open>fr_size\<close> bytes below the stub's call and leaves what is above
  alone; going back - with the registers a callee keeps and its own frames as they were - it returns to the
  stub with those registers and the stack pointer restored and, again, nothing changed outside.  Neither
  way touches the x87 unit.
\<close>

definition kept :: "icpu \<Rightarrow> icpu \<Rightarrow> bool" where
  "kept c d \<longleftrightarrow> r_ebx d = r_ebx c \<and> r_esi d = r_esi c \<and> r_edi d = r_edi c \<and> r_ebp d = r_ebp c"

definition same_outside :: "nat \<Rightarrow> nat \<Rightarrow> mem \<Rightarrow> mem \<Rightarrow> bool" where
  "same_outside lo hi m n \<longleftrightarrow> (\<forall>a. a \<notin> region lo hi \<longrightarrow> n a = m a)"

definition frames_ok :: "c_frames \<Rightarrow> bool" where
  "frames_ok F \<longleftrightarrow> (\<forall>c m k n. fr_enter F (c, m) = (k, n) \<longrightarrow> r_esp c AND 3 = 0 \<longrightarrow> fr_size F \<le> unat (r_esp c) \<longrightarrow>
     r_x87 k = r_x87 c \<and> r_esp k AND 3 = 0 \<and> unat (r_esp c) \<le> unat (r_esp k) + fr_size F \<and> unat (r_esp k) + 4 \<le> unat (r_esp c) \<and>
     same_outside (unat (r_esp c) - fr_size F) (unat (r_esp c)) m n \<and>
     (\<forall>x m' d n'. kept k x \<longrightarrow> r_esp x = r_esp k + 4 \<longrightarrow> (\<forall>a\<in>region (unat (r_esp k) + 4) (unat (r_esp c) + 4). m' a = n a) \<longrightarrow>
        fr_leave F (x, m') = (d, n') \<longrightarrow>
        kept c d \<and> r_x87 d = r_x87 x \<and> r_esp d = r_esp c + 4 \<and> r_eip d = m (r_esp c) \<and>
        same_outside (unat (r_esp c) - fr_size F) (unat (r_esp c)) m' n'))"

text \<open>Room on a stack from \<open>lo\<close> on for the frame of an interrupt, the handler, and the pushes of a switch.\<close>

definition room :: "c_frames \<Rightarrow> nat \<Rightarrow> icpu \<Rightarrow> bool" where
  "room F lo c \<longleftrightarrow> r_esp c AND 3 = 0 \<and> lo + 64 + fr_size F \<le> unat (r_esp c)"

text \<open>
  From behind \<open>k\<close>, the call inside the handler, the stub can be finished as long as the stack from there up
  is as it was: it restores all of \<open>c\<close> but the x87 unit and acknowledges the interrupt.
\<close>

definition returns :: "gdt_entry list \<Rightarrow> c_frames \<Rightarrow> icpu \<Rightarrow> icpu \<Rightarrow> mem \<Rightarrow> 'a kernel_scheme \<Rightarrow> bool" where
  "returns G F c k n t \<longleftrightarrow> (\<forall>x. kept k x \<longrightarrow> r_esp x = r_esp k + 4 \<longrightarrow>
     (\<forall>a\<in>region (unat (r_esp k) + 4) (unat (r_esp c)). stackmem t a = n a) \<longrightarrow>
     (\<exists>m. isr_end G F x t = Some (Returned (c\<lparr>r_x87 := r_x87 x\<rparr>), outb 0x20 0x20 (t\<lparr>stackmem := m\<rparr>)) \<and>
        same_outside (unat (r_esp c) - 48 - fr_size F) (unat (r_esp c)) (stackmem t) m))"

lemma al_byte: "ucast ((x AND 0xFFFFFF00) OR ucast v :: u32) = (v :: u8)"
proof -
  have e: "(0xFFFFFF00 :: u32) = NOT (mask 8)" by (simp add: mask_eq_exp_minus_1)
  have "\<not> bit (x AND 0xFFFFFF00) n" if "n < 8" for n unfolding e bit_and_iff bit_not_iff bit_mask_iff using that by blast
  then show ?thesis by (intro bit_word_eqI) (simp add: bit_ucast_iff bit_or_iff)
qed

lemma mov_al_al [simp]: "ucast (r_eax (mov_al v c)) = v"
  using al_byte by (simp add: mov_al_def)

lemma mov_al_fields [simp]: "r_esp (mov_al v c) = r_esp c" "r_x87 (mov_al v c) = r_x87 c"
  by (simp_all add: mov_al_def)

lemma same_outside_trans: "same_outside lo hi m n \<Longrightarrow> same_outside lo hi n k \<Longrightarrow> same_outside lo hi m k"
  by (simp add: same_outside_def)

lemma same_outside_mono: "same_outside lo hi m n \<Longrightarrow> lo' \<le> lo \<Longrightarrow> hi \<le> hi' \<Longrightarrow> same_outside lo' hi' m n"
  by (auto simp: same_outside_def region_def)

lemma same_outside_upd:
  assumes "same_outside (unat e - 48) (unat e) m n" and "k \<le> 48" and "0 < k" and "48 \<le> unat e"
  shows "same_outside (unat e - 48) (unat e) m (n(e - of_nat k := v))"
proof -
  have "unat (of_nat k :: u32) = k" using assms(2) by (intro unat_of_nat_small) simp
  moreover have "of_nat k \<le> e" using calculation assms(2,4) by (simp add: word_le_nat_alt)
  ultimately have "unat (e - of_nat k) = unat e - k" by (simp add: unat_sub)
  then have "e - of_nat k \<in> region (unat e - 48) (unat e)" using assms(2-4) by (simp add: region_def)
  then show ?thesis using assms(1) by (auto simp: same_outside_def)
qed

lemma same_outside_refl: "same_outside lo hi m m"
  by (simp add: same_outside_def)

lemma framed_outside:
  assumes "48 \<le> unat (r_esp c)"
  shows "same_outside (unat (r_esp c) - 48) (unat (r_esp c)) m ((framed c m)(r_esp c - 48 := v))"
proof -
  note upd = same_outside_upd [OF _ _ _ assms]
  note u = upd [OF _, of _ _ 4] upd [OF _, of _ _ 8] upd [OF _, of _ _ 12] upd [OF _, of _ _ 16] upd [OF _, of _ _ 20] upd [OF _, of _ _ 24]
    upd [OF _, of _ _ 28] upd [OF _, of _ _ 32] upd [OF _, of _ _ 36] upd [OF _, of _ _ 40] upd [OF _, of _ _ 44] upd [OF _, of _ _ 48]
  show ?thesis unfolding framed_def Let_def by (intro u [simplified]) (rule same_outside_refl)
qed

lemma int_frame_cong:
  assumes "int_frame m (e - 44) c" and "\<And>a. a \<in> region (unat e - 44) (unat e) \<Longrightarrow> m' a = m a" and "44 \<le> unat e"
  shows "int_frame m' (e - 44) c"
proof -
  have "44 \<le> e" using assms(3) by (simp add: word_le_nat_alt)
  then have u: "unat (e - 44) = unat e - 44" by (simp add: unat_sub)
  have at: "unat (e - 44 + of_nat k) = unat e - 44 + k" if "k < 44" for k
    using unat_plus_small [of "e - 44" k] u that assms(3) unsigned_less [of e, where 'a = nat] by simp
  have "e - 44 + of_nat k \<in> region (unat e - 44) (unat e)" if "k < 44" for k
  proof -
    show ?thesis using at [OF that] that assms(3) unfolding region_def mem_Collect_eq by linarith
  qed
  then have same: "m' (e - 44 + of_nat k) = m (e - 44 + of_nat k)" if "k < 44" for k using assms(2) that by blast
  show ?thesis
    using assms(1) same [of 0] same [of 4] same [of 8] same [of 16] same [of 20] same [of 24] same [of 28] same [of 32] same [of 36] same [of 40]
    by (simp add: int_frame_def)
qed

text \<open>The way back through the compiled code ends in the stub, with the saved registers in place.\<close>

lemma handler_returns:
  fixes t :: "'a kernel_scheme"
  assumes "frames_ok F" and "flags_ok c" and "r_esp c AND 3 = 0" and "48 + fr_size F \<le> unat (r_esp c)"
    and c2: "r_esp c2 = r_esp c - 48" and m: "m = (framed c m0)(r_esp c - 48 := fr_return F)" and kn: "fr_enter F (c2, m) = (k, n)"
    and "int_frame (framed c m0) (r_esp c - 44) c" and "kernel_code G c"
  shows "returns G F c k n t"
proof -
  note big = assms(4)
  have "48 \<le> r_esp c" using big by (simp add: word_le_nat_alt)
  then have u48: "unat (r_esp c - 48) = unat (r_esp c) - 48" by (simp add: unat_sub)
  have al2: "r_esp c2 AND 3 = 0" "fr_size F \<le> unat (r_esp c2)" using aligned_below(12) [OF assms(3)] u48 big by (simp_all add: c2)
  have f: "unat (r_esp k) + 4 \<le> unat (r_esp c2)" "same_outside (unat (r_esp c2) - fr_size F) (unat (r_esp c2)) m n"
    "\<And>x m' d n'. kept k x \<Longrightarrow> r_esp x = r_esp k + 4 \<Longrightarrow> \<forall>a\<in>region (unat (r_esp k) + 4) (unat (r_esp c2) + 4). m' a = n a \<Longrightarrow>
        fr_leave F (x, m') = (d, n') \<Longrightarrow> kept c2 d \<and> r_x87 d = r_x87 x \<and> r_esp d = r_esp c2 + 4 \<and> r_eip d = m (r_esp c2) \<and>
        same_outside (unat (r_esp c2) - fr_size F) (unat (r_esp c2)) m' n'"
    using assms(1) [unfolded frames_ok_def, rule_format, OF kn al2] by blast+
  show ?thesis
    unfolding returns_def
  proof (intro allI impI)
    fix x assume x: "kept k x" "r_esp x = r_esp k + 4" and same: "\<forall>a\<in>region (unat (r_esp k) + 4) (unat (r_esp c)). stackmem t a = n a"
    obtain d n' where dn: "fr_leave F (x, stackmem t) = (d, n')" by (cases "fr_leave F (x, stackmem t)")
    have "\<forall>a\<in>region (unat (r_esp k) + 4) (unat (r_esp c2) + 4). stackmem t a = n a" using same u48 big by (auto simp: c2 region_def)
    note d = f(3) [OF x this dn]
    have out: "same_outside (unat (r_esp c2) - fr_size F) (unat (r_esp c2)) (stackmem t) n'" using d by blast
    have ret: "r_eip d = fr_return F" "r_esp d = r_esp c - 44" "r_x87 d = r_x87 x" using d by (simp_all add: m c2)
    have "int_frame n' (r_esp c - 44) c"
    proof (rule int_frame_cong [OF assms(8)])
      fix a assume a: "a \<in> region (unat (r_esp c) - 44) (unat (r_esp c))"
      have a': "unat (r_esp c2) + 4 \<le> unat a" "unat a < unat (r_esp c)" using a big unfolding region_def c2 u48 by simp_all
      then have o: "a \<notin> region (unat (r_esp c2) - fr_size F) (unat (r_esp c2))" by (simp add: region_def)
      have "n' a = stackmem t a" using out o by (simp add: same_outside_def)
      also have "\<dots> = n a" using same a' f(1) by (simp add: region_def)
      also have "\<dots> = m a" using f(2) o by (simp add: same_outside_def)
      also have "\<dots> = framed c m0 a" using a'(1) by (auto simp: m c2)
      finally show "n' a = framed c m0 a" .
    qed (use big in simp)
    then have "do { y \<leftarrow> popa (mov_al 0x20 d) n'; iret G y n' } = Some (Returned (c\<lparr>r_x87 := r_x87 x\<rparr>))"
      using frame_restores [OF _ assms(2,9), of n' "mov_al 0x20 d"] ret(2,3) by simp
    then obtain y where "popa (mov_al 0x20 d) n' = Some y" "iret G y n' = Some (Returned (c\<lparr>r_x87 := r_x87 x\<rparr>))"
      by (auto split: Option.bind_splits)
    then have "isr_end G F x t = Some (Returned (c\<lparr>r_x87 := r_x87 x\<rparr>), outb 0x20 0x20 (t\<lparr>stackmem := n'\<rparr>))"
      using dn ret(1) by (simp add: isr_end_def outb_def Let_def)
    then show "\<exists>m. isr_end G F x t = Some (Returned (c\<lparr>r_x87 := r_x87 x\<rparr>), outb 0x20 0x20 (t\<lparr>stackmem := m\<rparr>)) \<and>
        same_outside (unat (r_esp c) - 48 - fr_size F) (unat (r_esp c)) (stackmem t) m"
      using same_outside_mono [OF out, of "unat (r_esp c) - 48 - fr_size F" "unat (r_esp c)"] u48 by (auto simp: c2)
  qed
qed

text \<open>An interrupt up to the work of its handler.\<close>

lemma interrupt_call:
  fixes s :: "'a kernel_scheme"
  assumes "frames_ok F" and "room F lo c" and "flags_ok c" and "kernel_code G c"
  shows "\<exists>k n. do { (c', m) \<leftarrow> int_entry gt c (stackmem s); isr_call F c' (s\<lparr>stackmem := m\<rparr>) } = Some (k, s\<lparr>stackmem := n\<rparr>) \<and>
     r_esp k AND 3 = 0 \<and> lo + 16 \<le> unat (r_esp k) \<and> unat (r_esp k) + 52 \<le> unat (r_esp c) \<and>
     same_outside (unat (r_esp c) - 48 - fr_size F) (unat (r_esp c)) (stackmem s) n \<and> (\<forall>t :: 'a kernel_scheme. returns G F c k n t) \<and> r_x87 k = r_x87 c"
proof -
  have al: "r_esp c AND 3 = 0" and big: "lo + 64 + fr_size F \<le> unat (r_esp c)" using assms(2) by (simp_all add: room_def)
  obtain c1 m1 k1 where e: "int_entry gt c (stackmem s) = Some (c1, m1)" "pusha c1 m1 = Some (k1, framed c (stackmem s))"
    "r_esp k1 = r_esp c - 44" "r_x87 k1 = r_x87 c" "int_frame (framed c (stackmem s)) (r_esp c - 44) c"
    using interrupt_saves [OF al, of gt "stackmem s"] by blast
  define m where "m = (framed c (stackmem s))(r_esp c - 48 := fr_return F)"
  define c2 where "c2 = k1\<lparr>r_esp := r_esp c - 48\<rparr>"
  have "48 \<le> r_esp c" using big by (simp add: word_le_nat_alt)
  then have u48: "unat (r_esp c - 48) = unat (r_esp c) - 48" by (simp add: unat_sub)
  have p: "push (fr_return F) (r_esp k1, framed c (stackmem s)) = Some (r_esp c - 48, m)"
    using aligned_below(11) [OF al] by (simp add: e(3) push_at m_def diff_diff_eq)
  have mo: "same_outside (unat (r_esp c) - 48) (unat (r_esp c)) (stackmem s) m" unfolding m_def using big by (intro framed_outside) simp
  have e2: "r_esp c2 = r_esp c - 48" by (simp add: c2_def)
  have al2: "r_esp c2 AND 3 = 0" "fr_size F \<le> unat (r_esp c2)" using aligned_below(12) [OF al] u48 big by (simp_all add: e2)
  obtain k n where kn: "fr_enter F (c2, m) = (k, n)" by (cases "fr_enter F (c2, m)")
  have f: "r_x87 k = r_x87 c2" "r_esp k AND 3 = 0" "unat (r_esp c2) \<le> unat (r_esp k) + fr_size F" "unat (r_esp k) + 4 \<le> unat (r_esp c2)"
    "same_outside (unat (r_esp c2) - fr_size F) (unat (r_esp c2)) m n"
    using assms(1) [unfolded frames_ok_def, rule_format, OF kn al2] by blast+
  have "returns G F c k n t" for t :: "'a kernel_scheme"
    by (rule handler_returns [OF assms(1,3) al _ e2 m_def kn e(5) assms(4)]) (use big in simp)
  moreover have "same_outside (unat (r_esp c) - 48 - fr_size F) (unat (r_esp c)) (stackmem s) n"
    by (rule same_outside_trans [OF same_outside_mono [OF mo] same_outside_mono [OF f(5)]]) (use u48 big in \<open>simp_all add: e2\<close>)
  moreover have "isr_call F c1 (s\<lparr>stackmem := m1\<rparr>) = Some (k, s\<lparr>stackmem := n\<rparr>)"
    using e(2) p kn by (simp add: isr_call_def c2_def)
  moreover have "lo + 16 \<le> unat (r_esp k)" "unat (r_esp k) + 52 \<le> unat (r_esp c)" using f(3,4) big unfolding e2 u48 by linarith+
  moreover have "r_x87 k = r_x87 c" using f(1) e(4) by (simp add: c2_def)
  ultimately show ?thesis using e(1) f(2) by (intro exI [of _ k] exI [of _ n]) simp
qed

section \<open>A task away from the processor\<close>









section \<open>The timer interrupt on the stack of the running task\<close>





section \<open>The keyboard interrupt\<close>

lemma keyboard_frame:
  assumes "keyboard_handler x (s :: 'a kernel_scheme) = Some s'"
  shows "console.more s' = console.more s"
  using assms by (auto simp: keyboard_handler_def scancode_push_def Let_def split: if_splits Option.bind_splits)

lemma keyboard_returns:
  fixes s :: "'a kernel_scheme"
  assumes "frames_ok F" and "flags_ok c" and "kernel_code G c" and "room F lo c" and "ring_ok s"
  obtains t m where "interrupt gt (isr_keyboard G F sc) c s = Some (Returned c, t\<lparr>stackmem := m, outs := outs s @ [(0x20, 0x20)]\<rparr>)"
    "console.more t = console.more (s\<lparr>stackmem := stackmem t\<rparr>)" "ring_ok t" "ring t = (if length (ring s) < 15 then ring s @ [sc] else ring s)"
    "same_outside lo (unat (r_esp c)) (stackmem s) m"
proof -
  have lo: "lo \<le> unat (r_esp c) - 48 - fr_size F" using assms(4) unfolding room_def by linarith
  obtain k n where k: "do { (c', m) \<leftarrow> int_entry gt c (stackmem s); isr_call F c' (s\<lparr>stackmem := m\<rparr>) } = Some (k, s\<lparr>stackmem := n\<rparr>)"
    "same_outside (unat (r_esp c) - 48 - fr_size F) (unat (r_esp c)) (stackmem s) n" "\<forall>t :: 'a kernel_scheme. returns G F c k n t"
    "r_x87 k = r_x87 c"
    using interrupt_call [OF assms(1,4,2,3), of gt s] by blast
  have "ring_ok (s\<lparr>stackmem := n\<rparr>)" "ring (s\<lparr>stackmem := n\<rparr>) = ring s"
    using assms(5) by (simp_all add: ring_ok_def ring_def ring_len_def)
  then obtain s1 where s1: "keyboard_handler sc (s\<lparr>stackmem := n\<rparr>) = Some s1" "ring_ok s1"
    "ring s1 = (if length (ring s) < 15 then ring s @ [sc] else ring s)"
    using ring_push [of "s\<lparr>stackmem := n\<rparr>" sc] unfolding keyboard_handler_def by metis
  note more = keyboard_frame [OF s1(1)]
  note same = kernel_part [OF more]
  let ?x = "after_call k (stackmem s1)"
  have x: "kept k ?x" "r_esp ?x = r_esp k + 4" "r_x87 ?x = r_x87 c" using k(4) by (simp_all add: kept_def after_call_def)
  have "\<forall>a\<in>region (unat (r_esp k) + 4) (unat (r_esp c)). stackmem s1 a = n a" using same(7) by simp
  from k(3) [rule_format, of s1, unfolded returns_def, rule_format, OF x(1,2) this [rule_format]] obtain m
    where m: "isr_end G F ?x s1 = Some (Returned c, outb 0x20 0x20 (s1\<lparr>stackmem := m\<rparr>))"
      "same_outside (unat (r_esp c) - 48 - fr_size F) (unat (r_esp c)) (stackmem s1) m" unfolding x(3) by auto
  have "interrupt gt (isr_keyboard G F sc) c s = Some (Returned c, s1\<lparr>stackmem := m, outs := outs s @ [(0x20, 0x20)]\<rparr>)"
    using k(1) s1(1) m(1) same(8) by (auto simp: interrupt_def isr_keyboard_def outb_def split: Option.bind_splits)
  moreover have "same_outside lo (unat (r_esp c)) (stackmem s) m"
    using same_outside_mono [OF same_outside_trans [OF k(2)], of m lo "unat (r_esp c)"] m(2) same(7) lo by simp
  moreover have "console.more s1 = console.more (s\<lparr>stackmem := stackmem s1\<rparr>)" using more same(7) by simp
  ultimately show thesis using that s1(2,3) by blast
qed

section \<open>Interrupts nested in the rest of a timer interrupt\<close>






section \<open>Back after a switch\<close>






section \<open>The kernel's segments\<close>

text \<open>With the table \<open>gdt_init\<close> builds, \<open>iret\<close> admits one selector only, the kernel's code segment.\<close>

lemma gdt_init_entries:
  assumes "gdt_init ga gdt c = Some (G, c1)" and "length gdt = 3"
  shows "length G = 3" "g_access (G ! 0) = 0" "g_access (G ! 1) = 0x9A" "g_access (G ! 2) = 0x92" "gdt_limit (G ! 1) = 0xFFFFFFFF"
proof -
  obtain a b e where gdt: "gdt = [a, b, e]" using assms(2) by (auto simp: length_Suc_conv numeral_3_eq_3)
  show "length G = 3" "g_access (G ! 0) = 0" "g_access (G ! 1) = 0x9A" "g_access (G ! 2) = 0x92" "gdt_limit (G ! 1) = 0xFFFFFFFF"
    using assms(1) by (auto simp: gdt_init_def gdt gdt_set_eq Let_def gdt_limit_def gdt_raw_limit_def)
qed

lemma load_cs_gdt:
  assumes "gdt_init ga gdt c0 = Some (G, c1)" and "length gdt = 3"
  shows "load_cs G sel eip = Some (if sel = 8 then Inr () else Inl (GP (sel AND 0xFFFC)))"
proof (cases "unat sel < 24")
  case True
  note g = gdt_init_entries [OF assms]
  have "sel \<in> of_nat ` set [0..<24]" using True by (intro image_eqI [of _ _ "unat sel"]) simp_all
  then have "sel \<in> {0, 1, 2, 3, 4, 5, 6, 7, 8, 9, 10, 11, 12, 13, 14, 15, 16, 17, 18, 19, 20, 21, 22, 23}" by (simp add: upt_rec)
  moreover have "\<not> 0xFFFFFFFF < eip" using unsigned_less [of eip, where 'a = nat] by (simp add: word_less_nat_alt)
  ultimately show ?thesis unfolding load_cs_def Let_def by (elim insertE emptyE; simp add: g g [unfolded One_nat_def])
next
  case False
  then have "3 \<le> unat (drop_bit 3 sel)" by (simp add: drop_bit_eq_div unat_div_distrib)
  then show ?thesis using False gdt_init_entries(1) [OF assms] by (auto simp: load_cs_def Let_def)
qed

lemma kernel_code_gdt: "gdt_init ga gdt c0 = Some (G, c1) \<Longrightarrow> length gdt = 3 \<Longrightarrow> r_cs c = 8 \<Longrightarrow> kernel_code G c"
  by (simp add: kernel_code_def load_cs_gdt)

text \<open>The default stub after an exception that pushed an error code.\<close>

lemma exception_default:
  fixes s :: "'a kernel_scheme"
  assumes "gdt_init ga gdt c0 = Some (G, c1)" and "length gdt = 3" and "r_esp c AND 3 = 0"
  obtains c' k m where "exception_with_code gt err (isr_default G) c s =
      Some (if ucast (r_eip c) = (8 :: u16) then Returned c' else Faulted (GP (ucast (r_eip c) AND 0xFFFC)) k,
        s\<lparr>stackmem := m, outs := outs s @ [(0x20, 0x20), (0xA0, 0x20)]\<rparr>)"
    "r_eip c' = err" "r_cs c' = 8" "r_esp c' = r_esp c - 4" "if_flag c' = bit (r_cs c) 9"
    "r_esp k = r_esp c - 16" "m (r_esp c - 16) = err"
proof -
  note al = aligned_below [OF assms(3)] assms(3)
  have b: "bit (ucast (r_cs c) :: u32) 9 = bit (r_cs c) 9" by (simp add: bit_simps)
  let ?e = "r_esp c"
  define m where "m = (stackmem s)(?e - 4 := flags_word c, ?e - 8 := ucast (r_cs c), ?e - 12 := r_eip c, ?e - 16 := err, ?e - 20 := r_eax c,
     ?e - 24 := r_ecx c, ?e - 28 := r_edx c, ?e - 32 := r_ebx c, ?e - 36 := ?e - 16, ?e - 40 := r_ebp c, ?e - 44 := r_esi c, ?e - 48 := r_edi c)"
  define c' where "c' = c\<lparr>r_eip := err, r_cs := 8, other_flags := ucast (r_cs c) AND NOT 0x200, if_flag := bit (r_cs c) 9, r_esp := ?e - 4\<rparr>"
  define k where "k = c\<lparr>if_flag := False, other_flags := other_flags c AND 0xFFFCBEFF, r_cs := i_selector gt, r_eip := idt_offset gt, r_esp := ?e - 16\<rparr>"
  have "exception_with_code gt err (isr_default G) c s =
      Some (if ucast (r_eip c) = (8 :: u16) then Returned c' else Faulted (GP (ucast (r_eip c) AND 0xFFFC)) k,
        s\<lparr>stackmem := m, outs := outs s @ [(0x20, 0x20), (0xA0, 0x20)]\<rparr>)"
    using al al_byte [of "r_eax c" "0x20"] b
    by (simp add: exception_with_code_def int_entry_def isr_default_def pusha_def popa_def iret_def push_at pop_at outb_def
        mov_al_def Let_def diff_diff_eq fun_upd_twist load_cs_gdt [OF assms(1,2)] m_def c'_def k_def)
  then show thesis by (rule that) (simp_all add: c'_def k_def m_def)
qed

lemma refault_faults:
  fixes s :: "'a kernel_scheme"
  assumes "gdt_init ga gdt c0 = Some (G, c1)" and "length gdt = 3" and "ucast a \<noteq> (8 :: u16)"
  shows "r_esp c AND 3 = 0 \<Longrightarrow> \<exists>e' k t. refault G gt a n (Faulted e c, s) = Some (Faulted e' k, t) \<and> r_esp k = r_esp c - 16 * of_nat n"
proof (induction n arbitrary: e c s)
  case (Suc n)
  obtain c' k m where x: "exception_with_code gt (fault_code e) (isr_default G) (c\<lparr>r_eip := a\<rparr>) s =
      Some (if ucast (r_eip (c\<lparr>r_eip := a\<rparr>)) = (8 :: u16) then Returned c' else Faulted (GP (ucast (r_eip (c\<lparr>r_eip := a\<rparr>)) AND 0xFFFC)) k,
        s\<lparr>stackmem := m, outs := outs s @ [(0x20, 0x20), (0xA0, 0x20)]\<rparr>)" "r_esp k = r_esp (c\<lparr>r_eip := a\<rparr>) - 16"
    by (rule exception_default [OF assms(1,2), of "c\<lparr>r_eip := a\<rparr>" gt "fault_code e" s]) (use Suc.prems in simp, rule that)
  have "r_esp k AND 3 = 0" using x(2) aligned_below(4) [OF Suc.prems] by simp
  from Suc.IH [OF this] show ?case using x assms(3) by (fastforce simp: algebra_simps)
qed simp

text \<open>Frames as a compiler without any local variable makes them: the return address of the inner call.\<close>

definition thin_frames :: c_frames where
  "thin_frames = \<lparr>fr_return = 0x100500,
     fr_enter = (\<lambda>(c, m). (c\<lparr>r_esp := r_esp c - 4\<rparr>, m(r_esp c - 4 := 0x100600))),
     fr_leave = (\<lambda>(x, m). (x\<lparr>r_eip := m (r_esp x), r_esp := r_esp x + 4\<rparr>, m)),
     fr_size = 4\<rparr>"

lemma thin_frames_ok: "frames_ok thin_frames"
  unfolding frames_ok_def
proof (intro allI impI conjI)
  fix c m k n
  assume en: "fr_enter thin_frames (c, m) = (k, n)" and al: "r_esp c AND 3 = 0" and sz: "fr_size thin_frames \<le> unat (r_esp c)"
  then have k: "k = c\<lparr>r_esp := r_esp c - 4\<rparr>" "n = m(r_esp c - 4 := 0x100600)" "4 \<le> unat (r_esp c)" by (auto simp: thin_frames_def)
  then have "(4 :: u32) \<le> r_esp c" by (simp add: word_le_nat_alt)
  then have u: "unat (r_esp c - 4) = unat (r_esp c) - 4" by (simp add: unat_sub)
  show "r_x87 k = r_x87 c" using k(1) by simp
  show "r_esp k AND 3 = 0" using aligned_below(1) [OF al] k(1) by simp
  show "unat (r_esp c) \<le> unat (r_esp k) + fr_size thin_frames" "unat (r_esp k) + 4 \<le> unat (r_esp c)"
    using k u by (simp_all add: thin_frames_def)
  show "same_outside (unat (r_esp c) - fr_size thin_frames) (unat (r_esp c)) m n"
    using k u by (auto simp: same_outside_def region_def thin_frames_def)
  fix x m' d n'
  assume x: "kept k x" "r_esp x = r_esp k + 4" and m': "\<forall>a\<in>region (unat (r_esp k) + 4) (unat (r_esp c) + 4). m' a = n a"
    and le: "fr_leave thin_frames (x, m') = (d, n')"
  have "r_esp c \<in> region (unat (r_esp k) + 4) (unat (r_esp c) + 4)" using k u by (simp add: region_def)
  then have "m' (r_esp c) = m (r_esp c)" using m' k(2) by simp
  then show "kept c d" "r_x87 d = r_x87 x" "r_esp d = r_esp c + 4" "r_eip d = m (r_esp c)"
    "same_outside (unat (r_esp c) - fr_size thin_frames) (unat (r_esp c)) m' n'"
    using x le k(1) by (auto simp: thin_frames_def kept_def same_outside_def)
qed

definition user_cpu :: "u32 \<Rightarrow> icpu" where
  "user_cpu sp = \<lparr>r_eax = 1, r_ebx = 2, r_esi = 3, r_edi = 4, r_ebp = 5, r_esp = sp, r_eip = 0x100800, if_flag = True,
     r_ecx = 6, r_edx = 7, r_cs = 0x08, other_flags = 2, r_x87 = []\<rparr>"

lemma user_flags_ok: "flags_ok (user_cpu sp)"
  by (simp add: flags_ok_def user_cpu_def)

definition null_entry :: gdt_entry where
  "null_entry = \<lparr>g_limit_low = 0, g_base_low = 0, g_base_mid = 0, g_access = 0, g_granularity = 0, g_base_high = 0\<rparr>"

lemma null_gdt:
  obtains G c1 where "gdt_init ga (replicate 3 null_entry) c0 = Some (G, c1)"
proof -
  have "\<exists>G c1. gdt_init ga (replicate 3 null_entry) c0 = Some (G, c1)" by (simp add: gdt_init_def gdt_set_eq Let_def)
  then show thesis using that by blast
qed

section \<open>Properties\<close>



text \<open>
  C25: The keyboard interrupt stores its key - unless the ring is full - and the default stub only acknowledges
  both interrupt controllers; after either of them the interrupted code - in a segment of the table - goes
  on with every register, the flags and its stack as they were, provided the stack has room for the interrupt.
\<close>

theorem device_interrupts_transparent:
  fixes s :: "'a kernel_scheme"
  assumes "frames_ok F" and "flags_ok c" and "kernel_code G c" and "room F lo c" and "ring_ok s"
  shows "(\<exists>s'. interrupt gt (isr_keyboard G F sc) c s = Some (Returned c, s') \<and> ring_ok s' \<and>
       ring s' = (if length (ring s) < 15 then ring s @ [sc] else ring s) \<and> outs s' = outs s @ [(0x20, 0x20)] \<and>
       same_outside lo (unat (r_esp c)) (stackmem s) (stackmem s')) \<and>
     (\<exists>m. interrupt gt (isr_default G) c s = Some (Returned c, s\<lparr>stackmem := m, outs := outs s @ [(0x20, 0x20), (0xA0, 0x20)]\<rparr>) \<and>
       same_outside lo (unat (r_esp c)) (stackmem s) m)"
proof
  obtain t m where t: "interrupt gt (isr_keyboard G F sc) c s = Some (Returned c, t\<lparr>stackmem := m, outs := outs s @ [(0x20, 0x20)]\<rparr>)"
    "ring_ok t" "ring t = (if length (ring s) < 15 then ring s @ [sc] else ring s)" "same_outside lo (unat (r_esp c)) (stackmem s) m"
    using keyboard_returns [OF assms, of gt sc] by blast
  then show "\<exists>s'. interrupt gt (isr_keyboard G F sc) c s = Some (Returned c, s') \<and> ring_ok s' \<and>
       ring s' = (if length (ring s) < 15 then ring s @ [sc] else ring s) \<and> outs s' = outs s @ [(0x20, 0x20)] \<and>
       same_outside lo (unat (r_esp c)) (stackmem s) (stackmem s')"
    by (intro exI [of _ "t\<lparr>stackmem := m, outs := outs s @ [(0x20, 0x20)]\<rparr>"]) (simp add: ring_ok_def ring_def ring_len_def)
  have al: "r_esp c AND 3 = 0" and lo: "lo \<le> unat (r_esp c) - 48" "48 \<le> unat (r_esp c)" using assms(4) unfolding room_def by linarith+
  obtain c1 m1 k1 where e: "int_entry gt c (stackmem s) = Some (c1, m1)" "pusha c1 m1 = Some (k1, framed c (stackmem s))"
    "r_esp k1 = r_esp c - 44" "r_x87 k1 = r_x87 c" "int_frame (framed c (stackmem s)) (r_esp c - 44) c"
    using interrupt_saves [OF al, of gt "stackmem s"] by blast
  have "do { x \<leftarrow> popa (mov_al 0x20 k1) (framed c (stackmem s)); iret G x (framed c (stackmem s)) } = Some (Returned c)"
    using frame_restores [OF _ assms(2,3), of "framed c (stackmem s)" "mov_al 0x20 k1"] e(3-5) by simp
  then obtain y where "popa (mov_al 0x20 k1) (framed c (stackmem s)) = Some y" "iret G y (framed c (stackmem s)) = Some (Returned c)"
    by (auto split: Option.bind_splits)
  then have "interrupt gt (isr_default G) c s = Some (Returned c, s\<lparr>stackmem := framed c (stackmem s), outs := outs s @ [(0x20, 0x20), (0xA0, 0x20)]\<rparr>)"
    using e(1,2) by (simp add: interrupt_def isr_default_def outb_def Let_def)
  moreover have "same_outside lo (unat (r_esp c)) (stackmem s) (framed c (stackmem s))"
    using same_outside_mono [OF framed_outside [OF lo(2), of "stackmem s" "framed c (stackmem s) (r_esp c - 48)"], of lo "unat (r_esp c)"] lo(1) by simp
  ultimately show "\<exists>m. interrupt gt (isr_default G) c s = Some (Returned c, s\<lparr>stackmem := m, outs := outs s @ [(0x20, 0x20), (0xA0, 0x20)]\<rparr>) \<and>
       same_outside lo (unat (r_esp c)) (stackmem s) m" by blast
qed

lemma device_interrupts_transparent_witness:
  "\<exists>G gt s'. interrupt gt (isr_keyboard G thin_frames 0x1E) (user_cpu 0x110000) bss_kernel = Some (Returned (user_cpu 0x110000), s') \<and> ring s' = [0x1E]"
proof -
  obtain G c1 where G: "gdt_init 0x5000 (replicate 3 null_entry) undefined = Some (G, c1)" using null_gdt .
  have "kernel_code G (user_cpu 0x110000)" using kernel_code_gdt [OF G] by (simp add: user_cpu_def)
  moreover have "room thin_frames 0x100000 (user_cpu 0x110000)" by (simp add: room_def thin_frames_def user_cpu_def)
  moreover have "ring_ok bss_kernel" "ring bss_kernel = []" by (simp_all add: bss_kernel_def ring_ok_def ring_def ring_len_def BUF_SIZE_def)
  ultimately show ?thesis
    using device_interrupts_transparent [OF thin_frames_ok user_flags_ok, of G "0x110000" "0x100000" bss_kernel _ "0x1E"] by fastforce
qed

text \<open>
  C40: Exceptions with an error code are not survived: all vectors but two have the default stub, which does not
  take the code off the stack, so its \<open>iret\<close> takes the error code for the return address, the low half of
  the interrupted instruction's address for the code segment and the old code segment for the flags.  With the
  segment table of the kernel that selector faults again - a general protection exception, the error code still on top
  of the stack - unless it happens to be 8; then the code goes on at the error code as an address.  The second fault has
  the same stub and the same end: after any number of rounds there is another one,
  each 16 bytes deeper in the stack (if the address \<open>a\<close> of the \<open>iret\<close> itself does not end in \<open>0008\<close>).
\<close>

theorem error_code_is_return_address:
  fixes s :: "'a kernel_scheme"
  assumes "gdt_init ga gdt c0 = Some (G, c1)" and "length gdt = 3" and "r_esp c AND 3 = 0"
  shows "if ucast (r_eip c) = (8 :: u16)
     then \<exists>c' m. exception_with_code gt err (isr_default G) c s = Some (Returned c', s\<lparr>stackmem := m, outs := outs s @ [(0x20, 0x20), (0xA0, 0x20)]\<rparr>) \<and>
       r_eip c' = err \<and> r_cs c' = 8 \<and> r_esp c' = r_esp c - 4 \<and> if_flag c' = bit (r_cs c) 9
     else \<exists>k m. exception_with_code gt err (isr_default G) c s =
         Some (Faulted (GP (ucast (r_eip c) AND 0xFFFC)) k, s\<lparr>stackmem := m, outs := outs s @ [(0x20, 0x20), (0xA0, 0x20)]\<rparr>) \<and>
       r_esp k = r_esp c - 16 \<and> m (r_esp k) = err \<and>
       (\<forall>n a. ucast a \<noteq> (8 :: u16) \<longrightarrow> (\<exists>e k' t. do { x \<leftarrow> exception_with_code gt err (isr_default G) c s; refault G gt a n x } =
          Some (Faulted e k', t) \<and> r_esp k' = r_esp c - 16 - 16 * of_nat n))"
proof -
  obtain c' k m where x: "exception_with_code gt err (isr_default G) c s =
      Some (if ucast (r_eip c) = (8 :: u16) then Returned c' else Faulted (GP (ucast (r_eip c) AND 0xFFFC)) k,
        s\<lparr>stackmem := m, outs := outs s @ [(0x20, 0x20), (0xA0, 0x20)]\<rparr>)"
    "r_eip c' = err" "r_cs c' = 8" "r_esp c' = r_esp c - 4" "if_flag c' = bit (r_cs c) 9"
    "r_esp k = r_esp c - 16" "m (r_esp c - 16) = err"
    by (rule exception_default [OF assms, of gt err s]) (rule that)
  have "r_esp k AND 3 = 0" using x(6) aligned_below(4) [OF assms(3)] by simp
  note re = refault_faults [OF assms(1,2) _ this, unfolded x(6)]
  show ?thesis
  proof (cases "ucast (r_eip c) = (8 :: u16)")
    case True
    then show ?thesis using x(1-5) by auto
  next
    case False
    have "\<exists>e k' t. refault G gt a n (Faulted (GP (ucast (r_eip c) AND 0xFFFC)) k, s\<lparr>stackmem := m, outs := outs s @ [(0x20, 0x20), (0xA0, 0x20)]\<rparr>) =
        Some (Faulted e k', t) \<and> r_esp k' = r_esp c - 16 - 16 * of_nat n" if "ucast a \<noteq> (8 :: u16)" for a n by (rule re [OF that])
    then show ?thesis using False x(1,6,7) unfolding if_not_P [OF False] by (intro exI [of _ k] exI [of _ m]) simp
  qed
qed

lemma error_code_is_return_address_witness:
  "\<exists>G gt k s'. exception_with_code gt 0 (isr_default G) (user_cpu 0x110000) bss_kernel = Some (Faulted (GP 0x800) k, s') \<and> r_esp k = 0x10FFF0"
proof -
  obtain G c1 where G: "gdt_init 0x5000 (replicate 3 null_entry) undefined = Some (G, c1)" using null_gdt .
  show ?thesis using error_code_is_return_address [OF G, of "user_cpu 0x110000" undefined 0 bss_kernel] by (fastforce simp: user_cpu_def)
qed

lemma multiboot_checksum: "sum_list multiboot_header = 0"
  by (simp add: multiboot_header_def)

lemma kernel_entry_runs:
  assumes "stack_top AND 3 = 0"
  shows "\<exists>c' m'. kernel_entry stack_top main ret c m = Some (c', m') \<and> r_eip c' = main \<and> r_esp c' = stack_top - 4 \<and> m' (r_esp c') = ret \<and>
     r_ebx c' = 0xDEADBEEF \<and> \<not> if_flag c' \<and> (\<forall>a. a \<noteq> stack_top - 4 \<longrightarrow> m' a = m a)"
  using assms aligned_below(1) [OF assms] by (simp add: kernel_entry_def push_at pop_at)

end
