(* ===== verification/Spec2Isabelle.thy ===== *)
theory Spec2Isabelle
  imports Pmm Klib Heap Descriptors Console Ml Prajna Scheduler Contexts Weights Pit Fat_Mount Shell_Files Kernel_Main Interrupts
begin

text \<open>
  A verification development for PrajnaOS, a 32-bit x86 kernel written in C (sources under
  \<^verbatim>\<open>kernel/\<close>) whose scheduler is steered by a small neural network and a decision engine, Prajna.

  \<^bold>\<open>The program.\<close>  \<open>kernel_main\<close> (\<^verbatim>\<open>kernel.c\<close>) initialises tables, timer, drive, memory, file system, heap,
  scheduler and network weights, and starts the first task.  From then on everything happens in two
  interrupts.  The keyboard interrupt pushes a scancode into a ring (\<^verbatim>\<open>isr.c\<close>).  The timer interrupt (\<^verbatim>\<open>pit.c\<close>)
  counts a tick, drains the ring into the line editor - where Enter runs a command of the shell
  (\<^verbatim>\<open>shell.c\<close>), which prints through \<open>put_char\<close> and reaches the drive (\<^verbatim>\<open>ata.c\<close>) through the file system
  (\<^verbatim>\<open>fat32.c\<close>) - and every hundredth tick runs Prajna (\<^verbatim>\<open>ai_kernel.c\<close>), scores the tasks with the network
  (\<^verbatim>\<open>ml/\<close>), chooses a task, switches to it (\<^verbatim>\<open>scheduler.c\<close>, \<^verbatim>\<open>switch.asm\<close>) and redraws the status bar.

  \<^bold>\<open>Conventions.\<close>  C integers are words of their width.  A result \<open>None\<close> is undefined behaviour in C (an
  access outside an array, a null dereference) or a function that does not return; error codes are
  ordinary values.  A C array is a list read by \<open>arr_get\<close> and written by \<open>arr_set\<close>, which check the index;
  a C \<open>for\<close> loop is \<open>for_each\<close>, or \<open>for_until\<close> when its body may leave it; a \<open>while\<close> loop with no evident
  bound is a partial function in the option monad.  The state is one record, extended theory by theory:
  \<open>console\<close> (screen, cursor, line, ring), \<open>kernel\<close> (ticks, page bitmap, tasks, scheduler, Prajna, weights,
  stack memory, port writes), \<open>system\<close> (file system variables, drive), \<open>machine\<close> (descriptor tables, heap, boot status).

  \<^bold>\<open>Theories.\<close>
  \<^item> \<open>Prelude\<close>: integer types, checked arrays, loop combinators and their induction rules, bits of words.
  \<^item> \<open>Pmm\<close> (\<^verbatim>\<open>pmm.c\<close>): the page bitmap.  The allocator is characterised by the set of free pages; the locale
    \<open>page_allocator\<close> is the contract the heap and the scheduler rely on, interpreted on the bitmap functions.
  \<^item> \<open>Klib\<close> (\<^verbatim>\<open>klib.c\<close>): strings, number formatting, memory routines, the busy wait.
  \<^item> \<open>Heap\<close> (\<^verbatim>\<open>heap.c\<close>): the block list in a store from addresses to headers; an abstract list of blocks, an
    invariant (blocks lie in pages owned by the heap and do not overlap), first fit and merging as refinements.
  \<^item> \<open>Descriptors\<close> (\<^verbatim>\<open>gdt.c\<close>, \<^verbatim>\<open>idt.c\<close>, \<^verbatim>\<open>gdt.asm\<close>, \<^verbatim>\<open>idt.asm\<close>): what the processor decodes from the tables.
  \<^item> \<open>Console\<close> (\<^verbatim>\<open>isr.c\<close>): the ring as a bounded queue (locales \<open>bounded_queue\<close> and \<open>drained_queue\<close>), the line
    editor as an abstract list edited key by key, \<open>put_char\<close> and the bounds of what it writes.
  \<^item> \<open>Fpu\<close>, \<open>Ml\<close> (\<^verbatim>\<open>ml/ml_math.c\<close>, \<^verbatim>\<open>ml/ml_infer.c\<close>): x87 arithmetic as exact rationals rounded to 64 bits at
    every operation and to 24 bits at every store; the layers of the network and the range of its score.
  \<^item> \<open>Kernel_State\<close>: the record of the kernel and its well-formedness \<open>kernel_ok\<close>.
  \<^item> \<open>Prajna\<close> (\<^verbatim>\<open>ai_kernel.c\<close>): sense, think and act; the three circular buffers as bounded logs (locale \<open>ring_log\<close>).
  \<^item> \<open>Scheduler\<close>, \<open>Contexts\<close> (\<^verbatim>\<open>scheduler.c\<close>, \<^verbatim>\<open>switch.asm\<close>): the choice loop against a declarative reference; task
    contexts as stack frames, and the step relation \<open>exec\<close> under which they stay intact and apart.
  \<^item> \<open>Ata\<close> (\<^verbatim>\<open>ata.c\<close>): the polled driver over an arbitrary device; the locale \<open>block_device\<close> is what the file system
    needs of it, interpreted for a drive with the documented PIO protocol.
  \<^item> \<open>Fat32\<close>, \<open>Fat_Volume\<close>, \<open>Fat_Dir\<close> (\<^verbatim>\<open>fat32.c\<close>): the operations; the allocation table as a function and its chains;
    directory slots and the effect of each file operation on the sectors.
  \<^item> \<open>Fat_Mount\<close> (\<^verbatim>\<open>fat32.c\<close>, \<^verbatim>\<open>fat32.h\<close>): the boot sector as a record and its packed bytes, the volume \<open>fat32_init\<close>
    mounts, its layout, and that operations on one file leave every other readable as before.
  \<^item> \<open>Weights\<close> (\<^verbatim>\<open>ml/ml_weights.c\<close>): the loader, and the shipped \<^verbatim>\<open>weights.bin\<close> word by word.
  \<^item> \<open>Pit\<close> (\<^verbatim>\<open>pit.c\<close>): the status bar and the timer interrupt, which composes keyboard, Prajna and scheduler.
  \<^item> \<open>Interrupts\<close> (\<^verbatim>\<open>idt.asm\<close>, \<^verbatim>\<open>irq0_handler\<close> of \<^verbatim>\<open>idt.c\<close>, \<^verbatim>\<open>boot.asm\<close>): what the processor and the stubs push and
    restore around the handlers and what \<open>iret\<close> checks of the code segment; that an interrupted task goes on with every
    general register and its stack as they were, also when it was switched away in between and interrupts nest in
    the rest of its handler; what becomes of an exception with an error code; the entry of the kernel.
  \<^item> \<open>Shell\<close>, \<open>Shell_Files\<close> (\<^verbatim>\<open>shell.c\<close>): one definition per command, the dispatcher; frames of commands by the rules of
    the locale \<open>console_frame\<close>, interpreted for printing commands and for commands that use the drive.
  \<^item> \<open>Kernel_Main\<close> (\<^verbatim>\<open>kernel.c\<close>): the boot sequence as a step relation with interrupts between its
    steps, and \<open>alive\<close>, the interrupts that arrive while \<^verbatim>\<open>shell_task\<close> sleeps; the system stays up.

  \<^bold>\<open>What the properties show.\<close>  Each component keeps its invariant in every operation and on every branch;
  optimised or table-driven code equals its reference (lowest free page, first fit, best score, the
  command table); stored data comes back (numbers as decimals, descriptors, sectors, table entries,
  files); indices stay in range (screen, log, buffers, score in [0,1]); loops end (deleting a chain,
  the timer interrupt when no Enter is waiting, the boot sequence, which can then always reach the shell).  Several properties state a defect
  of the code exactly: an oversized request empties physical memory, \<open>kfree\<close> merges blocks of pages that are not
  adjacent, the anomaly check of Prajna reads a wrong average, only the first chunk of a file is written.

  \<^bold>\<open>Bounds and fuel.\<close>  The timeouts of the driver are the 100000 rounds of the code and its loops are
  structural.  \<open>fat32_read_file\<close> has the safety counter of the code, 129 clusters.  The loops without a bound
  in the source (following a chain, searching a directory, the heap list, draining the ring, the keyboard
  controller) are partial functions; termination is proved where the data justifies it: for chains
  that end, block lists of the invariant, a ring of 15 keys.

  \<^bold>\<open>Parameters.\<close>  The drive and the keyboard controller behind the ports are functions of a device state
  (\<open>ata_device\<close>); what the compiler makes of the C code between an interrupt stub and \<open>context_switch\<close> is
  the record \<open>c_frames\<close>, with the calling convention \<open>frames_ok\<close> as its law, and what the handler leaves in the x87 unit,
  which nothing saves, the function \<open>fp\<close>; the addresses the linker assigns are the record \<open>linked\<close>; what
  uninitialised local variables hold is a parameter (\<open>stack_junk\<close>, the buffer of the loader).

  \<^bold>\<open>Not modelled.\<close>  The one-line assembly wrappers of port instructions (they are the device functions and the
  list of port writes); \<open>iret\<close> to an outer privilege level or to virtual-8086 mode, for which the kernel has no
  segments; interrupts in the middle of a C function (they come between the steps of the boot
  sequence and between the steps of \<open>exec\<close>).  The timer interrupt runs with interrupts off until it switches; after a switch
  back the rest of it runs with interrupts on, as \<open>context_switch\<close> enables them, and \<open>Interrupts\<close> has the interrupts that
  nest there, before and behind the redrawing of the status bar (in \<open>exec\<close> that rest belongs to the running task).  Nor are modelled
  the contents of memory apart from task stacks, heap headers and screen; the build files, the
  boot loader configuration, the data sets and the documentation.  What the map of definitions leaves out of the C files
  is comments, prototypes, includes and these wrappers.
\<close>

end
